(* ===== verification/Menios_Prelude.thy ===== *)
theory Menios_Prelude
  imports Main "HOL-Library.Word"
begin

text \<open>
  Shared vocabulary of the development.

  \<^item> the error numbers of \<^verbatim>\<open>include/sys/errno.h\<close> that the modelled code returns, and the
    result type of the kernel's functions: \<^verbatim>\<open>return -E;\<close> is \<open>Inl E\<close>, a value is \<open>Inr v\<close>;
  \<^item> the machine widths: \<open>u64\<close> and \<open>u32\<close> reduce a natural number as a store into
    \<^verbatim>\<open>uint64_t\<close>/\<^verbatim>\<open>size_t\<close> and \<^verbatim>\<open>uint32_t\<close> does, and are written wherever the C expression can wrap;
  \<^item> \<open>kmem\<close>, the interface of the kernel heap as the other components see it: the objects that
    are live, and the answers that the next calls of \<^verbatim>\<open>kmalloc\<close> give (an address, or
    \<^verbatim>\<open>NULL\<close>), so that every allocation failure is a branch of the model;
  \<^item> a singly linked list in a store of pointers (\<open>lseg\<close>), and the contract of a FIFO queue as
    a locale, which the queues of the components interpret.
\<close>

unbundle bit_operations_syntax

section \<open>Types\<close>

type_synonym byte = "8 word"
type_synonym u32w = "32 word"
type_synonym ptr = nat

datatype errno =
    EPERM | ENOENT | ESRCH | EINTR | EIO | EBADF | ECHILD | EAGAIN | ENOMEM | EACCES | EFAULT | EBUSY | EEXIST
  | ENODEV | EINVAL | EMFILE | ENOTTY | ESPIPE | EROFS | EPIPE | EDEADLK | ENOSYS
  | ENOTDIR | EISDIR | ENOSPC | ERANGE | ENAMETOOLONG | EXDEV | ENOTEMPTY | E2BIG | EFBIG | EIDRM

type_synonym 'a kresult = "errno + 'a"

definition u64 :: "nat \<Rightarrow> nat" where
  "u64 n = n mod 2 ^ 64"

definition u32 :: "nat \<Rightarrow> nat" where
  "u32 n = n mod 2 ^ 32"

text \<open>The conversion \<^verbatim>\<open>(int)x\<close> of a \<^verbatim>\<open>uint32_t\<close>.\<close>

definition s32 :: "nat \<Rightarrow> int" where
  "s32 n = (if u32 n < 2 ^ 31 then int (u32 n) else int (u32 n) - 2 ^ 32)"

text \<open>A store into an \<^verbatim>\<open>int64_t\<close>, wrapping as the compiled code does.\<close>

definition s64 :: "int \<Rightarrow> int" where
  "s64 n = (n + 2 ^ 63) mod 2 ^ 64 - 2 ^ 63"

definition PAGE_SIZE :: nat where
  "PAGE_SIZE = 4096"

record timespec =
  tv_sec :: nat
  tv_nsec :: nat

text \<open>The helper every file-system component repeats: microseconds to a \<open>timespec\<close>.\<close>

definition timespec_of_us :: "nat \<Rightarrow> timespec" where
  "timespec_of_us usec = \<lparr>tv_sec = usec div 1000000, tv_nsec = (usec mod 1000000) * 1000\<rparr>"

section \<open>Collections of facts\<close>

named_theorems queue_simps \<open>list-level behaviour of the pointer queues\<close>
named_theorems inv_intros \<open>every operation keeps its component's invariant\<close>
named_theorems frame_simps \<open>fields an operation leaves alone\<close>

section \<open>Machine arithmetic\<close>

lemma u64_small [simp]: "n < 2 ^ 64 \<Longrightarrow> u64 n = n"
  by (simp add: u64_def)

lemma u64_bound [simp]: "u64 n < 2 ^ 64"
  by (simp add: u64_def)

lemma u32_small [simp]: "n < 2 ^ 32 \<Longrightarrow> u32 n = n"
  by (simp add: u32_def)

lemma u32_pred:
  assumes "0 < w" "w < 2 ^ 32"
  shows "u32 (w + 2 ^ 32 - 1) = w - 1"
proof -
  have e: "w + 2 ^ 32 - 1 = (w - 1) + 2 ^ 32" using assms by simp
  show ?thesis unfolding e u32_def using assms by (simp only: mod_add_self2) simp
qed

lemma u32_bound [simp]: "u32 n < 2 ^ 32"
  by (simp add: u32_def)

lemma s64_small [simp]: "- (2 ^ 63) \<le> n \<Longrightarrow> n < 2 ^ 63 \<Longrightarrow> s64 n = n"
  by (simp add: s64_def)

lemma PAGE_SIZE_pos [simp]: "0 < PAGE_SIZE"
  by (simp add: PAGE_SIZE_def)

lemma tv_nsec_bound: "tv_nsec (timespec_of_us t) < 1000000000"
proof -
  have "t mod 1000000 < 1000000" by simp
  then have "t mod 1000000 * 1000 < 1000000 * 1000" by (rule mult_strict_right_mono) simp
  then show ?thesis by (simp add: timespec_of_us_def)
qed

section \<open>The kernel heap as its clients see it\<close>

record kmem =
  live :: "ptr list"
  answers :: "ptr option list"

definition kmalloc_obj :: "kmem \<Rightarrow> ptr option \<times> kmem" where
  "kmalloc_obj m =
     (case answers m of
        [] \<Rightarrow> (None, m)
      | None # as \<Rightarrow> (None, m\<lparr>answers := as\<rparr>)
      | Some a # as \<Rightarrow> (Some a, m\<lparr>live := a # live m, answers := as\<rparr>))"

definition kfree_obj :: "ptr \<Rightarrow> kmem \<Rightarrow> kmem" where
  "kfree_obj a m = m\<lparr>live := remove1 a (live m)\<rparr>"

text \<open>Addresses the heap hands out are new: not live, and no two answers are the same object.\<close>

definition kmem_ok :: "kmem \<Rightarrow> bool" where
  "kmem_ok m \<longleftrightarrow> distinct (live m @ List.map_filter id (answers m))"

lemma kmalloc_obj_None: "kmalloc_obj m = (None, m') \<Longrightarrow> live m' = live m"
  by (auto simp: kmalloc_obj_def split: list.splits option.splits)

lemma kmalloc_obj_Some:
  "kmalloc_obj m = (Some a, m') \<Longrightarrow> live m' = a # live m"
  by (auto simp: kmalloc_obj_def split: list.splits option.splits)

lemma kmalloc_obj_ok:
  "kmem_ok m \<Longrightarrow> kmalloc_obj m = (r, m') \<Longrightarrow> kmem_ok m'"
  by (auto simp: kmalloc_obj_def kmem_ok_def map_filter_simps split: list.splits option.splits)

lemma kmalloc_obj_fresh:
  "kmem_ok m \<Longrightarrow> kmalloc_obj m = (Some a, m') \<Longrightarrow> a \<notin> set (live m)"
  by (auto simp: kmalloc_obj_def kmem_ok_def map_filter_simps split: list.splits option.splits)

lemma live_kfree_obj [simp]: "live (kfree_obj a m) = remove1 a (live m)"
  by (simp add: kfree_obj_def)

section \<open>Linked lists in a store\<close>

text \<open>\<open>lseg nxt h xs t\<close>: following \<open>nxt\<close> from \<open>h\<close> visits exactly \<open>xs\<close> and arrives at \<open>t\<close>.\<close>

fun lseg :: "(ptr \<Rightarrow> ptr option) \<Rightarrow> ptr option \<Rightarrow> ptr list \<Rightarrow> ptr option \<Rightarrow> bool" where
  "lseg nxt h [] t = (h = t)"
| "lseg nxt h (x # xs) t = (h = Some x \<and> lseg nxt (nxt x) xs t)"

lemma lseg_append:
  "lseg nxt h (xs @ ys) t \<longleftrightarrow> (\<exists>m. lseg nxt h xs m \<and> lseg nxt m ys t)"
  by (induction xs arbitrary: h) auto

lemma lseg_upd [simp]: "x \<notin> set xs \<Longrightarrow> lseg (nxt(x := v)) h xs t = lseg nxt h xs t"
  by (induction xs arbitrary: h) auto

lemma lseg_cong:
  "\<forall>x\<in>set xs. nxt' x = nxt x \<Longrightarrow> lseg nxt' h xs t = lseg nxt h xs t"
  by (induction xs arbitrary: h) auto

lemma lseg_None_iff [simp]: "lseg nxt None xs None \<longleftrightarrow> xs = []"
  by (cases xs) auto

lemma lseg_det: "lseg nxt h xs None \<Longrightarrow> lseg nxt h ys None \<Longrightarrow> xs = ys"
proof (induction xs arbitrary: h ys)
  case Nil
  then show ?case by simp
next
  case (Cons x xs)
  then show ?case by (cases ys) auto
qed

lemma lseg_next_last:
  "lseg nxt h (xs @ [z]) None \<Longrightarrow> nxt z = None"
  by (simp add: lseg_append)

lemma lseg_snoc_upd:
  assumes "lseg nxt h (xs @ [z]) None" and "z \<notin> set xs"
  shows "lseg (nxt(z := v)) h (xs @ [z]) v"
  using assms by (auto simp: lseg_append)

section \<open>FIFO queues\<close>

text \<open>
  The contract every waiting list and buffer of the kernel promises its users: entering puts an
  element behind the others, leaving takes the one that has waited longest. \<open>can\<close> is what the caller
  has to establish before entering (room in a buffer, a node that is not yet linked).
\<close>

locale fifo_queue =
  fixes content :: "'q \<Rightarrow> 'a list"
    and can :: "'a \<Rightarrow> 'q \<Rightarrow> bool"
    and enq :: "'a \<Rightarrow> 'q \<Rightarrow> 'q"
    and deq :: "'q \<Rightarrow> 'a option \<times> 'q"
    and ok :: "'q \<Rightarrow> bool"
  assumes content_enq: "ok q \<Longrightarrow> can x q \<Longrightarrow> content (enq x q) = content q @ [x]"
    and ok_enq: "ok q \<Longrightarrow> can x q \<Longrightarrow> ok (enq x q)"
    and deq_empty: "ok q \<Longrightarrow> content q = [] \<Longrightarrow> deq q = (None, q)"
    and deq_hd: "ok q \<Longrightarrow> content q = x # xs \<Longrightarrow> fst (deq q) = Some x \<and> content (snd (deq q)) = xs"
    and ok_deq: "ok q \<Longrightarrow> ok (snd (deq q))"
begin

fun can_all :: "'a list \<Rightarrow> 'q \<Rightarrow> bool" where
  "can_all [] q \<longleftrightarrow> True"
| "can_all (x # xs) q \<longleftrightarrow> can x q \<and> can_all xs (enq x q)"

fun enq_all :: "'a list \<Rightarrow> 'q \<Rightarrow> 'q" where
  "enq_all [] q = q"
| "enq_all (x # xs) q = enq_all xs (enq x q)"

fun deq_n :: "nat \<Rightarrow> 'q \<Rightarrow> 'a list \<times> 'q" where
  "deq_n 0 q = ([], q)"
| "deq_n (Suc n) q =
     (case deq q of (None, q') \<Rightarrow> ([], q')
      | (Some x, q') \<Rightarrow> (case deq_n n q' of (xs, q'') \<Rightarrow> (x # xs, q'')))"

lemma content_enq_all:
  "ok q \<Longrightarrow> can_all xs q \<Longrightarrow> content (enq_all xs q) = content q @ xs \<and> ok (enq_all xs q)"
  by (induction xs arbitrary: q) (auto simp: content_enq ok_enq)

lemma deq_n_take:
  "ok q \<Longrightarrow> fst (deq_n n q) = take n (content q) \<and> content (snd (deq_n n q)) = drop n (content q)
     \<and> ok (snd (deq_n n q))"
proof (induction n arbitrary: q)
  case 0
  then show ?case by simp
next
  case (Suc n)
  show ?case
  proof (cases "content q")
    case Nil
    with deq_empty [OF Suc.prems] Suc.prems show ?thesis by simp
  next
    case (Cons x xs)
    obtain q' where q': "deq q = (Some x, q')" and "content q' = xs" and "ok q'"
      using deq_hd [OF Suc.prems Cons] ok_deq [OF Suc.prems] by (cases "deq q") auto
    with Suc.IH [OF \<open>ok q'\<close>] Cons show ?thesis by (auto split: prod.splits)
  qed
qed

lemma first_in_first_out:
  "ok q \<Longrightarrow> content q = [] \<Longrightarrow> can_all xs q \<Longrightarrow> fst (deq_n (length xs) (enq_all xs q)) = xs"
  using content_enq_all [of q xs] deq_n_take [of "enq_all xs q" "length xs"] by simp

end

section \<open>Ring buffers\<close>

text \<open>The bytes of a ring of size \<open>N\<close>: \<open>n\<close> of them, from index \<open>h\<close> on.\<close>

definition ring :: "nat \<Rightarrow> (nat \<Rightarrow> 'a) \<Rightarrow> nat \<Rightarrow> nat \<Rightarrow> 'a list" where
  "ring N buf h n = map (\<lambda>i. buf ((h + i) mod N)) [0..<n]"

lemma ring_length [simp]: "length (ring N buf h n) = n"
  by (simp add: ring_def)

lemma ring_0 [simp]: "ring N buf h 0 = []"
  by (simp add: ring_def)

lemma ring_Suc: "ring N buf h (Suc n) = buf (h mod N) # ring N buf (Suc h mod N) n"
proof -
  have "map (\<lambda>i. buf ((h + i) mod N)) [Suc 0..<Suc n] = map (\<lambda>i. buf ((Suc h mod N + i) mod N)) [0..<n]"
    unfolding map_Suc_upt[symmetric] map_map o_def by (simp add: mod_add_left_eq)
  then show ?thesis unfolding ring_def by (subst upt_conv_Cons) simp_all
qed

lemma ring_put:
  assumes "n < N"
  shows "ring N (buf((h + n) mod N := b)) h (Suc n) = ring N buf h n @ [b]"
proof -
  have "(h + i) mod N \<noteq> (h + n) mod N" if "i < n" for i
  proof
    assume "(h + i) mod N = (h + n) mod N"
    then have "N dvd (h + n) - (h + i)" using that by (subst mod_eq_dvd_iff_nat[symmetric]) simp_all
    then have "N \<le> n - i" using that by (intro dvd_imp_le) simp_all
    then show False using that assms by simp
  qed
  then show ?thesis by (simp add: ring_def)
qed

section \<open>Partial functions\<close>

text \<open>Loops that test a pointer for \<^verbatim>\<open>NULL\<close> branch on an option.\<close>

lemma mono_case_option [partial_function_mono]:
  assumes "mono_option (\<lambda>f. g f)" and "\<And>y. mono_option (\<lambda>f. h f y)"
  shows "mono_option (\<lambda>f. case x of None \<Rightarrow> g f | Some y \<Rightarrow> h f y)"
  using assms by (cases x) auto

section \<open>Words\<close>

lemma and_not_idem:
  fixes m u :: "'a::len word"
  assumes "m AND u = 0"
  shows "m AND NOT u = m"
proof (rule bit_word_eqI)
  fix n assume n: "n < LENGTH('a)"
  have "\<not> bit (m AND u) n" using assms by simp
  then show "bit (m AND NOT u) n = bit m n" using n by (auto simp: bit_and_iff bit_not_iff)
qed

lemma low4: "((x::64 word) AND 0xF) = take_bit 4 x"
  by (simp add: take_bit_eq_mask mask_eq_exp_minus_1)

lemma low4_add: "take_bit 4 (x + y :: 64 word) = take_bit 4 (take_bit 4 x + y)"
proof (rule unsigned_word_eqI[where 'a = nat])
  have "unat (take_bit 4 (x + y)) = (unat x + unat y) mod 2 ^ 64 mod 2 ^ 4"
    by (simp add: unsigned_take_bit_eq take_bit_eq_mod unat_word_ariths)
  also have "\<dots> = (unat x + unat y) mod 2 ^ 4" by (rule mod_mod_cancel) simp
  also have "\<dots> = (unat x mod 2 ^ 4 + unat y) mod 2 ^ 4" by (simp add: mod_add_left_eq)
  also have "\<dots> = (unat x mod 2 ^ 4 + unat y) mod 2 ^ 64 mod 2 ^ 4" by (rule mod_mod_cancel[symmetric]) simp
  also have "\<dots> = unat (take_bit 4 (take_bit 4 x + y))"
    by (simp add: unsigned_take_bit_eq take_bit_eq_mod unat_word_ariths)
  finally show "unat (take_bit 4 (x + y)) = unat (take_bit 4 (take_bit 4 x + y))" .
qed

lemma align16_offset:
  "((y AND NOT 0xF :: 64 word) + 32) AND 0xF = 0"
  "((y AND NOT 0xF :: 64 word) - 8) AND 0xF = 8"
proof -
  have "take_bit 4 (y AND NOT 0xF :: 64 word) = 0"
    unfolding low4[symmetric] by (rule bit_word_eqI) (auto simp: bit_simps)
  then show "((y AND NOT 0xF :: 64 word) + 32) AND 0xF = 0" "((y AND NOT 0xF :: 64 word) - 8) AND 0xF = 8"
    using low4_add[of "y AND NOT 0xF" 32] low4_add[of "y AND NOT 0xF" "- 8"]
    unfolding low4 by simp_all
qed

end
