(* ===== verification/Proc_Queue.thy ===== *)
theory Proc_Queue
  imports Menios_Prelude "HOL-Library.Multiset"
begin

text \<open>
  The process descriptors and the scheduler's queues of \<^verbatim>\<open>src/kernel/proc/proc.c\<close>, at the level
  of the pointers the code manipulates: the five ready queues and the sleep queue all thread
  their processes through the one field \<^verbatim>\<open>proc->next\<close>, so what happens to one queue can be seen by
  another. Loops that follow \<^verbatim>\<open>next\<close> are \<open>partial_function (option)\<close>: a corrupted queue may make
  them run forever, which is the value \<open>None\<close>.

  \<open>queues_rep\<close> relates the pointers to six disjoint lists; each queue operation is proved to
  return, to keep the relation, and to act on the lists as the queue it implements.

  A process is named by its pointer; \<^verbatim>\<open>&kernel_process_info\<close> is pointer \<open>0\<close>. The fields of
  \<^verbatim>\<open>proc_info_t\<close> that describe memory and files belong to other theories.
\<close>

section \<open>Data\<close>

datatype proc_state =
    PROC_STATE_NEW | PROC_STATE_READY | PROC_STATE_RUNNING | PROC_STATE_WAITING
  | PROC_STATE_SLEEPING | PROC_STATE_ZOMBIE | PROC_STATE_STOPPED | PROC_STATE_TERMINATED

record sigaction =
  sa_handler :: nat
  sa_mask :: u32w
  sa_flags :: u32w
  sa_restorer :: nat

record siginfo =
  si_signo :: nat
  si_errno :: nat
  si_code :: nat
  si_value :: nat
  si_addr :: nat
  si_pid :: nat
  si_uid :: nat

record proc_itimer =
  it_active :: bool
  it_expires_us :: nat
  it_interval_us :: nat

record proc_info =
  p_pid :: nat
  p_parent :: "ptr option"
  p_first_child :: "ptr option"
  p_sibling_next :: "ptr option"
  p_children_count :: nat
  p_state :: proc_state
  p_priority :: nat
  p_sleep_until :: nat
  p_quantum_us :: nat
  p_time_slice :: nat
  p_last_dispatch_us :: nat
  p_dispatch_count :: nat
  p_exec_time :: nat
  p_waitpid_target :: int
  p_waitpid_waiting :: bool
  p_next :: "ptr option"
  p_exit_code :: int
  p_stop_status :: nat
  p_continue_status :: nat
  p_err_no :: "errno option"
  p_user_mode :: bool
  p_signal_pending :: u32w
  p_signal_blocked :: u32w
  p_signal_actions :: "nat \<Rightarrow> sigaction"
  p_stopped :: bool
  p_stop_status_pending :: bool
  p_continued_pending :: bool
  p_itimer_real :: proc_itimer
  p_wait_active :: bool
  p_wait_consume :: bool
  p_wait_capture_info :: bool
  p_wait_result_ready :: bool
  p_wait_mask :: u32w
  p_wait_info :: siginfo
  p_wait_result :: nat
  p_sigsuspend_active :: bool
  p_sigsuspend_oldmask :: u32w
  p_stack_pointer :: "ptr option"
  p_user_segments :: "(nat \<times> nat) list"
  p_address_space_root :: nat

text \<open>
  The scheduler's static variables. \<open>act_force\<close> and \<open>act_sleep\<close> are the two bits of
  \<^verbatim>\<open>scheduler_actions\<close>; \<open>releases\<close> logs, newest first, the calls that give resources back.
  A user segment is its physical base and page count.
\<close>

datatype release =
    ShmDetachAll ptr | KFree ptr | PmmFree nat nat

record sched =
  pinfo :: "ptr \<Rightarrow> proc_info"
  procs :: "ptr option list"
  current :: ptr
  rq_head :: "nat \<Rightarrow> ptr option"
  rq_tail :: "nat \<Rightarrow> ptr option"
  sleep_queue_head :: "ptr option"
  act_force :: bool
  act_sleep :: bool
  last_pid :: nat
  last_exec :: nat
  scheduler_quantum_table :: "nat \<Rightarrow> nat"
  kernel_cr3 :: nat
  releases :: "release list"

definition kernel_process_info :: ptr where
  "kernel_process_info = 0"

definition PROC_PRIO_IDLE :: nat where "PROC_PRIO_IDLE = 0"
definition PROC_PRIO_NORMAL :: nat where "PROC_PRIO_NORMAL = 2"
definition PROC_PRIORITY_MAX :: nat where "PROC_PRIORITY_MAX = 4"

lemmas prio_defs = PROC_PRIO_IDLE_def PROC_PRIO_NORMAL_def PROC_PRIORITY_MAX_def

abbreviation nxt :: "sched \<Rightarrow> ptr \<Rightarrow> ptr option" where
  "nxt s \<equiv> (\<lambda>p. p_next (pinfo s p))"

definition upd :: "ptr \<Rightarrow> (proc_info \<Rightarrow> proc_info) \<Rightarrow> sched \<Rightarrow> sched" where
  "upd p f s = s\<lparr>pinfo := (pinfo s)(p := f (pinfo s p))\<rparr>"

definition set_next :: "ptr \<Rightarrow> ptr option \<Rightarrow> sched \<Rightarrow> sched" where
  "set_next p v = upd p (p_next_update (\<lambda>_. v))"

definition set_state :: "ptr \<Rightarrow> proc_state \<Rightarrow> sched \<Rightarrow> sched" where
  "set_state p st = upd p (p_state_update (\<lambda>_. st))"

text \<open>A zeroed descriptor, the statically initialised kernel process and the state at boot.\<close>

definition zero_siginfo :: siginfo where
  "zero_siginfo = \<lparr>si_signo = 0, si_errno = 0, si_code = 0, si_value = 0, si_addr = 0, si_pid = 0,
     si_uid = 0\<rparr>"

definition zero_sigaction :: sigaction where
  "zero_sigaction = \<lparr>sa_handler = 0, sa_mask = 0, sa_flags = 0, sa_restorer = 0\<rparr>"

definition zero_proc :: proc_info where
  "zero_proc = \<lparr>p_pid = 0, p_parent = None, p_first_child = None, p_sibling_next = None,
     p_children_count = 0, p_state = PROC_STATE_NEW, p_priority = 0, p_sleep_until = 0,
     p_quantum_us = 0, p_time_slice = 0, p_last_dispatch_us = 0, p_dispatch_count = 0,
     p_exec_time = 0, p_waitpid_target = 0, p_waitpid_waiting = False, p_next = None,
     p_exit_code = 0, p_stop_status = 0, p_continue_status = 0, p_err_no = None,
     p_user_mode = False, p_signal_pending = 0, p_signal_blocked = 0,
     p_signal_actions = (\<lambda>_. zero_sigaction), p_stopped = False, p_stop_status_pending = False,
     p_continued_pending = False,
     p_itimer_real = \<lparr>it_active = False, it_expires_us = 0, it_interval_us = 0\<rparr>,
     p_wait_active = False, p_wait_consume = False, p_wait_capture_info = False,
     p_wait_result_ready = False, p_wait_mask = 0, p_wait_info = zero_siginfo, p_wait_result = 0,
     p_sigsuspend_active = False, p_sigsuspend_oldmask = 0, p_stack_pointer = None,
     p_user_segments = [], p_address_space_root = 0\<rparr>"

definition boot_sched :: sched where
  "boot_sched = \<lparr>pinfo = (\<lambda>_. zero_proc)(kernel_process_info := zero_proc\<lparr>p_state := PROC_STATE_READY\<rparr>),
     procs = Some kernel_process_info # replicate 15 None, current = kernel_process_info,
     rq_head = (\<lambda>_. None), rq_tail = (\<lambda>_. None), sleep_queue_head = None,
     act_force = False, act_sleep = False, last_pid = 0, last_exec = 0,
     scheduler_quantum_table = (\<lambda>pr. [1000, 4000, 6000, 8000, 12000] ! pr),
     kernel_cr3 = 0, releases = []\<rparr>"

section \<open>The process table\<close>

fun proc_table_insert_slots :: "ptr \<Rightarrow> ptr option list \<Rightarrow> ptr option list option" where
  "proc_table_insert_slots p [] = None"
| "proc_table_insert_slots p (None # ts) = Some (Some p # ts)"
| "proc_table_insert_slots p (Some q # ts) =
     (if q = p then Some (Some q # ts)
      else map_option ((#) (Some q)) (proc_table_insert_slots p ts))"

text \<open>A full table halts the machine: \<open>None\<close>.\<close>

definition proc_table_insert :: "ptr \<Rightarrow> sched \<Rightarrow> sched option" where
  "proc_table_insert p s =
     map_option (\<lambda>ts. s\<lparr>procs := ts\<rparr>) (proc_table_insert_slots p (procs s))"

fun proc_table_remove_slots :: "ptr \<Rightarrow> ptr option list \<Rightarrow> ptr option list" where
  "proc_table_remove_slots p [] = []"
| "proc_table_remove_slots p (t # ts) =
     (if t = Some p then None # ts else t # proc_table_remove_slots p ts)"

definition proc_table_remove :: "ptr \<Rightarrow> sched \<Rightarrow> sched" where
  "proc_table_remove p s = s\<lparr>procs := proc_table_remove_slots p (procs s)\<rparr>"

fun find_pid_slots :: "sched \<Rightarrow> nat \<Rightarrow> ptr option list \<Rightarrow> ptr option" where
  "find_pid_slots s pid [] = None"
| "find_pid_slots s pid (None # ts) = find_pid_slots s pid ts"
| "find_pid_slots s pid (Some p # ts) =
     (if p_pid (pinfo s p) = pid then Some p else find_pid_slots s pid ts)"

definition proc_find_by_pid :: "nat \<Rightarrow> sched \<Rightarrow> ptr option" where
  "proc_find_by_pid pid s = find_pid_slots s pid (procs s)"

text \<open>
  \<^verbatim>\<open>scheduler_cleanup_process\<close>: the kernel process is never released. The descriptor itself is
  freed last; its fields are not read afterwards by any queue operation, since a process is
  unlinked before it is cleaned up.
\<close>

definition log_release :: "release \<Rightarrow> sched \<Rightarrow> sched" where
  "log_release r s = s\<lparr>releases := r # releases s\<rparr>"

fun free_segments :: "(nat \<times> nat) list \<Rightarrow> sched \<Rightarrow> sched" where
  "free_segments [] s = s"
| "free_segments ((phys, pages) # segs) s =
     free_segments segs (if phys \<noteq> 0 then log_release (PmmFree phys pages) s else s)"

definition scheduler_cleanup_process :: "ptr \<Rightarrow> sched \<Rightarrow> sched" where
  "scheduler_cleanup_process p s =
     (if p = kernel_process_info then s
      else let s1 = proc_table_remove p s;
               s2 = log_release (ShmDetachAll p) s1;
               s3 = (case p_stack_pointer (pinfo s2 p) of
                       Some sp \<Rightarrow> upd p (p_stack_pointer_update (\<lambda>_. None)) (log_release (KFree sp) s2)
                     | None \<Rightarrow> s2);
               s4 = upd p (p_user_segments_update (\<lambda>_. []))
                      (free_segments (p_user_segments (pinfo s3 p)) s3);
               root = p_address_space_root (pinfo s4 p);
               s5 = (if root \<noteq> 0 \<and> root \<noteq> kernel_cr3 s4
                     then upd p (p_address_space_root_update (\<lambda>_. 0))
                            (log_release (PmmFree root 1) s4)
                     else s4)
           in log_release (KFree p) s5)"

section \<open>Ready queues\<close>

definition ready_queue_push :: "ptr \<Rightarrow> sched \<Rightarrow> sched" where
  "ready_queue_push p s =
     (let s1 = (if p_priority (pinfo s p) > PROC_PRIORITY_MAX
                then upd p (p_priority_update (\<lambda>_. PROC_PRIO_NORMAL)) s else s);
          pr = p_priority (pinfo s1 p);
          s2 = set_next p None s1;
          s3 = (case rq_tail s2 pr of
                  Some t \<Rightarrow> set_next t (Some p) s2
                | None \<Rightarrow> s2\<lparr>rq_head := (rq_head s2)(pr := Some p)\<rparr>)
      in s3\<lparr>rq_tail := (rq_tail s3)(pr := Some p)\<rparr>)"

text \<open>The walk both removal loops share: the predecessor at which the search stopped, and
  whether the process was found.\<close>

partial_function (option) queue_walk ::
    "(ptr \<Rightarrow> ptr option) \<Rightarrow> ptr \<Rightarrow> ptr option \<Rightarrow> ptr option \<Rightarrow> (ptr option \<times> bool) option" where
  "queue_walk nx p prev node =
     (case node of
        None \<Rightarrow> Some (prev, False)
      | Some n \<Rightarrow> if n = p then Some (prev, True) else queue_walk nx p (Some n) (nx n))"

definition ready_queue_remove_at :: "nat \<Rightarrow> ptr \<Rightarrow> sched \<Rightarrow> (bool \<times> sched) option" where
  "ready_queue_remove_at pr p s =
     (case queue_walk (nxt s) p None (rq_head s pr) of
        None \<Rightarrow> None
      | Some (prev, False) \<Rightarrow> Some (False, s)
      | Some (prev, True) \<Rightarrow>
          (let s1 = (case prev of
                       Some q \<Rightarrow> set_next q (nxt s p) s
                     | None \<Rightarrow> s\<lparr>rq_head := (rq_head s)(pr := nxt s p)\<rparr>);
               s2 = (if rq_tail s1 pr = Some p
                     then s1\<lparr>rq_tail := (rq_tail s1)(pr := prev)\<rparr> else s1)
           in Some (True, set_next p None s2)))"

fun ready_queue_remove_from :: "nat list \<Rightarrow> ptr \<Rightarrow> sched \<Rightarrow> sched option" where
  "ready_queue_remove_from [] p s = Some s"
| "ready_queue_remove_from (pr # prs) p s =
     (case ready_queue_remove_at pr p s of
        None \<Rightarrow> None
      | Some (True, s') \<Rightarrow> Some s'
      | Some (False, s') \<Rightarrow> ready_queue_remove_from prs p s')"

definition ready_queue_remove :: "ptr \<Rightarrow> sched \<Rightarrow> sched option" where
  "ready_queue_remove p s = ready_queue_remove_from [0, 1, 2, 3, 4] p s"

section \<open>Sleep queue\<close>

partial_function (option) sleep_walk :: "sched \<Rightarrow> nat \<Rightarrow> ptr \<Rightarrow> ptr option" where
  "sleep_walk s until node =
     (case nxt s node of
        None \<Rightarrow> Some node
      | Some m \<Rightarrow> if p_sleep_until (pinfo s m) \<le> until then sleep_walk s until m else Some node)"

definition scheduler_sleep_enqueue :: "ptr \<Rightarrow> sched \<Rightarrow> sched option" where
  "scheduler_sleep_enqueue p s =
     (case sleep_queue_head s of
        None \<Rightarrow> Some ((set_next p None s)\<lparr>sleep_queue_head := Some p\<rparr>)
      | Some h \<Rightarrow>
          if p_sleep_until (pinfo s p) < p_sleep_until (pinfo s h)
          then Some ((set_next p (Some h) s)\<lparr>sleep_queue_head := Some p\<rparr>)
          else (case sleep_walk s (p_sleep_until (pinfo s p)) h of
                  None \<Rightarrow> None
                | Some node \<Rightarrow> Some (set_next node (Some p) (set_next p (nxt s node) s))))"

definition sleep_queue_remove :: "ptr \<Rightarrow> sched \<Rightarrow> sched option" where
  "sleep_queue_remove p s =
     (case queue_walk (nxt s) p None (sleep_queue_head s) of
        None \<Rightarrow> None
      | Some (prev, False) \<Rightarrow> Some s
      | Some (prev, True) \<Rightarrow>
          (let s1 = (case prev of
                       Some q \<Rightarrow> set_next q (nxt s p) s
                     | None \<Rightarrow> s\<lparr>sleep_queue_head := nxt s p\<rparr>)
           in Some (set_next p None s1)))"

section \<open>Popping\<close>

definition rq_unlink_head :: "nat \<Rightarrow> ptr \<Rightarrow> sched \<Rightarrow> sched" where
  "rq_unlink_head pr p s =
     (let s1 = s\<lparr>rq_head := (rq_head s)(pr := nxt s p)\<rparr>;
          s2 = (if rq_head s1 pr = None then s1\<lparr>rq_tail := (rq_tail s1)(pr := None)\<rparr> else s1)
      in set_next p None s2)"

partial_function (option) ready_queue_pop_at_priority ::
    "nat \<Rightarrow> sched \<Rightarrow> (ptr option \<times> sched) option" where
  "ready_queue_pop_at_priority pr s =
     (if pr > PROC_PRIORITY_MAX then Some (None, s)
      else case rq_head s pr of
        None \<Rightarrow> Some (None, s)
      | Some p \<Rightarrow>
          (let s1 = rq_unlink_head pr p s; st = p_state (pinfo s1 p) in
           if st = PROC_STATE_ZOMBIE then ready_queue_pop_at_priority pr s1
           else if st = PROC_STATE_TERMINATED
                then ready_queue_pop_at_priority pr (scheduler_cleanup_process p s1)
           else if st = PROC_STATE_SLEEPING
                then Option.bind (scheduler_sleep_enqueue p s1) (ready_queue_pop_at_priority pr)
           else if st = PROC_STATE_STOPPED then ready_queue_pop_at_priority pr s1
           else Some (Some p, s1)))"

fun ready_queue_pop_from :: "nat list \<Rightarrow> sched \<Rightarrow> (ptr option \<times> sched) option" where
  "ready_queue_pop_from [] s = Some (None, s)"
| "ready_queue_pop_from (pr # prs) s =
     (case ready_queue_pop_at_priority pr s of
        None \<Rightarrow> None
      | Some (Some p, s') \<Rightarrow> Some (Some p, s')
      | Some (None, s') \<Rightarrow> ready_queue_pop_from prs s')"

definition ready_queue_pop_highest :: "sched \<Rightarrow> (ptr option \<times> sched) option" where
  "ready_queue_pop_highest s = ready_queue_pop_from [4, 3, 2, 1, 0] s"

fun highest_nonempty :: "sched \<Rightarrow> nat list \<Rightarrow> nat" where
  "highest_nonempty s [] = PROC_PRIO_IDLE"
| "highest_nonempty s (pr # prs) = (if rq_head s pr \<noteq> None then pr else highest_nonempty s prs)"

definition ready_queue_highest_priority :: "sched \<Rightarrow> nat" where
  "ready_queue_highest_priority s = highest_nonempty s [4, 3, 2, 1, 0]"

section \<open>Waking, stopping and continuing processes\<close>

text \<open>\<^verbatim>\<open>scheduler_wake_sleepers\<close> runs while the head of the sleep queue is due.\<close>

definition wake_head :: "ptr \<Rightarrow> sched \<Rightarrow> sched" where
  "wake_head p s =
     (let s1 = s\<lparr>sleep_queue_head := nxt s p\<rparr>;
          s2 = set_state p PROC_STATE_READY (set_next p None s1);
          s3 = upd p (\<lambda>i. i\<lparr>p_time_slice := p_quantum_us i\<rparr>) s2
      in ready_queue_push p s3)"

partial_function (option) scheduler_wake_sleepers :: "nat \<Rightarrow> sched \<Rightarrow> sched option" where
  "scheduler_wake_sleepers now s =
     (case sleep_queue_head s of
        None \<Rightarrow> Some s
      | Some p \<Rightarrow> if p_sleep_until (pinfo s p) \<le> now
                  then scheduler_wake_sleepers now (wake_head p s) else Some s)"

definition proc_mark_ready :: "ptr \<Rightarrow> sched \<Rightarrow> sched option" where
  "proc_mark_ready p s =
     (if p_state (pinfo s p) = PROC_STATE_TERMINATED \<or> p_state (pinfo s p) = PROC_STATE_READY
      then Some s
      else case sleep_queue_remove p s of
        None \<Rightarrow> None
      | Some s1 \<Rightarrow>
          (let s2 = upd p (\<lambda>i. i\<lparr>p_state := PROC_STATE_READY, p_time_slice := p_quantum_us i,
                                  p_sleep_until := 0\<rparr>) s1
           in Some ((ready_queue_push p s2)\<lparr>act_force := True\<rparr>)))"

definition encode_stopped_status :: "nat \<Rightarrow> nat" where
  "encode_stopped_status signo = (push_bit 8 (signo AND 0x7f)) OR 0x7f"

text \<open>The notification of a waiting parent, common to stopping and continuing.\<close>

definition notify_waiting_parent :: "ptr \<Rightarrow> sched \<Rightarrow> sched option" where
  "notify_waiting_parent p s =
     (case p_parent (pinfo s p) of
        None \<Rightarrow> Some s
      | Some par \<Rightarrow>
          if p_waitpid_waiting (pinfo s par)
             \<and> (p_waitpid_target (pinfo s par) = - 1
                \<or> p_waitpid_target (pinfo s par) = s32 (p_pid (pinfo s p)))
          then proc_mark_ready par
                 (upd par (\<lambda>i. i\<lparr>p_waitpid_waiting := False, p_waitpid_target := - 1\<rparr>) s)
          else Some s)"

definition proc_mark_stopped :: "ptr \<Rightarrow> nat \<Rightarrow> sched \<Rightarrow> sched option" where
  "proc_mark_stopped p signo s =
     (if p = kernel_process_info then Some s
      else let s1 = upd p (\<lambda>i. i\<lparr>p_stop_status := encode_stopped_status signo,
                                p_stop_status_pending := True, p_stopped := True,
                                p_continue_status := 0, p_continued_pending := False\<rparr>) s;
               r = (if p_state (pinfo s1 p) = PROC_STATE_SLEEPING then sleep_queue_remove p s1
                    else if p_state (pinfo s1 p) = PROC_STATE_READY then ready_queue_remove p s1
                    else Some s1)
           in case r of
                None \<Rightarrow> None
              | Some s2 \<Rightarrow>
                  map_option (\<lambda>s4. s4\<lparr>act_force := True\<rparr>)
                    (notify_waiting_parent p
                       (upd p (\<lambda>i. i\<lparr>p_state := PROC_STATE_STOPPED, p_time_slice := 0\<rparr>) s2)))"

definition proc_mark_continued :: "ptr \<Rightarrow> sched \<Rightarrow> sched option" where
  "proc_mark_continued p s =
     (if p = kernel_process_info then Some s
      else let s1 = upd p (\<lambda>i. i\<lparr>p_stopped := False, p_stop_status_pending := False,
                                p_continue_status := 0xffff, p_continued_pending := True\<rparr>) s;
               r = (if p_state (pinfo s1 p) = PROC_STATE_STOPPED then proc_mark_ready p s1
                    else Some s1)
           in case r of None \<Rightarrow> None | Some s2 \<Rightarrow> notify_waiting_parent p s2)"

section \<open>Requests to the scheduler\<close>

definition scheduler_default_quanta :: "nat \<Rightarrow> nat" where
  "scheduler_default_quanta pr = [1000, 4000, 6000, 8000, 12000] ! pr"

definition scheduler_set_quantum :: "nat \<Rightarrow> nat \<Rightarrow> sched \<Rightarrow> sched" where
  "scheduler_set_quantum pr q s =
     (if pr > PROC_PRIORITY_MAX \<or> q = 0 then s
      else s\<lparr>scheduler_quantum_table := (scheduler_quantum_table s)(pr := q)\<rparr>)"

definition scheduler_get_quantum :: "nat \<Rightarrow> sched \<Rightarrow> nat" where
  "scheduler_get_quantum priority s =
     (let pr = (if priority > PROC_PRIORITY_MAX then PROC_PRIO_NORMAL else priority);
          quantum = scheduler_quantum_table s pr
      in if quantum = 0 then scheduler_default_quanta pr else quantum)"

definition proc_set_priority :: "ptr \<Rightarrow> nat \<Rightarrow> sched \<Rightarrow> sched" where
  "proc_set_priority p priority s =
     (let pr = (if priority > PROC_PRIORITY_MAX then PROC_PRIO_NORMAL else priority);
          q = scheduler_get_quantum pr s;
          q' = (if q = 0 then scheduler_default_quanta PROC_PRIO_NORMAL else q)
      in upd p (\<lambda>i. i\<lparr>p_priority := pr, p_quantum_us := q', p_time_slice := q'\<rparr>) s)"

definition proc_request_yield :: "sched \<Rightarrow> sched" where
  "proc_request_yield s =
     (upd (current s) (p_time_slice_update (\<lambda>_. 0)) s)\<lparr>act_force := True\<rparr>"

definition proc_request_sleep :: "nat \<Rightarrow> nat \<Rightarrow> sched \<Rightarrow> sched" where
  "proc_request_sleep now duration_us s =
     (if duration_us = 0 then s\<lparr>act_force := True\<rparr>
      else (upd (current s) (\<lambda>i. i\<lparr>p_sleep_until := u64 (now + duration_us),
                                   p_time_slice := 0\<rparr>) s)
             \<lparr>act_force := True, act_sleep := True\<rparr>)"

definition proc_request_block :: "sched \<Rightarrow> sched" where
  "proc_request_block s =
     (upd (current s) (\<lambda>i. i\<lparr>p_sleep_until := 2 ^ 64 - 1, p_time_slice := 0\<rparr>) s)
       \<lparr>act_force := True, act_sleep := True\<rparr>"

section \<open>The queues as lists\<close>

text \<open>
  \<open>queues_rep s qs\<close>: ready queue \<open>i\<close> holds \<open>qs i\<close> for \<open>i \<le> 4\<close> and the sleep queue holds
  \<open>qs SLEEPQ\<close>; no process is queued twice.
\<close>

definition SLEEPQ :: nat where "SLEEPQ = 5"

definition qhead :: "sched \<Rightarrow> nat \<Rightarrow> ptr option" where
  "qhead s i = (if i = SLEEPQ then sleep_queue_head s else rq_head s i)"

definition tail_of :: "ptr list \<Rightarrow> ptr option" where
  "tail_of xs = (if xs = [] then None else Some (last xs))"

definition queues_rep :: "sched \<Rightarrow> (nat \<Rightarrow> ptr list) \<Rightarrow> bool" where
  "queues_rep s qs \<longleftrightarrow>
     (\<forall>i\<le>5. lseg (nxt s) (qhead s i) (qs i) None) \<and>
     (\<forall>i\<le>4. rq_tail s i = tail_of (qs i)) \<and>
     (\<forall>i\<le>5. distinct (qs i)) \<and>
     (\<forall>i\<le>5. \<forall>j\<le>5. i \<noteq> j \<longrightarrow> set (qs i) \<inter> set (qs j) = {})"

definition queued :: "(nat \<Rightarrow> ptr list) \<Rightarrow> ptr set" where
  "queued qs = (\<Union>i\<in>{..5}. set (qs i))"

definition sleep_key :: "sched \<Rightarrow> ptr \<Rightarrow> nat" where
  "sleep_key s p = p_sleep_until (pinfo s p)"

definition sleep_insert :: "(ptr \<Rightarrow> nat) \<Rightarrow> ptr \<Rightarrow> ptr list \<Rightarrow> ptr list" where
  "sleep_insert k p xs =
     takeWhile (\<lambda>q. k q \<le> k p) xs @ p # dropWhile (\<lambda>q. k q \<le> k p) xs"

definition ready_prio :: "sched \<Rightarrow> ptr \<Rightarrow> nat" where
  "ready_prio s p = (if p_priority (pinfo s p) > PROC_PRIORITY_MAX then PROC_PRIO_NORMAL
                     else p_priority (pinfo s p))"

text \<open>A process that \<^verbatim>\<open>ready_queue_pop_at_priority\<close> hands out.\<close>

definition runnable :: "sched \<Rightarrow> ptr \<Rightarrow> bool" where
  "runnable s p \<longleftrightarrow> p_state (pinfo s p) \<notin>
     {PROC_STATE_ZOMBIE, PROC_STATE_TERMINATED, PROC_STATE_SLEEPING, PROC_STATE_STOPPED}"

definition sleeping :: "sched \<Rightarrow> ptr \<Rightarrow> bool" where
  "sleeping s p \<longleftrightarrow> p_state (pinfo s p) = PROC_STATE_SLEEPING"

text \<open>What a pop at one priority leaves of the sleep queue: the sleepers it skipped are filed.\<close>

definition pop_sleepers :: "sched \<Rightarrow> ptr list \<Rightarrow> ptr list \<Rightarrow> ptr list" where
  "pop_sleepers s xs sl =
     fold (sleep_insert (sleep_key s)) (filter (sleeping s) (takeWhile (Not \<circ> runnable s) xs)) sl"

definition pop_one :: "sched \<Rightarrow> nat \<Rightarrow> (nat \<Rightarrow> ptr list) \<Rightarrow> (nat \<Rightarrow> ptr list)" where
  "pop_one s k qs = qs(k := tl (dropWhile (Not \<circ> runnable s) (qs k)),
                       SLEEPQ := pop_sleepers s (qs k) (qs SLEEPQ))"

fun pop_lists :: "sched \<Rightarrow> nat list \<Rightarrow> (nat \<Rightarrow> ptr list) \<Rightarrow> ptr option \<times> (nat \<Rightarrow> ptr list)" where
  "pop_lists s [] qs = (None, qs)"
| "pop_lists s (k # ks) qs =
     (case find (runnable s) (qs k) of
        Some p \<Rightarrow> (Some p, pop_one s k qs)
      | None \<Rightarrow> pop_lists s ks (pop_one s k qs))"

text \<open>Moving the processes of a list, in order, to the ready queues of their priorities.\<close>

fun wake_lists :: "sched \<Rightarrow> ptr list \<Rightarrow> (nat \<Rightarrow> ptr list) \<Rightarrow> (nat \<Rightarrow> ptr list)" where
  "wake_lists s [] qs = qs"
| "wake_lists s (p # ps) qs = wake_lists s ps (qs(ready_prio s p := qs (ready_prio s p) @ [p]))"

text \<open>
  The scheduler's invariant: the queues are well-formed lists, the ready queues hold the ready
  processes of their priority, and the sleep queue holds sleeping processes by wake-up time.
\<close>

definition sched_wf :: "sched \<Rightarrow> (nat \<Rightarrow> ptr list) \<Rightarrow> bool" where
  "sched_wf s qs \<longleftrightarrow>
     queues_rep s qs \<and>
     (\<forall>i\<le>4. \<forall>q\<in>set (qs i). p_state (pinfo s q) = PROC_STATE_READY \<and> ready_prio s q = i) \<and>
     (\<forall>q\<in>set (qs SLEEPQ). p_state (pinfo s q) = PROC_STATE_SLEEPING) \<and>
     sorted (map (sleep_key s) (qs SLEEPQ))"

text \<open>What of a descriptor the queue operations never change.\<close>

definition core :: "proc_info \<Rightarrow> proc_info" where
  "core i = i\<lparr>p_next := None, p_state := PROC_STATE_NEW, p_time_slice := 0, p_sleep_until := 0,
              p_priority := 0\<rparr>"

text \<open>A step that leaves the queues, and what the queue operations read, alone.\<close>

definition sched_frame :: "sched \<Rightarrow> sched \<Rightarrow> bool" where
  "sched_frame s s' \<longleftrightarrow>
     rq_head s' = rq_head s \<and> rq_tail s' = rq_tail s \<and> sleep_queue_head s' = sleep_queue_head s \<and>
     current s' = current s \<and>
     (\<forall>q. p_next (pinfo s' q) = p_next (pinfo s q) \<and> p_state (pinfo s' q) = p_state (pinfo s q) \<and>
          p_priority (pinfo s' q) = p_priority (pinfo s q) \<and>
          p_sleep_until (pinfo s' q) = p_sleep_until (pinfo s q))"

text \<open>A step that only relinks the queues.\<close>

definition relink ::
    "(ptr \<Rightarrow> ptr option) \<Rightarrow> (nat \<Rightarrow> ptr option) \<Rightarrow> (nat \<Rightarrow> ptr option) \<Rightarrow> ptr option \<Rightarrow> sched \<Rightarrow> sched" where
  "relink nx h t sl s =
     s\<lparr>pinfo := \<lambda>q. (pinfo s q)\<lparr>p_next := nx q\<rparr>, rq_head := h, rq_tail := t,
       sleep_queue_head := sl\<rparr>"

definition links_only :: "sched \<Rightarrow> sched \<Rightarrow> bool" where
  "links_only s s' \<longleftrightarrow> (\<exists>nx h t sl. s' = relink nx h t sl s)"

text \<open>A concrete state: process 3 ready at priority 2, processes 1 and 2 asleep until 10 and 30.\<close>

definition demo_sched :: sched where
  "demo_sched = boot_sched\<lparr>
     pinfo := (pinfo boot_sched)
       (1 := zero_proc\<lparr>p_pid := 1, p_state := PROC_STATE_SLEEPING, p_priority := 2, p_sleep_until := 10,
               p_next := Some 2\<rparr>,
        2 := zero_proc\<lparr>p_pid := 2, p_state := PROC_STATE_SLEEPING, p_priority := 3, p_sleep_until := 30\<rparr>,
        3 := zero_proc\<lparr>p_pid := 3, p_state := PROC_STATE_READY, p_priority := 2\<rparr>),
     procs := [Some 0, Some 1, Some 2, Some 3],
     sleep_queue_head := Some 1, rq_head := (\<lambda>_. None)(2 := Some 3), rq_tail := (\<lambda>_. None)(2 := Some 3)\<rparr>"

definition demo_qs :: "nat \<Rightarrow> ptr list" where
  "demo_qs = (\<lambda>_. [])(2 := [3], 5 := [1, 2])"

section \<open>Record frames\<close>

lemma upd_simps [simp]:
  "pinfo (upd p f s) = (pinfo s)(p := f (pinfo s p))"
  "procs (upd p f s) = procs s"
  "current (upd p f s) = current s"
  "rq_head (upd p f s) = rq_head s"
  "rq_tail (upd p f s) = rq_tail s"
  "sleep_queue_head (upd p f s) = sleep_queue_head s"
  "act_force (upd p f s) = act_force s"
  "act_sleep (upd p f s) = act_sleep s"
  "releases (upd p f s) = releases s"
  "kernel_cr3 (upd p f s) = kernel_cr3 s"
  "last_exec (upd p f s) = last_exec s"
  "last_pid (upd p f s) = last_pid s"
  by (simp_all add: upd_def)

lemma nxt_set_next [simp]: "nxt (set_next p v s) = (nxt s)(p := v)"
  by (auto simp: set_next_def)

lemma set_next_at: "p_next (pinfo (set_next p v s) q) = (if q = p then v else p_next (pinfo s q))"
  by (simp add: set_next_def)

lemma if_fun_upd: "(\<lambda>q. if q = p then v else f q) = f(p := v)"
  by auto

lemma set_next_simps [simp]:
  "rq_head (set_next p v s) = rq_head s"
  "rq_tail (set_next p v s) = rq_tail s"
  "sleep_queue_head (set_next p v s) = sleep_queue_head s"
  "procs (set_next p v s) = procs s"
  "current (set_next p v s) = current s"
  "releases (set_next p v s) = releases s"
  "p_state (pinfo (set_next p v s) q) = p_state (pinfo s q)"
  "p_priority (pinfo (set_next p v s) q) = p_priority (pinfo s q)"
  "p_sleep_until (pinfo (set_next p v s) q) = p_sleep_until (pinfo s q)"
  by (simp_all add: set_next_def)

lemma nxt_upd: "(\<And>i. p_next (f i) = p_next i) \<Longrightarrow> nxt (upd p f s) = nxt s"
  by (auto simp: fun_eq_iff)

section \<open>The relation under updates\<close>

lemma queues_repD:
  assumes "queues_rep s qs"
  shows "i \<le> 5 \<Longrightarrow> lseg (nxt s) (qhead s i) (qs i) None"
    and "i \<le> 4 \<Longrightarrow> rq_tail s i = tail_of (qs i)"
    and "i \<le> 5 \<Longrightarrow> distinct (qs i)"
    and "i \<le> 5 \<Longrightarrow> j \<le> 5 \<Longrightarrow> i \<noteq> j \<Longrightarrow> set (qs i) \<inter> set (qs j) = {}"
  using assms unfolding queues_rep_def by blast+

lemma queues_rep_one:
  assumes rep: "queues_rep s qs" and k: "k \<le> 5"
    and hd: "\<And>i. i \<le> 5 \<Longrightarrow> i \<noteq> k \<Longrightarrow> qhead s' i = qhead s i"
    and tl: "\<And>i. i \<le> 4 \<Longrightarrow> i \<noteq> k \<Longrightarrow> rq_tail s' i = rq_tail s i"
    and nx: "\<And>i q. i \<le> 5 \<Longrightarrow> i \<noteq> k \<Longrightarrow> q \<in> set (qs i) \<Longrightarrow> nxt s' q = nxt s q"
    and seg: "lseg (nxt s') (qhead s' k) xs None"
    and tk: "k \<le> 4 \<Longrightarrow> rq_tail s' k = tail_of xs"
    and dist: "distinct xs"
    and disj: "\<And>i. i \<le> 5 \<Longrightarrow> i \<noteq> k \<Longrightarrow> set xs \<inter> set (qs i) = {}"
  shows "queues_rep s' (qs(k := xs))"
proof -
  have "lseg (nxt s') (qhead s' i) ((qs(k := xs)) i) None" if "i \<le> 5" for i
    using that seg hd nx queues_repD(1)[OF rep that] by (auto intro: lseg_cong[THEN iffD1, rotated])
  moreover have "set ((qs(k := xs)) i) \<inter> set ((qs(k := xs)) j) = {}"
    if "i \<le> 5" "j \<le> 5" "i \<noteq> j" for i j
    using that disj[of i] disj[of j] queues_repD(4)[OF rep that] by auto
  ultimately show ?thesis
    unfolding queues_rep_def
    using tl tk dist queues_repD(2,3)[OF rep] by auto
qed

lemma queues_rep_frame:
  assumes "queues_rep s qs" "sleep_queue_head s' = sleep_queue_head s"
    "rq_head s' = rq_head s" "rq_tail s' = rq_tail s" "nxt s' = nxt s"
  shows "queues_rep s' qs"
proof -
  have "qhead s' = qhead s" using assms by (simp add: fun_eq_iff qhead_def)
  then show ?thesis using assms unfolding queues_rep_def by simp
qed

lemma links_onlyI:
  "s' = relink (nxt s') (rq_head s') (rq_tail s') (sleep_queue_head s') s \<Longrightarrow> links_only s s'"
  unfolding links_only_def by blast

lemma links_onlyD:
  assumes "links_only s s'"
  shows "p_state (pinfo s' q) = p_state (pinfo s q)"
    and "p_priority (pinfo s' q) = p_priority (pinfo s q)"
    and "sleep_key s' = sleep_key s"
    and "procs s' = procs s" and "current s' = current s" and "releases s' = releases s"
    and "runnable s' q = runnable s q"
  using assms
  by (auto simp: links_only_def relink_def sleep_key_def runnable_def fun_eq_iff)

lemma links_only_refl [simp, intro!]: "links_only s s"
  by (rule links_onlyI) (simp add: relink_def)

lemma relink_relink [simp]: "relink nx h t sl (relink nx' h' t' sl' s) = relink nx h t sl s"
  by (simp add: relink_def)

lemma links_only_trans: "links_only a b \<Longrightarrow> links_only b c \<Longrightarrow> links_only a c"
  unfolding links_only_def using relink_relink by metis

lemma links_only_set_next [intro!]: "links_only s t \<Longrightarrow> links_only s (set_next p v t)"
  by (erule links_only_trans, rule links_onlyI)
     (simp add: relink_def set_next_def upd_def fun_eq_iff)

lemma links_only_heads [intro!]:
  "links_only s t \<Longrightarrow> links_only s (t\<lparr>rq_head := h\<rparr>)"
  "links_only s t \<Longrightarrow> links_only s (t\<lparr>rq_tail := ta\<rparr>)"
  "links_only s t \<Longrightarrow> links_only s (t\<lparr>sleep_queue_head := sl\<rparr>)"
  by (erule links_only_trans, rule links_onlyI, simp add: relink_def)+

lemma not_queued: "p \<notin> queued qs \<Longrightarrow> i \<le> 5 \<Longrightarrow> p \<notin> set (qs i)"
  by (auto simp: queued_def)

lemma qhead_ready [simp]: "i \<le> 4 \<Longrightarrow> qhead s i = rq_head s i"
  by (simp add: qhead_def SLEEPQ_def)

lemma qhead_sleep [simp]: "qhead s SLEEPQ = sleep_queue_head s"
  by (simp add: qhead_def)

lemma SLEEPQ_bounds [simp]: "SLEEPQ \<le> 5" "\<not> SLEEPQ \<le> 4"
  by (simp_all add: SLEEPQ_def)

lemma ready_or_sleep: "i \<le> 5 \<Longrightarrow> i \<noteq> SLEEPQ \<Longrightarrow> i \<le> 4"
  by (simp add: SLEEPQ_def)

lemma qhead_cong_ready:
  "sleep_queue_head s' = sleep_queue_head s \<Longrightarrow> rq_head s' i = rq_head s i \<Longrightarrow> qhead s' i = qhead s i"
  by (simp add: qhead_def)

section \<open>Pushing\<close>

lemma ready_prio_le [simp]: "ready_prio s p \<le> 4"
  by (simp add: ready_prio_def prio_defs)

lemma ready_prio_not_sleep [simp]: "ready_prio s p \<noteq> SLEEPQ" "SLEEPQ \<noteq> ready_prio s p"
  by (simp_all add: ready_prio_def prio_defs SLEEPQ_def)

lemma ready_queue_push_fields [simp]:
  "sleep_queue_head (ready_queue_push p s) = sleep_queue_head s"
  "procs (ready_queue_push p s) = procs s"
  "current (ready_queue_push p s) = current s"
  "releases (ready_queue_push p s) = releases s"
  "p_state (pinfo (ready_queue_push p s) q) = p_state (pinfo s q)"
  "p_sleep_until (pinfo (ready_queue_push p s) q) = p_sleep_until (pinfo s q)"
  by (simp_all add: ready_queue_push_def Let_def split: option.splits)

lemma sleep_key_push [simp]: "sleep_key (ready_queue_push p s) = sleep_key s"
  by (simp add: fun_eq_iff sleep_key_def)

lemma ready_queue_push_queue:
  "rq_tail (ready_queue_push p s) = (rq_tail s)(ready_prio s p := Some p)"
  "rq_head (ready_queue_push p s) =
     (if rq_tail s (ready_prio s p) = None then (rq_head s)(ready_prio s p := Some p)
      else rq_head s)"
  "nxt (ready_queue_push p s) =
     (case rq_tail s (ready_prio s p) of
        None \<Rightarrow> (nxt s)(p := None) | Some t \<Rightarrow> (nxt s)(p := None, t := Some p))"
  by (auto simp: ready_queue_push_def Let_def ready_prio_def fun_eq_iff set_next_def
      split: option.splits)

lemma push_rep:
  assumes rep: "queues_rep s qs" and p: "p \<notin> queued qs"
  shows "queues_rep (ready_queue_push p s)
           (qs(ready_prio s p := qs (ready_prio s p) @ [p]))"
proof (rule queues_rep_one[OF rep])
  let ?k = "ready_prio s p"
  have k: "?k \<le> 5" "?k \<le> 4" using ready_prio_le[of s p] by linarith+
  note seg = queues_repD(1)[OF rep k(1)] and tail = queues_repD(2)[OF rep k(2)]
  show "?k \<le> 5" by (rule k)
  show "qhead (ready_queue_push p s) i = qhead s i" if "i \<le> 5" "i \<noteq> ?k" for i
    using that by (auto simp: qhead_def ready_queue_push_queue)
  show "rq_tail (ready_queue_push p s) i = rq_tail s i" if "i \<le> 4" "i \<noteq> ?k" for i
    using that by (simp add: ready_queue_push_queue)
  show "nxt (ready_queue_push p s) q = nxt s q" if "i \<le> 5" "i \<noteq> ?k" "q \<in> set (qs i)" for i q
  proof -
    have "q \<noteq> p" using not_queued[OF p that(1)] that(3) by auto
    moreover have "q \<noteq> last (qs ?k)" if "qs ?k \<noteq> []"
      using queues_repD(4)[OF rep \<open>i \<le> 5\<close> k(1)] \<open>i \<noteq> ?k\<close> \<open>q \<in> set (qs i)\<close> that last_in_set by blast
    ultimately show ?thesis
      using tail ready_queue_push_queue(3)[of p s, THEN fun_cong, of q]
      by (auto simp: tail_of_def split: if_splits)
  qed
  show "lseg (nxt (ready_queue_push p s)) (qhead (ready_queue_push p s) ?k) (qs ?k @ [p]) None"
  proof (cases "qs ?k" rule: rev_cases)
    case Nil
    then show ?thesis using tail unfolding ready_queue_push_queue(3)
      by (simp add: tail_of_def ready_queue_push_queue)
  next
    case (snoc ys z)
    have nz: "z \<notin> set ys" "p \<notin> set ys" "p \<noteq> z"
      using queues_repD(3)[OF rep k(1)] not_queued[OF p k(1)] snoc by auto
    have "lseg (nxt s) (rq_head s ?k) (ys @ [z]) None" using seg snoc by simp
    then show ?thesis using tail snoc nz unfolding ready_queue_push_queue(3)
      by (auto simp: tail_of_def ready_queue_push_queue lseg_append)
  qed
  show "rq_tail (ready_queue_push p s) ?k = tail_of (qs ?k @ [p])"
    by (simp add: ready_queue_push_queue tail_of_def)
  show "distinct (qs ?k @ [p])"
    using queues_repD(3)[OF rep k(1)] not_queued[OF p k(1)] by simp
  show "set (qs ?k @ [p]) \<inter> set (qs i) = {}" if "i \<le> 5" "i \<noteq> ?k" for i
    using queues_repD(4)[OF rep k(1) that(1)] not_queued[OF p that(1)] that(2) by auto
qed

section \<open>Walking and removing\<close>

lemma queue_walk_None [simp]: "queue_walk nx p prev None = Some (prev, False)"
  by (simp add: queue_walk.simps)

lemma queue_walk_Some [simp]:
  "queue_walk nx p prev (Some n) = (if n = p then Some (prev, True) else queue_walk nx p (Some n) (nx n))"
  by (simp add: queue_walk.simps)

lemma queue_walk_absent:
  "lseg nx h xs None \<Longrightarrow> p \<notin> set xs \<Longrightarrow> \<exists>q. queue_walk nx p prev h = Some (q, False)"
  by (induction xs arbitrary: h prev) auto

lemma queue_walk_found:
  "lseg nx h (xs @ p # ys) None \<Longrightarrow> p \<notin> set xs \<Longrightarrow>
     queue_walk nx p prev h = Some (if xs = [] then prev else Some (last xs), True)"
  by (induction xs arbitrary: h prev) auto

lemma lseg_unlink:
  assumes "lseg nx h (xs @ p # ys) None" "distinct (xs @ p # ys)" "xs \<noteq> []"
  shows "lseg (nx(last xs := nx p, p := None)) h (xs @ ys) None"
proof -
  obtain as z where xs: "xs = as @ [z]" using assms(3) by (cases xs rule: rev_cases) auto
  with assms have "lseg nx h as (Some z)" "nx z = Some p" "lseg nx (nx p) ys None"
    by (auto simp: lseg_append)
  then show ?thesis using assms(2) xs by (auto simp: lseg_append)
qed

lemma lseg_tail: "lseg nx h (p # ys) None \<Longrightarrow> p \<notin> set ys \<Longrightarrow> lseg (nx(p := v)) (nx p) ys None"
  by simp

text \<open>Unlinking \<open>p\<close> from ready queue \<open>k\<close>, in list terms.\<close>

lemma split_unique_mem:
  assumes "p \<in> set xs" "distinct xs"
  obtains ys zs where "xs = ys @ p # zs" "p \<notin> set ys" "p \<notin> set zs" "remove1 p xs = ys @ zs"
proof -
  obtain ys zs where xs: "xs = ys @ p # zs" "p \<notin> set ys" using assms(1) split_list_first by fast
  moreover have "p \<notin> set zs" using assms(2) xs by simp
  moreover have "remove1 p xs = ys @ zs" using xs by (simp add: remove1_append)
  ultimately show ?thesis using that by blast
qed

lemma ready_queue_remove_at_absent:
  "queues_rep s qs \<Longrightarrow> k \<le> 4 \<Longrightarrow> p \<notin> set (qs k) \<Longrightarrow> ready_queue_remove_at k p s = Some (False, s)"
  using queue_walk_absent[of "nxt s" "rq_head s k" "qs k" p None] queues_repD(1)[of s qs k]
  by (auto simp: ready_queue_remove_at_def)

lemma lseg_remove:
  assumes seg: "lseg nx h xs None" and d: "distinct xs" and xs: "xs = ys @ p # zs"
  shows "lseg ((case tail_of ys of Some q \<Rightarrow> nx(q := nx p) | None \<Rightarrow> nx)(p := None))
           (case tail_of ys of Some q \<Rightarrow> h | None \<Rightarrow> nx p) (ys @ zs) None"
  using lseg_unlink[of nx h ys p zs] lseg_tail[of nx h p zs None] assms
  by (cases "ys = []") (auto simp: tail_of_def)

lemma ready_queue_remove_at_found:
  assumes rep: "queues_rep s qs" and k: "k \<le> 4" and p: "p \<in> set (qs k)"
  shows "\<exists>s'. ready_queue_remove_at k p s = Some (True, s')
           \<and> queues_rep s' (qs(k := remove1 p (qs k)))
           \<and> links_only s s'"
proof -
  have k5: "k \<le> 5" using k by simp
  note seg = queues_repD(1)[OF rep k5] and d = queues_repD(3)[OF rep k5]
  obtain ys zs where sp: "qs k = ys @ p # zs" "p \<notin> set ys" "p \<notin> set zs"
    and rm: "remove1 p (qs k) = ys @ zs"
    by (rule split_unique_mem[OF p d])
  have walk: "queue_walk (nxt s) p None (rq_head s k) = Some (tail_of ys, True)"
    using queue_walk_found[of "nxt s" "rq_head s k" ys p zs None] seg k sp by (simp add: tail_of_def)
  define s1 where "s1 = (case tail_of ys of
      Some q \<Rightarrow> set_next q (nxt s p) s | None \<Rightarrow> s\<lparr>rq_head := (rq_head s)(k := nxt s p)\<rparr>)"
  define s2 where "s2 = (if rq_tail s1 k = Some p then s1\<lparr>rq_tail := (rq_tail s1)(k := tail_of ys)\<rparr> else s1)"
  define s' where "s' = set_next p None s2"
  have run: "ready_queue_remove_at k p s = Some (True, s')"
    by (simp add: ready_queue_remove_at_def walk s'_def s2_def s1_def Let_def)
  have nx: "nxt s' = (case tail_of ys of Some q \<Rightarrow> (nxt s)(q := nxt s p) | None \<Rightarrow> nxt s)(p := None)"
    unfolding s'_def s2_def s1_def by (auto simp: fun_eq_iff set_next_def split: option.splits)
  have tails: "rq_tail s1 = rq_tail s" by (simp add: s1_def split: option.splits)
  have hd: "rq_head s' = (rq_head s)(k := (case tail_of ys of Some q \<Rightarrow> rq_head s k | None \<Rightarrow> nxt s p))"
    "sleep_queue_head s' = sleep_queue_head s"
    unfolding s'_def s2_def s1_def by (auto simp: fun_eq_iff split: option.splits)
  have "queues_rep s' (qs(k := ys @ zs))"
  proof (rule queues_rep_one[OF rep k5])
    show "qhead s' i = qhead s i" if "i \<le> 5" "i \<noteq> k" for i
      using that hd by (simp add: qhead_def)
    show "rq_tail s' i = rq_tail s i" if "i \<le> 4" "i \<noteq> k" for i
      using that tails by (simp add: s'_def s2_def)
    show "nxt s' q = nxt s q" if "i \<le> 5" "i \<noteq> k" "q \<in> set (qs i)" for i q
    proof -
      have "q \<notin> set (qs k)" using queues_repD(4)[OF rep that(1) k5] that by auto
      then have "q \<noteq> p" "ys \<noteq> [] \<Longrightarrow> q \<noteq> last ys" using sp by auto
      then show ?thesis using nx[THEN fun_cong, of q] by (auto simp: tail_of_def split: if_splits)
    qed
    show "lseg (nxt s') (qhead s' k) (ys @ zs) None"
      using lseg_remove[OF seg d sp(1)] k hd nx by (simp split: option.splits)
    show "rq_tail s' k = tail_of (ys @ zs)"
      using queues_repD(2)[OF rep k] tails sp by (auto simp: s'_def s2_def tail_of_def)
    show "distinct (ys @ zs)" using d sp by simp
    show "set (ys @ zs) \<inter> set (qs i) = {}" if "i \<le> 5" "i \<noteq> k" for i
      using queues_repD(4)[OF rep k5 that(1)] that(2) sp by auto
  qed
  moreover have "links_only s s'"
    unfolding s'_def s2_def s1_def
    by (auto split: option.splits)
  ultimately show ?thesis using run rm by auto
qed

lemma sleep_queue_remove_found:
  assumes rep: "queues_rep s qs" and p: "p \<in> set (qs SLEEPQ)"
  shows "\<exists>s'. sleep_queue_remove p s = Some s'
           \<and> queues_rep s' (qs(SLEEPQ := remove1 p (qs SLEEPQ))) \<and> links_only s s'"
proof -
  note seg = queues_repD(1)[OF rep SLEEPQ_bounds(1)] and d = queues_repD(3)[OF rep SLEEPQ_bounds(1)]
  obtain ys zs where sp: "qs SLEEPQ = ys @ p # zs" "p \<notin> set ys" "p \<notin> set zs"
    and rm: "remove1 p (qs SLEEPQ) = ys @ zs"
    by (rule split_unique_mem[OF p d])
  have walk: "queue_walk (nxt s) p None (sleep_queue_head s) = Some (tail_of ys, True)"
    using queue_walk_found[of "nxt s" "sleep_queue_head s" ys p zs None] seg sp
    by (simp add: tail_of_def)
  define s1 where "s1 = (case tail_of ys of
      Some q \<Rightarrow> set_next q (nxt s p) s | None \<Rightarrow> s\<lparr>sleep_queue_head := nxt s p\<rparr>)"
  define s' where "s' = set_next p None s1"
  have run: "sleep_queue_remove p s = Some s'"
    by (simp add: sleep_queue_remove_def walk s'_def s1_def Let_def)
  have nx: "nxt s' = (case tail_of ys of Some q \<Rightarrow> (nxt s)(q := nxt s p) | None \<Rightarrow> nxt s)(p := None)"
    unfolding s'_def s1_def by (auto simp: fun_eq_iff set_next_def split: option.splits)
  have hd: "rq_head s' = rq_head s" "rq_tail s' = rq_tail s"
    "sleep_queue_head s' = (case tail_of ys of Some q \<Rightarrow> sleep_queue_head s | None \<Rightarrow> nxt s p)"
    unfolding s'_def s1_def by (auto split: option.splits)
  have "queues_rep s' (qs(SLEEPQ := ys @ zs))"
  proof (rule queues_rep_one[OF rep SLEEPQ_bounds(1)])
    show "qhead s' i = qhead s i" if "i \<le> 5" "i \<noteq> SLEEPQ" for i
      using that hd by (simp add: qhead_def)
    show "nxt s' q = nxt s q" if "i \<le> 5" "i \<noteq> SLEEPQ" "q \<in> set (qs i)" for i q
    proof -
      have "q \<notin> set (qs SLEEPQ)" using queues_repD(4)[OF rep that(1) SLEEPQ_bounds(1)] that by auto
      then have "q \<noteq> p" "ys \<noteq> [] \<Longrightarrow> q \<noteq> last ys" using sp by auto
      then show ?thesis using nx[THEN fun_cong, of q] by (auto simp: tail_of_def split: if_splits)
    qed
    show "lseg (nxt s') (qhead s' SLEEPQ) (ys @ zs) None"
      using lseg_remove[OF seg d sp(1)] hd nx by (simp split: option.splits)
    show "distinct (ys @ zs)" using d sp by simp
    show "set (ys @ zs) \<inter> set (qs i) = {}" if "i \<le> 5" "i \<noteq> SLEEPQ" for i
      using queues_repD(4)[OF rep SLEEPQ_bounds(1) that(1)] that(2) sp by auto
  qed (simp_all add: hd)
  moreover have "links_only s s'"
    unfolding s'_def s1_def
    by (auto split: option.splits)
  ultimately show ?thesis using run rm by auto
qed

lemma sleep_queue_remove_absent:
  "queues_rep s qs \<Longrightarrow> p \<notin> set (qs SLEEPQ) \<Longrightarrow> sleep_queue_remove p s = Some s"
  using queue_walk_absent[of "nxt s" "sleep_queue_head s" "qs SLEEPQ" p None]
    queues_repD(1)[of s qs SLEEPQ]
  by (auto simp: sleep_queue_remove_def)

lemma sleep_queue_remove_rep:
  assumes "queues_rep s qs"
  shows "\<exists>s'. sleep_queue_remove p s = Some s'
           \<and> queues_rep s' (qs(SLEEPQ := remove1 p (qs SLEEPQ))) \<and> links_only s s'"
proof (cases "p \<in> set (qs SLEEPQ)")
  case True
  then show ?thesis by (rule sleep_queue_remove_found[OF assms])
next
  case False
  then show ?thesis using assms
    by (auto simp: sleep_queue_remove_absent remove1_idem)
qed

lemma ready_queue_remove_from_rep:
  assumes "queues_rep s qs" "\<forall>k\<in>set ks. k \<le> 4" "distinct ks"
  shows "\<exists>s'. ready_queue_remove_from ks p s = Some s' \<and> links_only s s'
           \<and> queues_rep s' (\<lambda>i. if i \<in> set ks then remove1 p (qs i) else qs i)"
  using assms(2,3)
proof (induction ks)
  case Nil
  then show ?case using assms(1) by simp
next
  case (Cons k ks)
  show ?case
  proof (cases "p \<in> set (qs k)")
    case True
    have k: "k \<le> 4" using Cons.prems by simp
    have "remove1 p (qs i) = qs i" if "i \<in> set ks" for i
      using that Cons.prems True queues_repD(4)[OF assms(1), of k i]
      by (intro remove1_idem) fastforce
    then have "(\<lambda>i. if i \<in> set (k # ks) then remove1 p (qs i) else qs i) = qs(k := remove1 p (qs k))"
      by auto
    then show ?thesis using ready_queue_remove_at_found[OF assms(1) k True] by auto
  next
    case False
    have "(\<lambda>i. if i \<in> set (k # ks) then remove1 p (qs i) else qs i)
        = (\<lambda>i. if i \<in> set ks then remove1 p (qs i) else qs i)"
      using False by (auto simp: remove1_idem)
    then show ?thesis using ready_queue_remove_at_absent[OF assms(1) _ False] Cons by auto
  qed
qed

lemma ready_queue_remove_rep:
  assumes "queues_rep s qs"
  shows "\<exists>s'. ready_queue_remove p s = Some s' \<and> links_only s s'
           \<and> queues_rep s' (\<lambda>i. if i \<le> 4 then remove1 p (qs i) else qs i)"
proof -
  have "i \<in> set [0, 1, 2, 3, 4] \<longleftrightarrow> i \<le> 4" for i :: nat by auto
  then show ?thesis
    using ready_queue_remove_from_rep[OF assms, of "[0, 1, 2, 3, 4]" p]
    unfolding ready_queue_remove_def by simp
qed

section \<open>Sleeping\<close>

lemma sleep_walk_last:
  "lseg (nxt s) (nxt s node) xs None \<Longrightarrow>
     sleep_walk s until node = Some (last (node # takeWhile (\<lambda>q. sleep_key s q \<le> until) xs))"
proof (induction xs arbitrary: node)
  case Nil
  then show ?case by (simp add: sleep_walk.simps)
next
  case (Cons x xs)
  then show ?case by (subst sleep_walk.simps) (simp add: sleep_key_def)
qed

lemma lseg_insert_after:
  assumes "lseg nx h (as @ z # bs) None" "distinct (as @ z # bs)" "p \<notin> set (as @ z # bs)"
  shows "lseg (nx(p := nx z, z := Some p)) h (as @ z # p # bs) None"
  using assms by (auto simp: lseg_append)

lemma sleep_insert_mset: "mset (sleep_insert k p xs) = add_mset p (mset xs)"
proof -
  have "mset xs = mset (takeWhile (\<lambda>q. k q \<le> k p) xs) + mset (dropWhile (\<lambda>q. k q \<le> k p) xs)"
    by (metis mset_append takeWhile_dropWhile_id)
  then show ?thesis by (simp add: sleep_insert_def)
qed

lemma set_sleep_insert [simp]: "set (sleep_insert k p xs) = insert p (set xs)"
  using arg_cong[OF sleep_insert_mset, of set_mset] by simp

lemma distinct_sleep_insert: "distinct xs \<Longrightarrow> p \<notin> set xs \<Longrightarrow> distinct (sleep_insert k p xs)"
  using mset_eq_imp_distinct_iff[of "sleep_insert k p xs" "p # xs"] by (simp add: sleep_insert_mset)

lemma sleep_insert_middle:
  fixes k :: "ptr \<Rightarrow> nat" and xs :: "ptr list"
  assumes "k h \<le> k p"
  defines "tw \<equiv> takeWhile (\<lambda>q. k q \<le> k p) xs" and "dw \<equiv> dropWhile (\<lambda>q. k q \<le> k p) xs"
  shows "sleep_insert k p (h # xs) = butlast (h # tw) @ last (h # tw) # p # dw"
    and "h # xs = butlast (h # tw) @ last (h # tw) # dw"
proof -
  have e: "butlast (h # tw) @ last (h # tw) # ys = (h # tw) @ ys" for ys
    using arg_cong[OF append_butlast_last_id[of "h # tw"], of "\<lambda>zs. zs @ ys"] by simp
  show "sleep_insert k p (h # xs) = butlast (h # tw) @ last (h # tw) # p # dw"
    unfolding e using assms by (simp add: sleep_insert_def)
  show "h # xs = butlast (h # tw) @ last (h # tw) # dw"
    unfolding e by (simp add: tw_def dw_def)
qed

lemma sleep_insert_stop: "k p < k h \<Longrightarrow> sleep_insert k p (h # xs) = p # h # xs"
  by (simp add: sleep_insert_def)

lemma sleep_enqueue_rep:
  assumes rep: "queues_rep s qs" and p: "p \<notin> queued qs"
  shows "\<exists>s'. scheduler_sleep_enqueue p s = Some s' \<and> links_only s s'
           \<and> queues_rep s' (qs(SLEEPQ := sleep_insert (sleep_key s) p (qs SLEEPQ)))"
proof -
  let ?q = "qs SLEEPQ" and ?new = "sleep_insert (sleep_key s) p (qs SLEEPQ)"
  note seg = queues_repD(1)[OF rep SLEEPQ_bounds(1)] and d = queues_repD(3)[OF rep SLEEPQ_bounds(1)]
    and nq = not_queued[OF p SLEEPQ_bounds(1)]
  have lift: "queues_rep s' (qs(SLEEPQ := ?new))"
    if "rq_head s' = rq_head s" "rq_tail s' = rq_tail s"
      "lseg (nxt s') (sleep_queue_head s') ?new None"
      "\<And>q. q \<noteq> p \<Longrightarrow> q \<notin> set ?q \<Longrightarrow> nxt s' q = nxt s q" for s'
  proof (rule queues_rep_one[OF rep SLEEPQ_bounds(1)])
    show "qhead s' i = qhead s i" if "i \<le> 5" "i \<noteq> SLEEPQ" for i
      using that \<open>rq_head s' = rq_head s\<close> by (simp add: qhead_def)
    show "nxt s' q = nxt s q" if "i \<le> 5" "i \<noteq> SLEEPQ" "q \<in> set (qs i)" for i q
      using that queues_repD(4)[OF rep that(1) SLEEPQ_bounds(1) that(2)] not_queued[OF p that(1)]
      by (intro \<open>\<And>q. q \<noteq> p \<Longrightarrow> q \<notin> set ?q \<Longrightarrow> nxt s' q = nxt s q\<close>) auto
    show "set ?new \<inter> set (qs i) = {}" if "i \<le> 5" "i \<noteq> SLEEPQ" for i
      using queues_repD(4)[OF rep SLEEPQ_bounds(1) that(1)] that(2) not_queued[OF p that(1)] by auto
  qed (use that d nq in \<open>simp_all add: distinct_sleep_insert\<close>)
  show ?thesis
  proof (cases ?q)
    case Nil
    then show ?thesis using seg
      by (intro exI[of _ "(set_next p None s)\<lparr>sleep_queue_head := Some p\<rparr>"] conjI lift)
         (auto simp: scheduler_sleep_enqueue_def sleep_insert_def set_next_at)
  next
    case (Cons h xs)
    have h: "sleep_queue_head s = Some h" "lseg (nxt s) (nxt s h) xs None" using seg Cons by auto
    show ?thesis
    proof (cases "sleep_key s p < sleep_key s h")
      case True
      then show ?thesis using h Cons nq
        by (intro exI[of _ "(set_next p (Some h) s)\<lparr>sleep_queue_head := Some p\<rparr>"] conjI lift)
           (auto simp: scheduler_sleep_enqueue_def sleep_key_def sleep_insert_stop set_next_at if_fun_upd)
    next
      case False
      let ?tw = "takeWhile (\<lambda>q. sleep_key s q \<le> sleep_key s p) xs"
      let ?z = "last (h # ?tw)"
      let ?s' = "set_next ?z (Some p) (set_next p (nxt s ?z) s)"
      have k: "sleep_key s h \<le> sleep_key s p" using False by simp
      note mid = sleep_insert_middle[of "sleep_key s", OF k, of xs, folded Cons]
      have run: "scheduler_sleep_enqueue p s = Some ?s'"
        using h False sleep_walk_last[OF h(2), of "sleep_key s p"]
        by (simp add: scheduler_sleep_enqueue_def sleep_key_def)
      have "lseg (nxt ?s') (sleep_queue_head ?s') ?new None"
        using lseg_insert_after[of "nxt s" "Some h" "butlast (h # ?tw)" ?z
            "dropWhile (\<lambda>q. sleep_key s q \<le> sleep_key s p) xs" p] seg d nq h(1) mid
        by (simp del: takeWhile.simps dropWhile.simps)
      moreover have "?z \<in> set ?q" by (subst mid(2)) simp
      ultimately have "queues_rep ?s' (qs(SLEEPQ := ?new))"
        by (intro lift) (auto simp: set_next_at)
      with run show ?thesis by (intro exI[of _ ?s']) auto
    qed
  qed
qed

lemma sorted_sleep_insert:
  assumes "sorted (map k xs)"
  shows "sorted (map k (sleep_insert k p xs))"
proof -
  let ?P = "\<lambda>q. k q \<le> k p"
  define tw dw where "tw = takeWhile ?P xs" and "dw = dropWhile ?P xs"
  have xs: "xs = tw @ dw" by (simp add: tw_def dw_def)
  have s: "sorted (map k tw)" "sorted (map k dw)" "\<forall>x\<in>set tw. \<forall>y\<in>set dw. k x \<le> k y"
    using assms unfolding xs by (auto simp: sorted_append)
  have "k p \<le> k y" if "y \<in> set dw" for y
  proof (cases dw)
    case (Cons z zs)
    have "\<not> ?P z" using Cons by (simp add: dw_def dropWhile_eq_Cons_conv)
    then show ?thesis using that Cons s(2) by auto
  qed (use that in simp)
  moreover have "k x \<le> k p" if "x \<in> set tw" for x
    using that set_takeWhileD[of x ?P xs] by (simp add: tw_def)
  ultimately have "sorted (map k (tw @ p # dw))" using s by (simp add: sorted_append)
  then show ?thesis by (simp add: sleep_insert_def tw_def dw_def)
qed

section \<open>Popping\<close>

lemma rq_unlink_head_rep:
  assumes rep: "queues_rep s qs" and k: "k \<le> 4" and q: "qs k = p # xs"
  shows "queues_rep (rq_unlink_head k p s) (qs(k := xs))" and "links_only s (rq_unlink_head k p s)"
    and "p \<notin> queued (qs(k := xs))"
proof -
  have k5: "k \<le> 5" using k by simp
  let ?s' = "rq_unlink_head k p s"
  have nx: "nxt ?s' = (nxt s)(p := None)" by (auto simp: rq_unlink_head_def Let_def)
  note seg = queues_repD(1)[OF rep k5, unfolded q] and d = queues_repD(3)[OF rep k5, unfolded q]
  show "queues_rep ?s' (qs(k := xs))"
  proof (rule queues_rep_one[OF rep k5])
    show "qhead ?s' i = qhead s i" if "i \<le> 5" "i \<noteq> k" for i
      using that by (simp add: qhead_def rq_unlink_head_def Let_def)
    show "rq_tail ?s' i = rq_tail s i" if "i \<le> 4" "i \<noteq> k" for i
      using that by (simp add: rq_unlink_head_def Let_def)
    show "nxt ?s' r = nxt s r" if "i \<le> 5" "i \<noteq> k" "r \<in> set (qs i)" for i r
      using queues_repD(4)[OF rep k5 that(1)] that q nx[THEN fun_cong, of r] by auto
    have "qhead ?s' k = nxt s p" using k by (simp add: rq_unlink_head_def Let_def)
    then show "lseg (nxt ?s') (qhead ?s' k) xs None" unfolding nx using seg d by simp
    have "nxt s p = None \<longleftrightarrow> xs = []" using seg by (cases xs) auto
    then show "rq_tail ?s' k = tail_of xs"
      using queues_repD(2)[OF rep k] q by (auto simp: rq_unlink_head_def Let_def tail_of_def)
    show "distinct xs" using d by simp
    show "set xs \<inter> set (qs i) = {}" if "i \<le> 5" "i \<noteq> k" for i
      using queues_repD(4)[OF rep k5 that(1)] that(2) q by auto
  qed
  show "links_only s ?s'" by (auto simp: rq_unlink_head_def Let_def)
  have "p \<notin> set ((qs(k := xs)) i)" if "i \<le> 5" for i
    using d queues_repD(4)[OF rep k5 that] q by (cases "i = k") auto
  then show "p \<notin> queued (qs(k := xs))" by (auto simp: queued_def)
qed

text \<open>
  A pop never runs forever on well-formed queues and hands out the first runnable process. The
  states it consults are unchanged by the steps it takes, so the result is a function of the
  initial lists; only \<^verbatim>\<open>scheduler_cleanup_process\<close> touches more than the links.
\<close>

lemma sched_frame_refl [simp, intro!]: "sched_frame s s"
  by (simp add: sched_frame_def)

lemma sched_frame_upd:
  assumes "sched_frame s t" "\<And>i. p_next (f i) = p_next i" "\<And>i. p_state (f i) = p_state i"
    "\<And>i. p_priority (f i) = p_priority i" "\<And>i. p_sleep_until (f i) = p_sleep_until i"
  shows "sched_frame s (upd p f t)"
  using assms by (simp add: sched_frame_def)

lemma sched_frame_log [simp, intro!]: "sched_frame s t \<Longrightarrow> sched_frame s (log_release r t)"
  by (simp add: sched_frame_def log_release_def)

lemma sched_frame_segments [simp, intro!]: "sched_frame s t \<Longrightarrow> sched_frame s (free_segments xs t)"
  by (induction xs t rule: free_segments.induct) auto

lemma sched_frame_table [simp, intro!]: "sched_frame s t \<Longrightarrow> sched_frame s (proc_table_remove p t)"
  by (simp add: sched_frame_def proc_table_remove_def)

lemma cleanup_sched_frame: "sched_frame s (scheduler_cleanup_process p s)"
proof (cases "p = kernel_process_info")
  case True
  then show ?thesis by (simp add: scheduler_cleanup_process_def)
next
  case False
  define s2 where "s2 = log_release (ShmDetachAll p) (proc_table_remove p s)"
  define s3 where "s3 = (case p_stack_pointer (pinfo s2 p) of
      Some sp \<Rightarrow> upd p (p_stack_pointer_update (\<lambda>_. None)) (log_release (KFree sp) s2) | None \<Rightarrow> s2)"
  define s4 where "s4 = upd p (p_user_segments_update (\<lambda>_. []))
                      (free_segments (p_user_segments (pinfo s3 p)) s3)"
  have "sched_frame s s2" by (auto simp: s2_def)
  then have "sched_frame s s3" by (auto simp: s3_def intro!: sched_frame_upd split: option.splits)
  then have "sched_frame s s4" by (auto simp: s4_def intro!: sched_frame_upd)
  then show ?thesis using False
    unfolding scheduler_cleanup_process_def Let_def s2_def[symmetric] s3_def[symmetric] s4_def[symmetric]
    by (auto intro!: sched_frame_upd)
qed

lemma cleanup_fields [simp]:
  "rq_head (scheduler_cleanup_process p s) = rq_head s"
  "rq_tail (scheduler_cleanup_process p s) = rq_tail s"
  "sleep_queue_head (scheduler_cleanup_process p s) = sleep_queue_head s"
  "p_next (pinfo (scheduler_cleanup_process p s) q) = p_next (pinfo s q)"
  "p_state (pinfo (scheduler_cleanup_process p s) q) = p_state (pinfo s q)"
  "p_priority (pinfo (scheduler_cleanup_process p s) q) = p_priority (pinfo s q)"
  "p_sleep_until (pinfo (scheduler_cleanup_process p s) q) = p_sleep_until (pinfo s q)"
  "current (scheduler_cleanup_process p s) = current s"
  using cleanup_sched_frame[of s p] unfolding sched_frame_def by auto

lemma cleanup_views [simp]:
  "runnable (scheduler_cleanup_process p s) = runnable s"
  "sleeping (scheduler_cleanup_process p s) = sleeping s"
  "sleep_key (scheduler_cleanup_process p s) = sleep_key s"
  by (simp_all add: fun_eq_iff runnable_def sleeping_def sleep_key_def)

lemma links_only_views:
  "links_only s s' \<Longrightarrow> runnable s' = runnable s \<and> sleeping s' = sleeping s \<and> sleep_key s' = sleep_key s"
  using links_onlyD[of s s'] by (auto simp: fun_eq_iff sleeping_def)

lemma pop_at_priority_rep:
  assumes "queues_rep s qs" "k \<le> 4"
  shows "\<exists>s'. ready_queue_pop_at_priority k s = Some (find (runnable s) (qs k), s')
           \<and> queues_rep s' (pop_one s k qs)
           \<and> runnable s' = runnable s \<and> sleep_key s' = sleep_key s \<and> sleeping s' = sleeping s"
  using assms(1)
proof (induction "qs k" arbitrary: s qs)
  case Nil
  then have "rq_head s k = None" using queues_repD(1)[of s qs k] assms(2) by auto
  then show ?case using Nil
    by (subst ready_queue_pop_at_priority.simps) (auto simp: pop_one_def pop_sleepers_def fun_upd_idem)
next
  case (Cons p xs)
  note q = Cons.hyps(2)[symmetric]
  have h: "rq_head s k = Some p" using queues_repD(1)[OF Cons.prems, of k] assms(2) q by auto
  define s1 where "s1 = rq_unlink_head k p s"
  define qs1 where "qs1 = qs(k := xs)"
  have r1: "queues_rep s1 qs1" "links_only s s1" "p \<notin> queued qs1"
    unfolding s1_def qs1_def by (rule rq_unlink_head_rep[OF Cons.prems assms(2) q])+
  note v1 = links_only_views[OF r1(2)]
  have st: "p_state (pinfo s1 p) = p_state (pinfo s p)" by (rule links_onlyD(1)[OF r1(2)])
  have SK: "SLEEPQ \<noteq> k" using assms(2) by (simp add: SLEEPQ_def)
  have run: "ready_queue_pop_at_priority k s =
      (if runnable s p then Some (Some p, s1)
       else if sleeping s p
            then Option.bind (scheduler_sleep_enqueue p s1) (ready_queue_pop_at_priority k)
       else ready_queue_pop_at_priority k
              (if p_state (pinfo s p) = PROC_STATE_TERMINATED then scheduler_cleanup_process p s1
               else s1))"
    using h assms(2) st
    by (subst ready_queue_pop_at_priority.simps)
       (auto simp: s1_def Let_def runnable_def sleeping_def PROC_PRIORITY_MAX_def)
  have qq: "qs1 k = xs" "qs1 SLEEPQ = qs SLEEPQ" using SK by (simp_all add: qs1_def)
  consider "runnable s p" | "\<not> runnable s p" "sleeping s p" | "\<not> runnable s p" "\<not> sleeping s p" by blast
  then show ?case
  proof cases
    case 1
    have "qs(k := xs, SLEEPQ := qs SLEEPQ) = qs1" using SK by (auto simp: qs1_def)
    then show ?thesis using 1 run q r1 v1 by (simp add: pop_one_def pop_sleepers_def)
  next
    case 2
    obtain s2 where s2: "scheduler_sleep_enqueue p s1 = Some s2" "links_only s1 s2"
      "queues_rep s2 (qs1(SLEEPQ := sleep_insert (sleep_key s1) p (qs1 SLEEPQ)))"
      using sleep_enqueue_rep[OF r1(1,3)] by blast
    have v2: "runnable s2 = runnable s" "sleeping s2 = sleeping s" "sleep_key s2 = sleep_key s"
      using links_only_views[OF s2(2)] v1 by simp_all
    have "xs = (qs1(SLEEPQ := sleep_insert (sleep_key s1) p (qs1 SLEEPQ))) k" using SK qq by simp
    note IH = Cons.hyps(1)[OF this s2(3), unfolded v2]
    have "(qs1(SLEEPQ := a, k := b, SLEEPQ := c)) = qs(k := b, SLEEPQ := c)" for a b c
      using SK by (auto simp: qs1_def)
    then show ?thesis
      using IH 2 run s2(1) q v1 qq SK by (simp add: pop_one_def pop_sleepers_def v2)
  next
    case 3
    define s2 where "s2 = (if p_state (pinfo s p) = PROC_STATE_TERMINATED
        then scheduler_cleanup_process p s1 else s1)"
    have v2: "runnable s2 = runnable s" "sleeping s2 = sleeping s" "sleep_key s2 = sleep_key s"
      unfolding s2_def using v1 by simp_all
    have "queues_rep s2 qs1" using r1(1) unfolding s2_def by (auto intro: queues_rep_frame)
    note IH = Cons.hyps(1)[OF qq(1)[symmetric] this, unfolded v2]
    have "(qs1(k := b, SLEEPQ := c)) = qs(k := b, SLEEPQ := c)" for b c by (simp add: qs1_def)
    then show ?thesis
      using IH 3 run[folded s2_def] q qq by (simp add: pop_one_def pop_sleepers_def v2)
  qed
qed

lemma find_None_tl: "find P xs = None \<Longrightarrow> tl (dropWhile (Not \<circ> P) xs) = []"
  by (induction xs) (auto split: if_splits)

lemma fold_sleep_insert:
  "set (fold (sleep_insert k) ps xs) = set ps \<union> set xs"
  "sorted (map k xs) \<Longrightarrow> sorted (map k (fold (sleep_insert k) ps xs))"
  by (induction ps arbitrary: xs) (auto simp: sorted_sleep_insert)

text \<open>
  The abstract pop over a list of priorities: the first of them that has a runnable process
  gives its first one; the queues passed over are emptied and their sleepers filed.
\<close>

lemma pop_from_rep:
  assumes "queues_rep s qs" "\<forall>k\<in>set ks. k \<le> 4" "distinct ks"
  shows "\<exists>s'. ready_queue_pop_from ks s = Some (fst (pop_lists s ks qs), s')
           \<and> queues_rep s' (snd (pop_lists s ks qs)) \<and> sleep_key s' = sleep_key s"
proof -
  have "pop_lists s' ks qs = pop_lists s ks qs"
    if "runnable s' = runnable s" "sleep_key s' = sleep_key s" "sleeping s' = sleeping s" for s' s ks qs
    using that by (induction ks arbitrary: qs) (simp_all add: pop_one_def pop_sleepers_def split: option.split)
  note cong = this
  show ?thesis using assms
  proof (induction ks arbitrary: s qs)
    case (Cons k ks)
    obtain s1 where s1: "ready_queue_pop_at_priority k s = Some (find (runnable s) (qs k), s1)"
      "queues_rep s1 (pop_one s k qs)"
      "runnable s1 = runnable s" "sleep_key s1 = sleep_key s" "sleeping s1 = sleeping s"
      using pop_at_priority_rep[of s qs k] Cons.prems by auto
    show ?case
      using s1 Cons.IH[OF s1(2)] Cons.prems cong[OF s1(3-5)] by (auto split: option.splits)
  qed simp
qed

lemma pop_lists_select:
  assumes "distinct ks" "SLEEPQ \<notin> set ks"
  shows "case fst (pop_lists s ks qs) of
           None \<Rightarrow> \<forall>k\<in>set ks. \<forall>q\<in>set (qs k). \<not> runnable s q
         | Some p \<Rightarrow> \<exists>as k bs. ks = as @ k # bs \<and> find (runnable s) (qs k) = Some p
                      \<and> (\<forall>j\<in>set as. \<forall>q\<in>set (qs j). \<not> runnable s q)
                      \<and> snd (pop_lists s ks qs) k = tl (dropWhile (Not \<circ> runnable s) (qs k))
                      \<and> (\<forall>j\<in>set bs. snd (pop_lists s ks qs) j = qs j)"
  using assms
proof (induction ks arbitrary: qs)
  case (Cons k ks)
  define Q where "Q = pop_one s k qs"
  have same: "Q j = qs j" if "j \<in> set ks" for j using that Cons.prems by (auto simp: Q_def pop_one_def)
  have Qk: "Q k = tl (dropWhile (Not \<circ> runnable s) (qs k))" using Cons.prems by (auto simp: Q_def pop_one_def)
  have step: "pop_lists s (k # ks) qs =
      (case find (runnable s) (qs k) of Some p \<Rightarrow> (Some p, Q) | None \<Rightarrow> pop_lists s ks Q)"
    unfolding Q_def by simp
  note IH = Cons.IH[of Q]
  show ?case
  proof (cases "find (runnable s) (qs k)")
    case None
    have no: "\<forall>q\<in>set (qs k). \<not> runnable s q" using None by (simp add: find_None_iff)
    show ?thesis
    proof (cases "fst (pop_lists s ks Q)")
      case None
      then show ?thesis unfolding step \<open>find (runnable s) (qs k) = None\<close>
        using IH Cons.prems no same by simp
    next
      case (Some p)
      then obtain as k' bs where w: "ks = as @ k' # bs" "find (runnable s) (Q k') = Some p"
        "\<forall>j\<in>set as. \<forall>q\<in>set (Q j). \<not> runnable s q"
        "snd (pop_lists s ks Q) k' = tl (dropWhile (Not \<circ> runnable s) (Q k'))"
        "\<forall>j\<in>set bs. snd (pop_lists s ks Q) j = Q j" using IH Cons.prems by auto
      have "k # ks = (k # as) @ k' # bs" using w(1) by simp
      moreover have "Q k' = qs k'" "\<forall>j\<in>set as. Q j = qs j" "\<forall>j\<in>set bs. Q j = qs j"
        using same w(1) by auto
      moreover have "\<forall>j\<in>set (k # as). \<forall>q\<in>set (qs j). \<not> runnable s q"
        using no w(3) calculation(3) by simp
      ultimately show ?thesis unfolding step \<open>find (runnable s) (qs k) = None\<close>
        using Some w(2,4,5) by (auto intro!: exI[of _ "k # as"])
    qed
  next
    case (Some p)
    then show ?thesis unfolding step using same Qk by (auto intro!: exI[of _ "[]"])
  qed
qed simp

section \<open>Waking\<close>

lemma ready_prio_push [simp]: "ready_prio (ready_queue_push p s) q = ready_prio s q"
  by (auto simp: ready_prio_def ready_queue_push_def Let_def set_next_def prio_defs split: option.splits)

lemma unlink_sleep_head:
  assumes rep: "queues_rep s qs" and q: "qs SLEEPQ = p # xs"
    and s': "rq_head s' = rq_head s" "rq_tail s' = rq_tail s" "sleep_queue_head s' = nxt s p"
      "nxt s' = (nxt s)(p := None)"
  shows "queues_rep s' (qs(SLEEPQ := xs))" "p \<notin> queued (qs(SLEEPQ := xs))"
proof -
  note B = SLEEPQ_bounds(1)
  note seg = queues_repD(1)[OF rep B, unfolded q] and d = queues_repD(3)[OF rep B, unfolded q]
  show "queues_rep s' (qs(SLEEPQ := xs))"
  proof (rule queues_rep_one[OF rep B])
    show "qhead s' i = qhead s i" if "i \<le> 5" "i \<noteq> SLEEPQ" for i
      using that s' by (simp add: qhead_def)
    show "nxt s' r = nxt s r" if "i \<le> 5" "i \<noteq> SLEEPQ" "r \<in> set (qs i)" for i r
      using queues_repD(4)[OF rep B that(1)] that q s'(4)[THEN fun_cong, of r] by auto
    show "lseg (nxt s') (qhead s' SLEEPQ) xs None" unfolding s'(4) using seg d s'(3) by simp
    show "distinct xs" using d by simp
    show "set xs \<inter> set (qs i) = {}" if "i \<le> 5" "i \<noteq> SLEEPQ" for i
      using queues_repD(4)[OF rep B that(1)] that(2) q by auto
  qed (simp_all add: s')
  have "p \<notin> set ((qs(SLEEPQ := xs)) i)" if "i \<le> 5" for i
    using d queues_repD(4)[OF rep B that] q by (cases "i = SLEEPQ") auto
  then show "p \<notin> queued (qs(SLEEPQ := xs))" by (auto simp: queued_def)
qed

lemma wake_head_rep:
  assumes rep: "queues_rep s qs" and q: "qs SLEEPQ = p # xs"
  shows "queues_rep (wake_head p s)
           (qs(SLEEPQ := xs, ready_prio s p := qs (ready_prio s p) @ [p]))"
proof -
  define s3 where "s3 = upd p (\<lambda>i. i\<lparr>p_time_slice := p_quantum_us i\<rparr>)
      (set_state p PROC_STATE_READY (set_next p None (s\<lparr>sleep_queue_head := nxt s p\<rparr>)))"
  have s3: "rq_head s3 = rq_head s" "rq_tail s3 = rq_tail s" "sleep_queue_head s3 = nxt s p"
      "nxt s3 = (nxt s)(p := None)"
    by (auto simp: s3_def set_state_def set_next_def)
  note r3 = unlink_sleep_head[OF rep q s3]
  have pr: "ready_prio s3 p = ready_prio s p" by (simp add: s3_def ready_prio_def set_state_def)
  have "ready_prio s p \<noteq> SLEEPQ" by simp
  then show ?thesis using push_rep[OF r3] by (simp add: wake_head_def Let_def s3_def[symmetric] pr)
qed

lemma wake_head_views:
  "sleep_key (wake_head p s) = sleep_key s" "ready_prio (wake_head p s) q = ready_prio s q"
  "p_state (pinfo (wake_head p s) q) = (if q = p then PROC_STATE_READY else p_state (pinfo s q))"
  by (simp_all add: wake_head_def Let_def fun_eq_iff sleep_key_def set_state_def)
     (simp add: ready_prio_def)

lemma wake_sleepers_rep:
  assumes "queues_rep s qs"
  shows "\<exists>s'. scheduler_wake_sleepers now s = Some s'
           \<and> queues_rep s' (wake_lists s (takeWhile (\<lambda>p. sleep_key s p \<le> now) (qs SLEEPQ))
                (qs(SLEEPQ := dropWhile (\<lambda>p. sleep_key s p \<le> now) (qs SLEEPQ))))
           \<and> (\<forall>q. p_state (pinfo s' q) =
                  (if q \<in> set (takeWhile (\<lambda>p. sleep_key s p \<le> now) (qs SLEEPQ))
                   then PROC_STATE_READY else p_state (pinfo s q)))
           \<and> sleep_key s' = sleep_key s \<and> ready_prio s' = ready_prio s"
  using assms
proof (induction "qs SLEEPQ" arbitrary: s qs)
  case Nil
  then have "sleep_queue_head s = None" using queues_repD(1)[of s qs SLEEPQ] by auto
  then show ?case using Nil by (subst scheduler_wake_sleepers.simps) (simp add: fun_upd_idem)
next
  case (Cons p xs)
  note q = Cons.hyps(2)[symmetric]
  have h: "sleep_queue_head s = Some p" using queues_repD(1)[OF Cons.prems, of SLEEPQ] q by auto
  show ?case
  proof (cases "sleep_key s p \<le> now")
    case False
    then show ?thesis using Cons.prems h q
      by (subst scheduler_wake_sleepers.simps) (simp add: sleep_key_def fun_upd_idem)
  next
    case True
    let ?k = "ready_prio s p"
    define Q where "Q = qs(SLEEPQ := xs, ?k := qs ?k @ [p])"
    have k: "?k \<noteq> SLEEPQ" by simp
    have Q: "queues_rep (wake_head p s) Q" unfolding Q_def by (rule wake_head_rep[OF Cons.prems q])
    have QS: "Q SLEEPQ = xs" using k by (simp add: Q_def)
    have wl: "wake_lists (wake_head p s) ps q' = wake_lists s ps q'" for ps q'
      by (induction ps arbitrary: q') (simp_all add: wake_head_views)
    have shift: "Q(SLEEPQ := ys) = (qs(SLEEPQ := ys))(?k := (qs(SLEEPQ := ys)) ?k @ [p])" for ys
      using k by (auto simp: Q_def fun_eq_iff)
    show ?thesis
      using Cons.hyps(1)[OF QS[symmetric] Q] True h q k
      by (subst scheduler_wake_sleepers.simps) (auto simp: sleep_key_def[symmetric] wake_head_views QS wl shift fun_eq_iff[of "ready_prio _"])
  qed
qed

lemma wake_lists_at: "wake_lists s ps qs i = qs i @ filter (\<lambda>p. ready_prio s p = i) ps"
  by (induction ps arbitrary: qs) auto

lemma sorted_takeWhile_filter:
  fixes k :: "'a \<Rightarrow> nat"
  assumes "sorted (map k xs)"
  shows "takeWhile (\<lambda>p. k p \<le> n) xs = filter (\<lambda>p. k p \<le> n) xs"
    and "dropWhile (\<lambda>p. k p \<le> n) xs = filter (\<lambda>p. n < k p) xs"
proof -
  have "filter (\<lambda>p. k p \<le> n) ys = []" "filter (\<lambda>p. n < k p) ys = ys"
    if "sorted (map k (y # ys))" "\<not> k y \<le> n" for y ys
    using that by (auto simp: filter_empty_conv filter_id_conv)
  then show "takeWhile (\<lambda>p. k p \<le> n) xs = filter (\<lambda>p. k p \<le> n) xs"
    "dropWhile (\<lambda>p. k p \<le> n) xs = filter (\<lambda>p. n < k p) xs"
    using assms by (induction xs) auto
qed

lemma ready_prio_act_force [simp]:
  "ready_prio (s\<lparr>act_force := b\<rparr>) = ready_prio s" "sleep_key (s\<lparr>act_force := b\<rparr>) = sleep_key s"
  by (simp_all add: fun_eq_iff ready_prio_def sleep_key_def)

lemma mark_ready_rep:
  assumes rep: "queues_rep s qs"
    and st: "p_state (pinfo s p) \<noteq> PROC_STATE_TERMINATED" "p_state (pinfo s p) \<noteq> PROC_STATE_READY"
    and nr: "\<forall>i\<le>4. p \<notin> set (qs i)"
  shows "\<exists>s'. proc_mark_ready p s = Some s' \<and> act_force s'
           \<and> queues_rep s' (qs(SLEEPQ := remove1 p (qs SLEEPQ),
                               ready_prio s p := qs (ready_prio s p) @ [p]))
           \<and> (\<forall>q. p_state (pinfo s' q) = (if q = p then PROC_STATE_READY else p_state (pinfo s q)))
           \<and> (\<forall>q. q \<noteq> p \<longrightarrow> sleep_key s' q = sleep_key s q) \<and> ready_prio s' = ready_prio s
           \<and> current s' = current s \<and> procs s' = procs s"
proof -
  obtain s1 where s1: "sleep_queue_remove p s = Some s1"
    "queues_rep s1 (qs(SLEEPQ := remove1 p (qs SLEEPQ)))" "links_only s s1"
    using sleep_queue_remove_rep[OF rep] by blast
  define s2 where "s2 = upd p (\<lambda>i. i\<lparr>p_state := PROC_STATE_READY, p_time_slice := p_quantum_us i,
                                  p_sleep_until := 0\<rparr>) s1"
  have r2: "queues_rep s2 (qs(SLEEPQ := remove1 p (qs SLEEPQ)))"
    by (rule queues_rep_frame[OF s1(2)]) (auto simp: s2_def)
  have nq: "p \<notin> queued (qs(SLEEPQ := remove1 p (qs SLEEPQ)))"
    using nr queues_repD(3)[OF rep SLEEPQ_bounds(1)] ready_or_sleep by (auto simp: queued_def)
  have pr: "ready_prio s2 p = ready_prio s p"
    using links_onlyD(2)[OF s1(3)] by (simp add: s2_def ready_prio_def)
  have "queues_rep ((ready_queue_push p s2)\<lparr>act_force := True\<rparr>)
      (qs(SLEEPQ := remove1 p (qs SLEEPQ), ready_prio s p := qs (ready_prio s p) @ [p]))"
    by (rule queues_rep_frame[OF push_rep[OF r2 nq, unfolded pr fun_upd_other[OF ready_prio_not_sleep(1)]]])
       simp_all
  moreover have "proc_mark_ready p s = Some ((ready_queue_push p s2)\<lparr>act_force := True\<rparr>)"
    using st s1(1) by (simp add: proc_mark_ready_def s2_def Let_def)
  moreover have "p_state (pinfo (ready_queue_push p s2) q) =
      (if q = p then PROC_STATE_READY else p_state (pinfo s q))" for q
    using links_onlyD(1)[OF s1(3)] by (simp add: s2_def)
  moreover have "sleep_key (ready_queue_push p s2) q = sleep_key s q" if "q \<noteq> p" for q
    using that fun_cong[OF links_onlyD(3)[OF s1(3)], of q] by (simp add: s2_def sleep_key_def)
  moreover have "ready_prio s2 = ready_prio s"
    using links_onlyD(2)[OF s1(3)] by (simp add: s2_def ready_prio_def fun_eq_iff)
  moreover have "current s2 = current s" "procs s2 = procs s"
    using links_onlyD(4,5)[OF s1(3)] by (simp_all add: s2_def)
  ultimately show ?thesis
    by (simp add: fun_eq_iff)
qed

lemma all_le5: "(\<forall>i\<le>5. P i) \<longleftrightarrow> P 0 \<and> P 1 \<and> P 2 \<and> P 3 \<and> P 4 \<and> P (5::nat)"
proof -
  have "i \<le> 5 \<longleftrightarrow> i = 0 \<or> i = 1 \<or> i = 2 \<or> i = 3 \<or> i = 4 \<or> i = 5" for i :: nat by arith
  then show ?thesis by auto
qed

lemma all_le4: "(\<forall>i\<le>4. P i) \<longleftrightarrow> P 0 \<and> P 1 \<and> P 2 \<and> P 3 \<and> P (4::nat)"
proof -
  have "i \<le> 4 \<longleftrightarrow> i = 0 \<or> i = 1 \<or> i = 2 \<or> i = 3 \<or> i = 4" for i :: nat by arith
  then show ?thesis by auto
qed

lemma boot_queues: "queues_rep boot_sched (\<lambda>_. [])"
  by (simp add: queues_rep_def boot_sched_def qhead_def tail_of_def)

lemma core_upd [simp]:
  "core (i\<lparr>p_next := n\<rparr>) = core i" "core (i\<lparr>p_state := st\<rparr>) = core i"
  "core (i\<lparr>p_time_slice := t\<rparr>) = core i" "core (i\<lparr>p_sleep_until := t\<rparr>) = core i"
  "core (i\<lparr>p_priority := pr\<rparr>) = core i"
  by (simp_all add: core_def)

lemma links_only_core: "links_only s s' \<Longrightarrow> core (pinfo s' q) = core (pinfo s q)"
  by (auto simp: links_only_def relink_def)

lemma push_core [simp]: "core (pinfo (ready_queue_push p s) q) = core (pinfo s q)"
  by (simp add: ready_queue_push_def Let_def set_next_def split: option.splits)

lemma queue_walk_unlinks:
  "sleep_queue_remove p s = Some s' \<Longrightarrow> links_only s s'"
  "ready_queue_remove_at k p s = Some (b, s') \<Longrightarrow> links_only s s'"
  by (auto simp: sleep_queue_remove_def ready_queue_remove_at_def Let_def
      split: option.splits prod.splits bool.splits if_splits)

lemma mark_ready_core:
  assumes "proc_mark_ready p s = Some s'"
  shows "core (pinfo s' q) = core (pinfo s q)"
proof (cases "s' = s")
  case False
  then obtain s1 where s1: "sleep_queue_remove p s = Some s1"
    "s' = (ready_queue_push p (upd p (\<lambda>i. i\<lparr>p_state := PROC_STATE_READY, p_time_slice := p_quantum_us i,
             p_sleep_until := 0\<rparr>) s1))\<lparr>act_force := True\<rparr>"
    using assms by (auto simp: proc_mark_ready_def Let_def split: if_splits option.splits)
  then show ?thesis using links_only_core[OF queue_walk_unlinks(1)[OF s1(1)], of q] by auto
qed simp

lemma core_get:
  "p_pid (core i) = p_pid i" "p_parent (core i) = p_parent i" "p_exit_code (core i) = p_exit_code i"
  "p_waitpid_waiting (core i) = p_waitpid_waiting i" "p_waitpid_target (core i) = p_waitpid_target i"
  "p_signal_pending (core i) = p_signal_pending i" "p_signal_blocked (core i) = p_signal_blocked i"
  "p_signal_actions (core i) = p_signal_actions i" "p_user_mode (core i) = p_user_mode i"
  "p_stopped (core i) = p_stopped i" "p_quantum_us (core i) = p_quantum_us i"
  by (simp_all add: core_def)

lemma core_fields:
  assumes "core i = core j"
  shows "p_pid i = p_pid j" "p_parent i = p_parent j" "p_exit_code i = p_exit_code j"
    "p_waitpid_waiting i = p_waitpid_waiting j" "p_waitpid_target i = p_waitpid_target j"
    "p_signal_pending i = p_signal_pending j" "p_signal_blocked i = p_signal_blocked j"
    "p_signal_actions i = p_signal_actions j" "p_user_mode i = p_user_mode j"
    "p_stopped i = p_stopped j" "p_quantum_us i = p_quantum_us j"
  using core_get[of i] core_get[of j] assms by simp_all

section \<open>The invariant\<close>

lemma sched_frame_views:
  assumes "sched_frame s s'"
  shows "sleep_key s' = sleep_key s" "ready_prio s' = ready_prio s" "runnable s' = runnable s"
    "p_state (pinfo s' q) = p_state (pinfo s q)"
  using assms by (auto simp: sched_frame_def sleep_key_def ready_prio_def runnable_def fun_eq_iff)

lemma queues_rep_sched_frame: "queues_rep s qs \<Longrightarrow> sched_frame s s' \<Longrightarrow> queues_rep s' qs"
  by (rule queues_rep_frame) (auto simp: sched_frame_def fun_eq_iff)

lemma sched_wf_frame: "sched_wf s qs \<Longrightarrow> sched_frame s s' \<Longrightarrow> sched_wf s' qs"
  using queues_rep_sched_frame[of s qs s'] sched_frame_views[of s s'] by (auto simp: sched_wf_def)

lemma sched_wfD:
  assumes "sched_wf s qs"
  shows "queues_rep s qs"
    and "i \<le> 4 \<Longrightarrow> q \<in> set (qs i) \<Longrightarrow> p_state (pinfo s q) = PROC_STATE_READY"
    and "i \<le> 4 \<Longrightarrow> q \<in> set (qs i) \<Longrightarrow> ready_prio s q = i"
    and "q \<in> set (qs SLEEPQ) \<Longrightarrow> p_state (pinfo s q) = PROC_STATE_SLEEPING"
    and "sorted (map (sleep_key s) (qs SLEEPQ))"
  using assms unfolding sched_wf_def by blast+

lemma sched_wf_queued:
  "sched_wf s qs \<Longrightarrow> p_state (pinfo s p) \<noteq> PROC_STATE_READY \<Longrightarrow> p_state (pinfo s p) \<noteq> PROC_STATE_SLEEPING
     \<Longrightarrow> p \<notin> queued qs"
  using sched_wfD(2,4)[of s qs] ready_or_sleep by (fastforce simp: queued_def)

lemma mark_ready_wf_at:
  assumes wf: "sched_wf s qs"
    and st: "p_state (pinfo s p) \<noteq> PROC_STATE_TERMINATED" "p_state (pinfo s p) \<noteq> PROC_STATE_READY"
  shows "\<exists>s'. proc_mark_ready p s = Some s' \<and> act_force s'
           \<and> sched_wf s' (qs(SLEEPQ := remove1 p (qs SLEEPQ),
                             ready_prio s p := qs (ready_prio s p) @ [p]))
           \<and> (\<forall>q. p_state (pinfo s' q) = (if q = p then PROC_STATE_READY else p_state (pinfo s q)))
           \<and> current s' = current s \<and> procs s' = procs s"
proof -
  note rep = sched_wfD(1)[OF wf]
  have nr: "\<forall>i\<le>4. p \<notin> set (qs i)" using st sched_wfD(2)[OF wf] by auto
  define Q where "Q = qs(SLEEPQ := remove1 p (qs SLEEPQ), ready_prio s p := qs (ready_prio s p) @ [p])"
  obtain s' where s': "proc_mark_ready p s = Some s'" "act_force s'" "queues_rep s' Q"
    "\<forall>q. p_state (pinfo s' q) = (if q = p then PROC_STATE_READY else p_state (pinfo s q))"
    "\<forall>q. q \<noteq> p \<longrightarrow> sleep_key s' q = sleep_key s q" "ready_prio s' = ready_prio s"
    "current s' = current s" "procs s' = procs s"
    using mark_ready_rep[OF rep st nr] unfolding Q_def by blast
  have np: "p \<notin> set (remove1 p (qs SLEEPQ))" using queues_repD(3)[OF rep SLEEPQ_bounds(1)] by simp
  have QS: "Q SLEEPQ = remove1 p (qs SLEEPQ)" by (simp add: Q_def)
  have key: "map (sleep_key s') (Q SLEEPQ) = map (sleep_key s) (Q SLEEPQ)"
    using s'(5) np unfolding QS by (intro map_cong) auto
  have "sched_wf s' Q"
    unfolding sched_wf_def key
    using s' np sched_wfD(2-5)[OF wf] sched_wfD(2)[OF wf ready_prio_le[of s p]]
      sorted_map_remove1[of "sleep_key s" "qs SLEEPQ" p]
    by (auto simp: Q_def dest: notin_set_remove1 split: if_splits)
  then show ?thesis using s' unfolding Q_def by blast
qed

lemma mark_ready_wf:
  assumes wf: "sched_wf s qs"
  shows "\<exists>s' qs'. proc_mark_ready p s = Some s' \<and> sched_wf s' qs' \<and> queued qs' \<subseteq> insert p (queued qs)
           \<and> current s' = current s \<and> procs s' = procs s
           \<and> (\<forall>q. q \<noteq> p \<longrightarrow> p_state (pinfo s' q) = p_state (pinfo s q))"
proof (cases "p_state (pinfo s p) = PROC_STATE_TERMINATED \<or> p_state (pinfo s p) = PROC_STATE_READY")
  case True
  then have "proc_mark_ready p s = Some s" by (simp add: proc_mark_ready_def)
  then show ?thesis using wf by blast
next
  case False
  let ?Q = "qs(SLEEPQ := remove1 p (qs SLEEPQ), ready_prio s p := qs (ready_prio s p) @ [p])"
  have "queued ?Q \<subseteq> insert p (queued qs)"
    by (auto simp: queued_def dest: notin_set_remove1 split: if_splits)
  then show ?thesis using mark_ready_wf_at[OF wf, of p] False by auto
qed

lemma sched_frame_trans: "sched_frame a b \<Longrightarrow> sched_frame b c \<Longrightarrow> sched_frame a c"
  by (simp add: sched_frame_def)

lemma sched_frame_act [simp, intro!]:
  "sched_frame s t \<Longrightarrow> sched_frame s (t\<lparr>act_force := b\<rparr>)"
  "sched_frame s t \<Longrightarrow> sched_frame s (t\<lparr>act_sleep := b\<rparr>)"
  by (simp_all add: sched_frame_def)

lemma sched_wf_unlink:
  assumes "sched_wf s qs" "queues_rep s' qs'" "links_only s s'"
    "\<And>i. i \<le> 5 \<Longrightarrow> set (qs' i) \<subseteq> set (qs i)" "sorted (map (sleep_key s) (qs' SLEEPQ))"
  shows "sched_wf s' qs'"
proof -
  have "ready_prio s' q = ready_prio s q" for q
    using links_onlyD(2)[OF assms(3)] by (simp add: ready_prio_def)
  then show ?thesis
    using assms(2,4,5) links_onlyD(1,3)[OF assms(3)] sched_wfD(2-4)[OF assms(1)]
    unfolding sched_wf_def by (auto simp: subset_iff)
qed

text \<open>Changing a process that is in no queue keeps the invariant.\<close>

lemma sched_wf_upd_unqueued:
  assumes "sched_wf s qs" "p \<notin> queued qs" "\<And>i. p_next (f i) = p_next i"
  shows "sched_wf (upd p f s) qs"
proof -
  have ne: "q \<noteq> p" if "q \<in> set (qs i)" "i \<le> 5" for i q using assms(2) that by (auto simp: queued_def)
  have "queues_rep (upd p f s) qs"
    by (rule queues_rep_frame[OF sched_wfD(1)[OF assms(1)]]) (use assms(3) in \<open>auto simp: fun_eq_iff\<close>)
  moreover have "map (sleep_key (upd p f s)) (qs SLEEPQ) = map (sleep_key s) (qs SLEEPQ)"
    using ne[of _ SLEEPQ] by (auto simp: sleep_key_def)
  moreover have "p_state (pinfo (upd p f s) q) = PROC_STATE_READY \<and> ready_prio (upd p f s) q = i"
    if "i \<le> 4" "q \<in> set (qs i)" for i q
    using that ne[of q i] sched_wfD(2,3)[OF assms(1) that] by (auto simp: ready_prio_def)
  moreover have "p_state (pinfo (upd p f s) q) = PROC_STATE_SLEEPING" if "q \<in> set (qs SLEEPQ)" for q
    using that ne[OF that] sched_wfD(4)[OF assms(1) that] by simp
  ultimately show ?thesis
    using sched_wfD(5)[OF assms(1)] unfolding sched_wf_def by (simp only:) blast
qed

lemma queued_mono: "(\<And>i. i \<le> 5 \<Longrightarrow> set (qs' i) \<subseteq> set (qs i)) \<Longrightarrow> queued qs' \<subseteq> queued qs"
  unfolding queued_def by (rule UN_mono) auto

lemma not_queuedI: "(\<And>i. i \<le> 5 \<Longrightarrow> p \<notin> set (qs i)) \<Longrightarrow> p \<notin> queued qs"
  by (auto simp: queued_def)

lemma notify_parent_wf:
  assumes wf: "sched_wf s qs"
  shows "\<exists>s' qs'. notify_waiting_parent p s = Some s' \<and> sched_wf s' qs'
           \<and> queued qs' \<subseteq> set_option (p_parent (pinfo s p)) \<union> queued qs
           \<and> current s' = current s \<and> procs s' = procs s
           \<and> (\<forall>q. Some q \<noteq> p_parent (pinfo s p) \<longrightarrow> p_state (pinfo s' q) = p_state (pinfo s q))"
proof (cases "p_parent (pinfo s p)")
  case None
  then show ?thesis using wf by (auto simp: notify_waiting_parent_def)
next
  case (Some par)
  let ?s = "upd par (\<lambda>i. i\<lparr>p_waitpid_waiting := False, p_waitpid_target := - 1\<rparr>) s"
  have fr: "sched_frame s ?s" by (auto intro!: sched_frame_upd)
  show ?thesis
    using Some wf mark_ready_wf[OF sched_wf_frame[OF wf fr], of par] sched_frame_views(4)[OF fr]
    by (auto simp: notify_waiting_parent_def)
qed

lemma unlink_wf:
  assumes wf: "sched_wf s qs"
  shows "\<exists>s' qs'. (if p_state (pinfo s p) = PROC_STATE_SLEEPING then sleep_queue_remove p s
                 else if p_state (pinfo s p) = PROC_STATE_READY then ready_queue_remove p s
                 else Some s) = Some s'
           \<and> sched_wf s' qs' \<and> p \<notin> queued qs' \<and> queued qs' \<subseteq> queued qs \<and> links_only s s'"
proof -
  note rep = sched_wfD(1)[OF wf]
  let ?S = "qs(SLEEPQ := remove1 p (qs SLEEPQ))" and ?R = "\<lambda>i. if i \<le> 4 then remove1 p (qs i) else qs i"
  have sub: "set (remove1 p xs) \<subseteq> set xs" for xs :: "ptr list" by (rule set_remove1_subset)
  have rm: "p \<notin> set (remove1 p (qs i))" if "i \<le> 5" for i using queues_repD(3)[OF rep that] by simp
  consider (sl) "p_state (pinfo s p) = PROC_STATE_SLEEPING" | (rd) "p_state (pinfo s p) = PROC_STATE_READY"
    | (no) "p_state (pinfo s p) \<noteq> PROC_STATE_SLEEPING" "p_state (pinfo s p) \<noteq> PROC_STATE_READY" by blast
  then show ?thesis
  proof cases
    case sl
    obtain s' where s': "sleep_queue_remove p s = Some s'" "queues_rep s' ?S" "links_only s s'"
      using sleep_queue_remove_rep[OF rep] by blast
    have "sched_wf s' ?S"
      by (rule sched_wf_unlink[OF wf s'(2,3)])
         (use sub sched_wfD(5)[OF wf] in \<open>auto intro: sorted_map_remove1 dest: notin_set_remove1\<close>)
    moreover have "p \<notin> set (?S i)" if "i \<le> 5" for i
      using that rm[OF that] sched_wfD(2)[OF wf ready_or_sleep[OF that], of p] sl
      by (cases "i = SLEEPQ") auto
    then have "p \<notin> queued ?S" by (rule not_queuedI)
    moreover have "queued ?S \<subseteq> queued qs" by (rule queued_mono) (use sub in auto)
    ultimately show ?thesis using s' sl by auto
  next
    case rd
    obtain s' where s': "ready_queue_remove p s = Some s'" "links_only s s'" "queues_rep s' ?R"
      using ready_queue_remove_rep[OF rep] by blast
    have "sched_wf s' ?R"
      by (rule sched_wf_unlink[OF wf s'(3,2)])
         (use sub sched_wfD(5)[OF wf] in \<open>auto\<close>)
    moreover have "p \<notin> set (?R i)" if "i \<le> 5" for i
      using that rm[OF that] sched_wfD(4)[OF wf, of p] ready_or_sleep[OF that] rd
      by (cases "i = SLEEPQ") auto
    then have "p \<notin> queued ?R" by (rule not_queuedI)
    moreover have "queued ?R \<subseteq> queued qs" by (rule queued_mono) (use sub in auto)
    ultimately show ?thesis using s' rd by auto
  next
    case no
    then show ?thesis using wf sched_wf_queued[OF wf] by auto
  qed
qed

lemma mark_stopped_wf:
  assumes wf: "sched_wf s qs" and p: "p \<noteq> kernel_process_info" and par: "p_parent (pinfo s p) \<noteq> Some p"
  shows "\<exists>s' qs'. proc_mark_stopped p signo s = Some s' \<and> sched_wf s' qs' \<and> p \<notin> queued qs'
           \<and> p_state (pinfo s' p) = PROC_STATE_STOPPED \<and> act_force s'
           \<and> current s' = current s \<and> procs s' = procs s"
proof -
  define s1 where "s1 = upd p (\<lambda>i. i\<lparr>p_stop_status := encode_stopped_status signo,
      p_stop_status_pending := True, p_stopped := True, p_continue_status := 0,
      p_continued_pending := False\<rparr>) s"
  have "sched_frame s s1" by (auto simp: s1_def intro!: sched_frame_upd)
  then have wf1: "sched_wf s1 qs" by (rule sched_wf_frame[OF wf])
  obtain s2 qs2 where s2: "(if p_state (pinfo s1 p) = PROC_STATE_SLEEPING then sleep_queue_remove p s1
      else if p_state (pinfo s1 p) = PROC_STATE_READY then ready_queue_remove p s1 else Some s1) = Some s2"
    "sched_wf s2 qs2" "p \<notin> queued qs2" "links_only s1 s2"
    using unlink_wf[OF wf1] by blast
  define s3 where "s3 = upd p (\<lambda>i. i\<lparr>p_state := PROC_STATE_STOPPED, p_time_slice := 0\<rparr>) s2"
  have wf3: "sched_wf s3 qs2" unfolding s3_def by (rule sched_wf_upd_unqueued[OF s2(2,3)]) simp
  have par3: "p_parent (pinfo s3 p) = p_parent (pinfo s p)"
    using s2(4) by (auto simp: s3_def s1_def links_only_def relink_def)
  have c3: "current s3 = current s" "procs s3 = procs s"
    using links_onlyD(4,5)[OF s2(4)] by (simp_all add: s3_def s1_def)
  obtain s4 qs4 where s4: "notify_waiting_parent p s3 = Some s4" "sched_wf s4 qs4"
    "queued qs4 \<subseteq> set_option (p_parent (pinfo s3 p)) \<union> queued qs2"
    "current s4 = current s3" "procs s4 = procs s3"
    "\<forall>q. Some q \<noteq> p_parent (pinfo s3 p) \<longrightarrow> p_state (pinfo s4 q) = p_state (pinfo s3 q)"
    using notify_parent_wf[OF wf3] by blast
  have run: "proc_mark_stopped p signo s = Some (s4\<lparr>act_force := True\<rparr>)"
    using p s2(1) s4(1) by (simp add: proc_mark_stopped_def s1_def[symmetric] s3_def[symmetric] Let_def)
  have "sched_wf (s4\<lparr>act_force := True\<rparr>) qs4" by (rule sched_wf_frame[OF s4(2)]) simp
  moreover have "p \<notin> queued qs4" using s4(3) s2(3) par par3 by auto
  moreover have "p_state (pinfo s4 p) = PROC_STATE_STOPPED" using s4(6) par par3 by (auto simp: s3_def)
  ultimately show ?thesis using run s4(4,5) c3 by auto
qed

lemma mark_continued_wf:
  assumes wf: "sched_wf s qs"
  shows "\<exists>s' qs'. proc_mark_continued p s = Some s' \<and> sched_wf s' qs'
           \<and> current s' = current s \<and> procs s' = procs s"
proof (cases "p = kernel_process_info")
  case True
  then show ?thesis using wf by (auto simp: proc_mark_continued_def)
next
  case False
  define s1 where "s1 = upd p (\<lambda>i. i\<lparr>p_stopped := False, p_stop_status_pending := False,
      p_continue_status := 0xffff, p_continued_pending := True\<rparr>) s"
  have "sched_frame s s1" by (auto simp: s1_def intro!: sched_frame_upd)
  then have wf1: "sched_wf s1 qs" by (rule sched_wf_frame[OF wf])
  have c1: "current s1 = current s" "procs s1 = procs s" by (simp_all add: s1_def)
  obtain s2 qs2 where s2: "(if p_state (pinfo s1 p) = PROC_STATE_STOPPED then proc_mark_ready p s1
      else Some s1) = Some s2" "sched_wf s2 qs2" "current s2 = current s1" "procs s2 = procs s1"
    using mark_ready_wf[OF wf1, of p] wf1 by (cases "p_state (pinfo s1 p) = PROC_STATE_STOPPED") auto
  obtain s3 qs3 where s3: "notify_waiting_parent p s2 = Some s3" "sched_wf s3 qs3"
    "current s3 = current s2" "procs s3 = procs s2"
    using notify_parent_wf[OF s2(2)] by blast
  have "proc_mark_continued p s = Some s3"
    using False s2(1) s3(1) by (simp add: proc_mark_continued_def s1_def[symmetric] Let_def)
  then show ?thesis using s3 s2 c1 by auto
qed

section \<open>Properties\<close>

lemmas demo_defs = demo_sched_def demo_qs_def boot_sched_def zero_proc_def SLEEPQ_def

lemma demo_wf: "sched_wf demo_sched demo_qs"
  unfolding sched_wf_def queues_rep_def all_le4 all_le5
  by (simp add: demo_defs qhead_def tail_of_def ready_prio_def prio_defs sleep_key_def kernel_process_info_def)

lemma demo_views:
  "sleep_key demo_sched (Suc 0) = 10" "sleep_key demo_sched 2 = 30"
  "ready_prio demo_sched (Suc 0) = 2" "ready_prio demo_sched 2 = 3" "ready_prio demo_sched 3 = 2"
  "p_state (pinfo demo_sched 2) = PROC_STATE_SLEEPING" "p_state (pinfo demo_sched 3) = PROC_STATE_READY"
  "p_parent (pinfo demo_sched 3) = None"
  "demo_qs 2 = [3]" "demo_qs SLEEPQ = [1, 2]"
  by (simp_all add: demo_defs sleep_key_def ready_prio_def prio_defs)

lemma demo_rep: "queues_rep demo_sched demo_qs"
  by (rule sched_wfD(1)[OF demo_wf])

text \<open>
  C1. \<^verbatim>\<open>ready_queue_pop_highest\<close> always returns on well-formed queues. It hands out the process that
  has waited longest among the runnable ones of the highest priority that has any, removes it
  from its queue, leaves lower priorities alone, and returns nothing only when no queued process
  is runnable.
\<close>

theorem ready_queue_pop_highest_selects:
  assumes "queues_rep s qs"
  shows "\<exists>r s' qs'. ready_queue_pop_highest s = Some (r, s') \<and> queues_rep s' qs' \<and>
           (case r of
              None \<Rightarrow> \<forall>i\<le>4. \<forall>q\<in>set (qs i). \<not> runnable s q
            | Some p \<Rightarrow> \<exists>i\<le>4. find (runnable s) (qs i) = Some p
                \<and> (\<forall>j. i < j \<and> j \<le> 4 \<longrightarrow> (\<forall>q\<in>set (qs j). \<not> runnable s q))
                \<and> qs' i = tl (dropWhile (\<lambda>q. \<not> runnable s q) (qs i))
                \<and> (\<forall>j<i. qs' j = qs j))"
proof -
  define ks :: "nat list" where "ks = [4, 3, 2, 1, 0]"
  have ks: "\<forall>k\<in>set ks. k \<le> 4" "distinct ks" "SLEEPQ \<notin> set ks" "set ks = {..4}" "sorted_wrt (>) ks"
    by (auto simp: ks_def SLEEPQ_def)
  obtain r Q where P: "pop_lists s ks qs = (r, Q)" by fastforce
  obtain s' where s': "ready_queue_pop_highest s = Some (r, s')" "queues_rep s' Q"
    using pop_from_rep[OF assms ks(1,2)] P by (auto simp: ready_queue_pop_highest_def ks_def)
  note sel = pop_lists_select[OF ks(2,3), where s = s and qs = qs, unfolded P fst_conv snd_conv]
  show ?thesis
  proof (cases r)
    case None
    then show ?thesis using s' sel ks(4) by auto
  next
    case (Some p)
    then obtain as k bs where w: "ks = as @ k # bs" "find (runnable s) (qs k) = Some p"
      "\<forall>j\<in>set as. \<forall>q\<in>set (qs j). \<not> runnable s q"
      "Q k = tl (dropWhile (Not \<circ> runnable s) (qs k))" "\<forall>j\<in>set bs. Q j = qs j" using sel by auto
    have o: "\<forall>j\<in>set as. k < j" "\<forall>j\<in>set bs. j < k" using ks(5) w(1) by (auto simp: sorted_wrt_append)
    have mem: "j \<le> 4 \<longleftrightarrow> j \<in> set as \<or> j = k \<or> j \<in> set bs" for j
      using ks(4) w(1) by (auto simp: set_eq_iff)
    have lo: "j \<in> set bs" if "j < k" for j using mem[of j] mem[of k] o that by fastforce
    have hi: "j \<in> set as" if "k < j" "j \<le> 4" for j using mem[of j] o that by fastforce
    have "\<forall>j. k < j \<and> j \<le> 4 \<longrightarrow> (\<forall>q\<in>set (qs j). \<not> runnable s q)" "\<forall>j<k. Q j = qs j" "k \<le> 4"
      using hi lo w(3,5) mem[of k] by auto
    then show ?thesis using s' Some w(2,4)
      by (intro exI[of _ r] exI[of _ s'] exI[of _ Q]) (auto simp: comp_def)
  qed
qed

text \<open>Witness: the demonstration state hands out process 3.\<close>

theorem ready_queue_pop_highest_selects_witness:
  "\<exists>r s' qs'. ready_queue_pop_highest demo_sched = Some (r, s') \<and> queues_rep s' qs' \<and> r \<noteq> None"
proof -
  have "\<not> (\<forall>i\<le>4. \<forall>q\<in>set (demo_qs i). \<not> runnable demo_sched q)"
    by (auto simp: demo_views runnable_def all_le4)
  then show ?thesis using ready_queue_pop_highest_selects[OF demo_rep] by (auto split: option.splits)
qed

text \<open>
  C2. \<^verbatim>\<open>scheduler_wake_sleepers\<close> terminates and wakes exactly the due processes: each moves, in
  wake-up order, behind the others of its priority and becomes ready; the rest stay asleep, in
  order.
\<close>

theorem scheduler_wake_sleepers_exact:
  assumes "sched_wf s qs"
  shows "\<exists>s'. scheduler_wake_sleepers now s = Some s' \<and>
           sched_wf s' (\<lambda>i. if i = SLEEPQ then filter (\<lambda>p. now < sleep_key s p) (qs SLEEPQ)
                else qs i @ filter (\<lambda>p. sleep_key s p \<le> now \<and> ready_prio s p = i) (qs SLEEPQ))"
proof -
  note rep = sched_wfD(1)[OF assms] and so = sched_wfD(5)[OF assms]
  let ?due = "filter (\<lambda>p. sleep_key s p \<le> now) (qs SLEEPQ)"
  let ?Q = "\<lambda>i. if i = SLEEPQ then filter (\<lambda>p. now < sleep_key s p) (qs SLEEPQ)
                else qs i @ filter (\<lambda>p. sleep_key s p \<le> now \<and> ready_prio s p = i) (qs SLEEPQ)"
  have Q: "wake_lists s ?due (qs(SLEEPQ := filter (\<lambda>p. now < sleep_key s p) (qs SLEEPQ))) = ?Q"
    by (auto simp: fun_eq_iff wake_lists_at filter_empty_conv intro!: filter_cong)
  obtain s' where s': "scheduler_wake_sleepers now s = Some s'" "queues_rep s' ?Q"
    "\<forall>q. p_state (pinfo s' q) = (if q \<in> set ?due then PROC_STATE_READY else p_state (pinfo s q))"
    "sleep_key s' = sleep_key s" "ready_prio s' = ready_prio s"
    using wake_sleepers_rep[OF rep, of now] unfolding sorted_takeWhile_filter[OF so] Q by blast
  have "sched_wf s' ?Q"
    unfolding sched_wf_def s'(4,5)
    using s'(2,3) sched_wfD(2-4)[OF assms] so by (auto simp: sorted_filter)
  then show ?thesis using s'(1) by blast
qed

theorem scheduler_wake_sleepers_exact_witness:
  "\<exists>s' qs'. scheduler_wake_sleepers 10 demo_sched = Some s' \<and> sched_wf s' qs' \<and> qs' 2 = [3, 1]
     \<and> qs' SLEEPQ = [2]"
proof -
  let ?Q = "\<lambda>i. if i = SLEEPQ then filter (\<lambda>p. 10 < sleep_key demo_sched p) (demo_qs SLEEPQ)
     else demo_qs i @ filter (\<lambda>p. sleep_key demo_sched p \<le> 10 \<and> ready_prio demo_sched p = i) (demo_qs SLEEPQ)"
  have "?Q 2 = [3, 1]" "?Q SLEEPQ = [2]" by (simp_all add: demo_views) (simp add: SLEEPQ_def)
  then show ?thesis using scheduler_wake_sleepers_exact[OF demo_wf, of 10] by blast
qed

text \<open>
  C3. \<^verbatim>\<open>proc_mark_ready\<close> on a sleeping or stopped process: it leaves the sleep queue, joins the tail of
  its ready queue as a ready process, every other process keeps its place, and a reschedule is
  requested. The walk over the sleep queue terminates.
\<close>

theorem proc_mark_ready_requeues:
  assumes "sched_wf s qs"
    and "p_state (pinfo s p) \<notin> {PROC_STATE_TERMINATED, PROC_STATE_READY}"
  shows "\<exists>s'. proc_mark_ready p s = Some s' \<and> act_force s'
           \<and> sched_wf s' (qs(SLEEPQ := remove1 p (qs SLEEPQ),
                               ready_prio s p := qs (ready_prio s p) @ [p]))
           \<and> (\<forall>q. p_state (pinfo s' q) = (if q = p then PROC_STATE_READY else p_state (pinfo s q)))"
  using mark_ready_wf_at[OF assms(1), of p] assms(2) by blast

theorem proc_mark_ready_requeues_witness:
  "\<exists>s'. proc_mark_ready 2 demo_sched = Some s' \<and> act_force s' \<and> p_state (pinfo s' 2) = PROC_STATE_READY"
  using proc_mark_ready_requeues[OF demo_wf, of 2] by (auto simp: demo_views)

text \<open>
  \<^verbatim>\<open>scheduler_sleep_enqueue\<close> keeps the sleep queue sorted by wake-up time and is fair: the new
  sleeper goes behind every process that wakes no later, and in front of those that wake later.
\<close>

theorem scheduler_sleep_enqueue_sorted:
  assumes "queues_rep s qs" "p \<notin> queued qs" "sorted (map (sleep_key s) (qs SLEEPQ))"
  shows "\<exists>s' xs ys. scheduler_sleep_enqueue p s = Some s' \<and> qs SLEEPQ = xs @ ys
           \<and> queues_rep s' (qs(SLEEPQ := xs @ p # ys))
           \<and> sorted (map (sleep_key s') (xs @ p # ys)) \<and> (\<forall>q\<in>set ys. sleep_key s p < sleep_key s q)"
proof -
  let ?P = "\<lambda>q. sleep_key s q \<le> sleep_key s p"
  obtain s' where s': "scheduler_sleep_enqueue p s = Some s'" "links_only s s'"
    "queues_rep s' (qs(SLEEPQ := sleep_insert (sleep_key s) p (qs SLEEPQ)))"
    using sleep_enqueue_rep[OF assms(1,2)] by blast
  have "\<forall>q\<in>set (dropWhile ?P (qs SLEEPQ)). sleep_key s p < sleep_key s q"
    using sorted_takeWhile_filter(2)[OF assms(3), of "sleep_key s p"] by auto
  then show ?thesis
    using s' sorted_sleep_insert[OF assms(3), of p] links_onlyD(3)[OF s'(2)]
    unfolding sleep_insert_def
    by (intro exI[of _ s'] exI[of _ "takeWhile ?P (qs SLEEPQ)"] exI[of _ "dropWhile ?P (qs SLEEPQ)"]) auto
qed

theorem scheduler_sleep_enqueue_sorted_witness:
  "\<exists>s' xs ys. scheduler_sleep_enqueue 4 demo_sched = Some s' \<and> demo_qs SLEEPQ = xs @ ys
     \<and> queues_rep s' (demo_qs(SLEEPQ := xs @ 4 # ys))"
proof -
  have "4 \<notin> queued demo_qs" by (auto simp: queued_def demo_qs_def)
  then show ?thesis
    using scheduler_sleep_enqueue_sorted[OF demo_rep _ sched_wfD(5)[OF demo_wf], of 4] by blast
qed

text \<open>
  \<^verbatim>\<open>proc_mark_stopped\<close> takes a process other than the kernel out of whatever queue holds it,
  leaves it stopped with the wait status of its signal, and keeps the scheduler's invariant even
  when it wakes a parent waiting in \<^verbatim>\<open>waitpid\<close>.
\<close>

theorem proc_mark_stopped_unlinks:
  assumes "sched_wf s qs" "p \<noteq> kernel_process_info" "p_parent (pinfo s p) \<noteq> Some p"
  shows "\<exists>s' qs'. proc_mark_stopped p signo s = Some s' \<and> sched_wf s' qs' \<and> p \<notin> queued qs'
           \<and> p_state (pinfo s' p) = PROC_STATE_STOPPED \<and> act_force s'"
  using mark_stopped_wf[OF assms, of signo] by blast

theorem proc_mark_stopped_unlinks_witness:
  "\<exists>s' qs'. proc_mark_stopped 3 19 demo_sched = Some s' \<and> sched_wf s' qs' \<and> 3 \<notin> queued qs'"
  using proc_mark_stopped_unlinks[OF demo_wf, of 3 19]
  by (auto simp: demo_views kernel_process_info_def)

end
