(* ===== verification/Proc_Life.thy ===== *)
theory Proc_Life
  imports Proc_Queue
begin

text \<open>
  The end of a process: \<^verbatim>\<open>proc_exit\<close>, \<^verbatim>\<open>proc_exit_signal\<close> and \<^verbatim>\<open>proc_kill_pid\<close> turn it into a zombie and
  wake a waiting parent, \<^verbatim>\<open>proc_waitpid\<close> reports on the children and reaps zombies
  (\<^verbatim>\<open>src/kernel/proc/proc.c\<close>), and \<^verbatim>\<open>syscall_waitpid_handler\<close> is the loop around it
  (\<^verbatim>\<open>src/kernel/syscall/syscall.c\<close>). The children of a process are a linked list through
  \<^verbatim>\<open>sibling_next\<close>; \<open>children_rep\<close> relates it to a list.
\<close>

section \<open>Exit statuses\<close>

definition encode_exit_status :: "int \<Rightarrow> int" where
  "encode_exit_status code = push_bit 8 (code AND 0xff)"

definition encode_signal_status :: "int \<Rightarrow> int" where
  "encode_signal_status signo = signo AND 0x7f"

section \<open>Exiting\<close>

definition proc_exit_with_status :: "int \<Rightarrow> sched \<Rightarrow> sched option" where
  "proc_exit_with_status status s =
     map_option (\<lambda>s2. s2\<lparr>act_force := True\<rparr>)
       (notify_waiting_parent (current s)
          (upd (current s) (\<lambda>i. i\<lparr>p_state := PROC_STATE_ZOMBIE, p_exit_code := status,
              p_stopped := False, p_stop_status_pending := False, p_continued_pending := False\<rparr>) s))"

definition proc_exit :: "int \<Rightarrow> sched \<Rightarrow> sched option" where
  "proc_exit code = proc_exit_with_status (encode_exit_status code)"

definition proc_exit_signal :: "int \<Rightarrow> sched \<Rightarrow> sched option" where
  "proc_exit_signal signo = proc_exit_with_status (encode_signal_status signo)"

definition proc_kill_pid :: "nat \<Rightarrow> int \<Rightarrow> sched \<Rightarrow> ((errno + int) \<times> sched) option" where
  "proc_kill_pid pid code s =
     (case proc_find_by_pid pid s of
        None \<Rightarrow> Some (Inl ESRCH, s)
      | Some target \<Rightarrow>
          if target = kernel_process_info then Some (Inl ESRCH, s)
          else if p_state (pinfo s target) = PROC_STATE_ZOMBIE
                  \<or> p_state (pinfo s target) = PROC_STATE_TERMINATED
          then Some (Inl ESRCH, s)
          else map_option (\<lambda>s2. (Inr 0, s2\<lparr>act_force := True\<rparr>))
                 (notify_waiting_parent target
                    (upd target (\<lambda>i. i\<lparr>p_exit_code := code, p_state := PROC_STATE_ZOMBIE,
                        p_stopped := False, p_stop_status_pending := False,
                        p_continued_pending := False\<rparr>) s)))"

section \<open>Children\<close>

definition proc_link_child :: "ptr \<Rightarrow> ptr \<Rightarrow> sched \<Rightarrow> sched" where
  "proc_link_child parent child s =
     upd parent (\<lambda>i. i\<lparr>p_first_child := Some child, p_children_count := u32 (p_children_count i + 1)\<rparr>)
       (upd child (p_sibling_next_update (\<lambda>_. p_first_child (pinfo s parent))) s)"

definition WNOHANG :: int where "WNOHANG = 1"
definition WUNTRACED :: int where "WUNTRACED = 2"
definition WCONTINUED :: int where "WCONTINUED = 4"

definition wait_done :: "ptr \<Rightarrow> sched \<Rightarrow> sched" where
  "wait_done parent = upd parent (\<lambda>i. i\<lparr>p_waitpid_waiting := False, p_waitpid_target := - 1\<rparr>)"

definition waitpid_reap :: "ptr \<Rightarrow> ptr option \<Rightarrow> ptr \<Rightarrow> sched \<Rightarrow> sched" where
  "waitpid_reap parent prev child s =
     (let nx = p_sibling_next (pinfo s child);
          s1 = (case prev of
                  Some q \<Rightarrow> upd q (p_sibling_next_update (\<lambda>_. nx)) s
                | None \<Rightarrow> upd parent (p_first_child_update (\<lambda>_. nx)) s);
          s2 = (if p_children_count (pinfo s1 parent) > 0
                then upd parent (\<lambda>i. i\<lparr>p_children_count := p_children_count i - 1\<rparr>) s1 else s1);
          s3 = upd child (\<lambda>i. i\<lparr>p_parent := None, p_sibling_next := None,
                                p_state := PROC_STATE_TERMINATED\<rparr>) s2
      in scheduler_cleanup_process child s3)"

definition pid_matches :: "int \<Rightarrow> ptr \<Rightarrow> sched \<Rightarrow> bool" where
  "pid_matches pid child s \<longleftrightarrow> pid = - 1 \<or> p_pid (pinfo s child) = nat (pid mod 2 ^ 32)"

text \<open>One child that matches: the report it gives, if any.\<close>

definition waitpid_child ::
    "ptr \<Rightarrow> bool \<Rightarrow> bool \<Rightarrow> ptr option \<Rightarrow> ptr \<Rightarrow> sched \<Rightarrow> (int \<times> int \<times> sched) option" where
  "waitpid_child parent report_stopped report_continued prev child s =
     (let i = pinfo s child in
      if p_stop_status_pending i \<and> report_stopped
      then Some (s32 (p_pid i), int (p_stop_status i),
                 wait_done parent (upd child (\<lambda>i. i\<lparr>p_stop_status_pending := False\<rparr>) s))
      else if p_continued_pending i \<and> report_continued
      then Some (s32 (p_pid i), int (p_continue_status i),
                 wait_done parent
                   (upd child (\<lambda>i. i\<lparr>p_continued_pending := False, p_continue_status := 0\<rparr>) s))
      else if p_state i = PROC_STATE_ZOMBIE
      then Some (s32 (p_pid i), p_exit_code i, waitpid_reap parent prev child s)
      else None)"

text \<open>The walk over the children. The status is reported together with a positive pid.\<close>

partial_function (option) waitpid_loop ::
    "ptr \<Rightarrow> int \<Rightarrow> bool \<Rightarrow> bool \<Rightarrow> ptr option \<Rightarrow> ptr option \<Rightarrow> bool \<Rightarrow> sched
      \<Rightarrow> ((errno + int) \<times> int option \<times> sched) option" where
  "waitpid_loop parent pid rs rc prev child match_found s =
     (case child of
        None \<Rightarrow> Some (if pid > 0 \<and> \<not> match_found then Inl ECHILD else Inr 0, None, s)
      | Some c \<Rightarrow>
          if pid_matches pid c s
          then (case waitpid_child parent rs rc prev c s of
                  Some (n, st, s') \<Rightarrow> Some (Inr n, Some st, s')
                | None \<Rightarrow> if pid > 0 then Some (Inr 0, None, s)
                          else waitpid_loop parent pid rs rc (Some c) (p_sibling_next (pinfo s c)) True s)
          else waitpid_loop parent pid rs rc (Some c) (p_sibling_next (pinfo s c)) match_found s)"

definition proc_waitpid ::
    "ptr \<Rightarrow> int \<Rightarrow> int \<Rightarrow> sched \<Rightarrow> ((errno + int) \<times> int option \<times> sched) option" where
  "proc_waitpid parent pid options s =
     (case p_first_child (pinfo s parent) of
        None \<Rightarrow> Some (Inl ECHILD, None, s)
      | Some c \<Rightarrow> waitpid_loop parent pid ((options AND WUNTRACED) \<noteq> 0) ((options AND WCONTINUED) \<noteq> 0)
                    None (Some c) False s)"

text \<open>
  One turn of the loop of \<^verbatim>\<open>syscall_waitpid_handler\<close>: it either returns to the caller or blocks
  until the caller is dispatched again, after which the next turn runs with the caller's state set
  back to running. \<open>copy_ok\<close> says whether the status can be stored at the user's pointer.
\<close>

datatype waitpid_turn = WReturn "errno + int" sched | WBlock sched

definition syscall_waitpid_turn ::
    "bool \<Rightarrow> bool \<Rightarrow> int \<Rightarrow> int \<Rightarrow> sched \<Rightarrow> waitpid_turn option" where
  "syscall_waitpid_turn has_ptr copy_ok pid options s =
     (let caller = current s in
      case proc_waitpid caller pid options s of
        None \<Rightarrow> None
      | Some (Inl e, st, s1) \<Rightarrow> Some (WReturn (Inl e) (wait_done caller s1))
      | Some (Inr n, st, s1) \<Rightarrow>
          if n > 0
          then Some (WReturn (if has_ptr \<and> \<not> copy_ok then Inl EFAULT else Inr n) (wait_done caller s1))
          else if n < 0 then Some (WReturn (Inr n) (wait_done caller s1))
          else (let s2 = upd caller (\<lambda>i. i\<lparr>p_waitpid_waiting := True,
                             p_waitpid_target := (if pid \<le> 0 then - 1 else pid)\<rparr>) s1;
                    s3 = set_state caller PROC_STATE_WAITING s2
                in if (options AND WNOHANG) \<noteq> 0 then Some (WReturn (Inr 0) s3)
                   else Some (WBlock (proc_request_block s3))))"

section \<open>The children as a list\<close>

definition children_rep :: "sched \<Rightarrow> ptr \<Rightarrow> ptr list \<Rightarrow> bool" where
  "children_rep s parent cs \<longleftrightarrow>
     lseg (\<lambda>p. p_sibling_next (pinfo s p)) (p_first_child (pinfo s parent)) cs None \<and>
     distinct cs \<and> parent \<notin> set cs"

definition wait_reports :: "bool \<Rightarrow> bool \<Rightarrow> sched \<Rightarrow> ptr \<Rightarrow> bool" where
  "wait_reports rs rc s c \<longleftrightarrow> p_stop_status_pending (pinfo s c) \<and> rs \<or> p_continued_pending (pinfo s c) \<and> rc
     \<or> p_state (pinfo s c) = PROC_STATE_ZOMBIE"

text \<open>The child the walk stops at: for a specific pid the child with that pid, otherwise the first
  one that has something to report.\<close>

definition wait_candidate :: "int \<Rightarrow> bool \<Rightarrow> bool \<Rightarrow> sched \<Rightarrow> ptr list \<Rightarrow> ptr option" where
  "wait_candidate pid rs rc s = find (\<lambda>c. pid_matches pid c s \<and> (pid > 0 \<or> wait_reports rs rc s c))"

text \<open>The resources a cleaned-up process gives back, in the order of the calls.\<close>

definition cleanup_releases :: "sched \<Rightarrow> ptr \<Rightarrow> release list" where
  "cleanup_releases s p =
     [ShmDetachAll p] @ (case p_stack_pointer (pinfo s p) of Some sp \<Rightarrow> [KFree sp] | None \<Rightarrow> []) @
     map (\<lambda>(phys, n). PmmFree phys n) (filter (\<lambda>(phys, n). phys \<noteq> 0) (p_user_segments (pinfo s p))) @
     (if p_address_space_root (pinfo s p) \<noteq> 0 \<and> p_address_space_root (pinfo s p) \<noteq> kernel_cr3 s
      then [PmmFree (p_address_space_root (pinfo s p)) 1] else []) @
     [KFree p]"

text \<open>Concrete states: process 1 with a zombie child 2 and a live child 3; process 2 about to exit
  while its parent 1 waits.\<close>

definition demo_family :: sched where
  "demo_family = boot_sched\<lparr>pinfo := (pinfo boot_sched)
     (1 := zero_proc\<lparr>p_pid := 1, p_state := PROC_STATE_RUNNING, p_first_child := Some 3, p_children_count := 2\<rparr>,
      2 := zero_proc\<lparr>p_pid := 2, p_parent := Some 1, p_state := PROC_STATE_ZOMBIE, p_exit_code := 768,
             p_stack_pointer := Some 77, p_user_segments := [(4096, 2)], p_address_space_root := 8192\<rparr>,
      3 := zero_proc\<lparr>p_pid := 3, p_parent := Some 1, p_state := PROC_STATE_READY, p_sibling_next := Some 2\<rparr>),
     procs := [Some 0, Some 1, Some 2, Some 3], current := 1\<rparr>"

definition demo_exiting :: sched where
  "demo_exiting = boot_sched\<lparr>pinfo := (pinfo boot_sched)
     (1 := zero_proc\<lparr>p_pid := 1, p_state := PROC_STATE_WAITING, p_priority := 2, p_waitpid_waiting := True,
             p_waitpid_target := - 1\<rparr>,
      2 := zero_proc\<lparr>p_pid := 2, p_parent := Some 1, p_state := PROC_STATE_RUNNING, p_priority := 2\<rparr>),
     current := 2\<rparr>"

lemma free_segments_log:
  "releases (free_segments xs s) =
     rev (map (\<lambda>(phys, n). PmmFree phys n) (filter (\<lambda>(phys, n). phys \<noteq> 0) xs)) @ releases s
   \<and> pinfo (free_segments xs s) = pinfo s \<and> kernel_cr3 (free_segments xs s) = kernel_cr3 s
   \<and> procs (free_segments xs s) = procs s"
  by (induction xs s rule: free_segments.induct) (auto simp: log_release_def)

lemma log_release_simps [simp]:
  "pinfo (log_release r s) = pinfo s" "procs (log_release r s) = procs s"
  "kernel_cr3 (log_release r s) = kernel_cr3 s" "releases (log_release r s) = r # releases s"
  by (simp_all add: log_release_def)

lemma table_remove_simps [simp]:
  "pinfo (proc_table_remove p s) = pinfo s" "kernel_cr3 (proc_table_remove p s) = kernel_cr3 s"
  "releases (proc_table_remove p s) = releases s"
  "procs (proc_table_remove p s) = proc_table_remove_slots p (procs s)"
  by (simp_all add: proc_table_remove_def)

lemma cleanup_effect:
  assumes p: "p \<noteq> kernel_process_info"
  shows "releases (scheduler_cleanup_process p s) = rev (cleanup_releases s p) @ releases s"
    and "procs (scheduler_cleanup_process p s) = proc_table_remove_slots p (procs s)"
    and "\<exists>sp sg rt. pinfo (scheduler_cleanup_process p s) =
           (pinfo s)(p := (pinfo s p)\<lparr>p_stack_pointer := sp, p_user_segments := sg,
                                     p_address_space_root := rt\<rparr>)"
proof -
  define s2 where "s2 = log_release (ShmDetachAll p) (proc_table_remove p s)"
  define s3 where "s3 = (case p_stack_pointer (pinfo s2 p) of
      Some sp \<Rightarrow> upd p (p_stack_pointer_update (\<lambda>_. None)) (log_release (KFree sp) s2) | None \<Rightarrow> s2)"
  define s4 where "s4 = upd p (p_user_segments_update (\<lambda>_. []))
                      (free_segments (p_user_segments (pinfo s3 p)) s3)"
  define s5 where "s5 = (if p_address_space_root (pinfo s4 p) \<noteq> 0
        \<and> p_address_space_root (pinfo s4 p) \<noteq> kernel_cr3 s4
      then upd p (p_address_space_root_update (\<lambda>_. 0))
             (log_release (PmmFree (p_address_space_root (pinfo s4 p)) 1) s4) else s4)"
  have run: "scheduler_cleanup_process p s = log_release (KFree p) s5"
    using p unfolding scheduler_cleanup_process_def Let_def s2_def[symmetric] s3_def[symmetric]
      s4_def[symmetric] s5_def[symmetric] by simp
  have f2: "pinfo s2 = pinfo s" "kernel_cr3 s2 = kernel_cr3 s"
    "releases s2 = ShmDetachAll p # releases s" "procs s2 = proc_table_remove_slots p (procs s)"
    by (simp_all add: s2_def)
  have f3: "pinfo s3 = (pinfo s)(p := (pinfo s p)\<lparr>p_stack_pointer := None\<rparr>)" "kernel_cr3 s3 = kernel_cr3 s"
    "releases s3 = (case p_stack_pointer (pinfo s p) of Some sp \<Rightarrow> [KFree sp] | None \<Rightarrow> []) @ releases s2"
    "procs s3 = procs s2"
    unfolding s3_def f2 using f2 by (auto split: option.splits)
  have f4: "pinfo s4 = (pinfo s3)(p := (pinfo s3 p)\<lparr>p_user_segments := []\<rparr>)" "kernel_cr3 s4 = kernel_cr3 s"
    "procs s4 = procs s3"
    "releases s4 = rev (map (\<lambda>(phys, n). PmmFree phys n)
         (filter (\<lambda>(phys, n). phys \<noteq> 0) (p_user_segments (pinfo s3 p)))) @ releases s3"
    using free_segments_log[of "p_user_segments (pinfo s3 p)" s3] f3(2) by (simp_all add: s4_def)
  have f5: "procs s5 = procs s4" by (simp add: s5_def)
  define rt where "rt = p_address_space_root (pinfo s5 p)"
  have "pinfo s5 = (pinfo s4)(p := (pinfo s4 p)\<lparr>p_address_space_root := rt\<rparr>)"
    unfolding rt_def s5_def by simp
  then have f5p: "pinfo s5 = (pinfo s)(p := (pinfo s p)\<lparr>p_stack_pointer := None, p_user_segments := [],
                                     p_address_space_root := rt\<rparr>)"
    using f3 f4 by simp
  show "releases (scheduler_cleanup_process p s) = rev (cleanup_releases s p) @ releases s"
    unfolding run s5_def using f2 f3 f4 by (simp add: cleanup_releases_def split: option.splits)
  show "procs (scheduler_cleanup_process p s) = proc_table_remove_slots p (procs s)"
    unfolding run using f2 f3 f4 f5 by simp
  show "\<exists>sp sg rt. pinfo (scheduler_cleanup_process p s) =
           (pinfo s)(p := (pinfo s p)\<lparr>p_stack_pointer := sp, p_user_segments := sg,
                                     p_address_space_root := rt\<rparr>)"
    unfolding run using f5p by simp blast
qed

section \<open>Walking the children\<close>

lemma waitpid_child_None: "waitpid_child parent rs rc prev c s = None \<longleftrightarrow> \<not> wait_reports rs rc s c"
  by (auto simp: waitpid_child_def wait_reports_def Let_def)

lemma waitpid_loop_spec:
  assumes "lseg (\<lambda>p. p_sibling_next (pinfo s p)) child xs None"
  shows "waitpid_loop parent pid rs rc prev child found s =
     (case wait_candidate pid rs rc s xs of
        None \<Rightarrow> Some (if pid > 0 \<and> \<not> found then Inl ECHILD else Inr 0, None, s)
      | Some c \<Rightarrow>
          (let before = takeWhile (\<lambda>x. x \<noteq> c) xs in
           case waitpid_child parent rs rc (if before = [] then prev else Some (last before)) c s of
             Some (n, st, s') \<Rightarrow> Some (Inr n, Some st, s')
           | None \<Rightarrow> Some (Inr 0, None, s)))"
  using assms
proof (induction xs arbitrary: child prev found)
  case Nil
  then show ?case by (subst waitpid_loop.simps) (simp add: wait_candidate_def)
next
  case (Cons c xs)
  then have c: "child = Some c" "lseg (\<lambda>p. p_sibling_next (pinfo s p)) (p_sibling_next (pinfo s c)) xs None"
    by simp_all
  let ?P = "\<lambda>c. pid_matches pid c s \<and> (pid > 0 \<or> wait_reports rs rc s c)"
  show ?case
  proof (cases "?P c")
    case True
    then have "wait_candidate pid rs rc s (c # xs) = Some c" by (simp add: wait_candidate_def)
    then show ?thesis using True c(1) waitpid_child_None[of parent rs rc prev c s]
      by (subst waitpid_loop.simps) (auto split: option.splits)
  next
    case False
    then have cand: "wait_candidate pid rs rc s (c # xs) = wait_candidate pid rs rc s xs"
      by (auto simp: wait_candidate_def)
    have ne: "c \<noteq> d" if "wait_candidate pid rs rc s xs = Some d" for d
      using that False by (auto simp: wait_candidate_def find_Some_iff)
    have step: "waitpid_loop parent pid rs rc prev child found s =
        waitpid_loop parent pid rs rc (Some c) (p_sibling_next (pinfo s c))
          (found \<or> pid_matches pid c s) s"
      using False c(1) waitpid_child_None[of parent rs rc prev c s]
      by (subst waitpid_loop.simps) (auto split: option.splits)
    have flag: "pid > 0 \<Longrightarrow> \<not> pid_matches pid c s" using False by auto
    show ?thesis unfolding step Cons.IH[OF c(2)] cand
      using ne flag by (auto simp: Let_def split: option.splits)
  qed
qed

lemma reap_children:
  assumes rep: "children_rep s parent (ys @ c # zs)" and c: "c \<noteq> kernel_process_info"
  shows "children_rep (waitpid_reap parent (tail_of ys) c s) parent (ys @ zs)"
    and "p_children_count (pinfo (waitpid_reap parent (tail_of ys) c s) parent)
           = p_children_count (pinfo s parent) - 1"
    and "releases (waitpid_reap parent (tail_of ys) c s) = rev (cleanup_releases s c) @ releases s"
    and "procs (waitpid_reap parent (tail_of ys) c s) = proc_table_remove_slots c (procs s)"
    and "p_state (pinfo (waitpid_reap parent (tail_of ys) c s) c) = PROC_STATE_TERMINATED"
proof -
  let ?sib = "\<lambda>s p. p_sibling_next (pinfo s p)"
  define nx where "nx = p_sibling_next (pinfo s c)"
  define s1 where "s1 = (case tail_of ys of
      Some q \<Rightarrow> upd q (p_sibling_next_update (\<lambda>_. nx)) s
    | None \<Rightarrow> upd parent (p_first_child_update (\<lambda>_. nx)) s)"
  define s2 where "s2 = (if p_children_count (pinfo s1 parent) > 0
      then upd parent (\<lambda>i. i\<lparr>p_children_count := p_children_count i - 1\<rparr>) s1 else s1)"
  define s3 where "s3 = upd c (\<lambda>i. i\<lparr>p_parent := None, p_sibling_next := None,
      p_state := PROC_STATE_TERMINATED\<rparr>) s2"
  have run: "waitpid_reap parent (tail_of ys) c s = scheduler_cleanup_process c s3"
    by (simp only: waitpid_reap_def s1_def s2_def s3_def nx_def Let_def)
  have seg: "lseg (?sib s) (p_first_child (pinfo s parent)) (ys @ c # zs) None"
    and d: "distinct (ys @ c # zs)" and np: "parent \<notin> set (ys @ c # zs)"
    using rep by (auto simp: children_rep_def)
  have ne: "c \<noteq> parent" "\<And>q. tail_of ys = Some q \<Longrightarrow> q \<noteq> parent \<and> q \<noteq> c"
    using np d by (auto simp: tail_of_def split: if_splits)
  have sib3: "?sib s3 = (case tail_of ys of Some q \<Rightarrow> (?sib s)(q := ?sib s c) | None \<Rightarrow> ?sib s)(c := None)"
    unfolding s3_def s2_def s1_def nx_def by (auto simp: fun_eq_iff split: option.splits)
  have fc3: "p_first_child (pinfo s3 parent) =
      (case tail_of ys of Some q \<Rightarrow> p_first_child (pinfo s parent) | None \<Rightarrow> ?sib s c)"
    unfolding s3_def s2_def s1_def nx_def using ne by (auto split: option.splits)
  have "children_rep s3 parent (ys @ zs)"
    using lseg_remove[OF seg d refl] d np unfolding children_rep_def sib3 fc3
    by (auto split: option.splits)
  moreover obtain sp sg rt where pi: "pinfo (scheduler_cleanup_process c s3) =
      (pinfo s3)(c := (pinfo s3 c)\<lparr>p_stack_pointer := sp, p_user_segments := sg, p_address_space_root := rt\<rparr>)"
    using cleanup_effect(3)[OF c] by blast
  moreover have "?sib (scheduler_cleanup_process c s3) = ?sib s3" using pi by (auto simp: fun_eq_iff)
  ultimately show "children_rep (waitpid_reap parent (tail_of ys) c s) parent (ys @ zs)"
    using ne unfolding run children_rep_def by simp
  have "p_children_count (pinfo s1 parent) = p_children_count (pinfo s parent)"
    unfolding s1_def using ne by (auto split: option.splits)
  then show "p_children_count (pinfo (waitpid_reap parent (tail_of ys) c s) parent)
           = p_children_count (pinfo s parent) - 1"
    unfolding run using pi ne(1) by (simp add: s3_def s2_def)
  have same: "p_stack_pointer (pinfo s3 c) = p_stack_pointer (pinfo s c)"
    "p_user_segments (pinfo s3 c) = p_user_segments (pinfo s c)"
    "p_address_space_root (pinfo s3 c) = p_address_space_root (pinfo s c)"
    "kernel_cr3 s3 = kernel_cr3 s" "releases s3 = releases s" "procs s3 = procs s"
    unfolding s3_def s2_def s1_def using ne by (auto split: option.splits)
  show "releases (waitpid_reap parent (tail_of ys) c s) = rev (cleanup_releases s c) @ releases s"
    "procs (waitpid_reap parent (tail_of ys) c s) = proc_table_remove_slots c (procs s)"
    unfolding run cleanup_effect(1,2)[OF c] using same by (simp_all add: cleanup_releases_def)
  show "p_state (pinfo (waitpid_reap parent (tail_of ys) c s) c) = PROC_STATE_TERMINATED"
    unfolding run by (simp add: s3_def)
qed

section \<open>Properties\<close>

lemma demo_family_views:
  "p_pid (pinfo demo_family 2) = 2" "p_pid (pinfo demo_family 3) = 3"
  "p_state (pinfo demo_family 2) = PROC_STATE_ZOMBIE" "p_state (pinfo demo_family 3) = PROC_STATE_READY"
  "\<not> p_stop_status_pending (pinfo demo_family 2)" "\<not> p_continued_pending (pinfo demo_family 2)"
  "\<not> p_stop_status_pending (pinfo demo_family 3)" "\<not> p_continued_pending (pinfo demo_family 3)"
  "p_exit_code (pinfo demo_family 2) = 768" "p_stack_pointer (pinfo demo_family 2) = Some 77"
  "p_user_segments (pinfo demo_family 2) = [(4096, 2)]" "p_address_space_root (pinfo demo_family 2) = 8192"
  "kernel_cr3 demo_family = 0" "releases demo_family = []"
  by (simp_all add: demo_family_def boot_sched_def zero_proc_def)

lemma demo_family_children: "children_rep demo_family 1 [3, 2]"
  by (simp add: children_rep_def demo_family_def boot_sched_def zero_proc_def kernel_process_info_def)

lemma demo_exiting_wf: "sched_wf demo_exiting (\<lambda>_. [])"
  by (simp add: sched_wf_def queues_rep_def demo_exiting_def boot_sched_def qhead_def tail_of_def)

lemma waitpid_spec:
  fixes options :: int
  assumes "children_rep s parent cs"
  defines "rs \<equiv> (options AND WUNTRACED) \<noteq> 0" and "rc \<equiv> (options AND WCONTINUED) \<noteq> 0"
  shows "proc_waitpid parent pid options s =
     (if cs = [] then Some (Inl ECHILD, None, s)
      else case wait_candidate pid rs rc s cs of
        None \<Rightarrow> Some (if pid > 0 then Inl ECHILD else Inr 0, None, s)
      | Some c \<Rightarrow>
          (case waitpid_child parent rs rc (tail_of (takeWhile (\<lambda>x. x \<noteq> c) cs)) c s of
             Some (n, st, s') \<Rightarrow> Some (Inr n, Some st, s')
           | None \<Rightarrow> Some (Inr 0, None, s)))"
proof -
  have seg: "lseg (\<lambda>p. p_sibling_next (pinfo s p)) (p_first_child (pinfo s parent)) cs None"
    using assms(1) by (simp add: children_rep_def)
  show ?thesis
  proof (cases cs)
    case Nil
    then show ?thesis using seg by (simp add: proc_waitpid_def)
  next
    case (Cons c' cs')
    then have h: "p_first_child (pinfo s parent) = Some c'" using seg by simp
    show ?thesis
      using Cons waitpid_loop_spec[OF seg, of parent pid rs rc None False, unfolded h]
      by (simp add: proc_waitpid_def h rs_def rc_def tail_of_def Let_def split: option.splits)
  qed
qed

lemma wait_candidate_mem:
  "wait_candidate pid rs rc s cs = Some c \<Longrightarrow> c \<in> set cs \<and> pid_matches pid c s"
  by (auto simp: wait_candidate_def find_Some_iff)

lemma takeWhile_before:
  "c \<in> set cs \<Longrightarrow> \<exists>zs. cs = takeWhile (\<lambda>x. x \<noteq> c) cs @ c # zs"
  by (induction cs) auto



text \<open>
  C5. \<^verbatim>\<open>proc_waitpid\<close> always returns. It reports \<^verbatim>\<open>ECHILD\<close> exactly when the caller has no children, or
  has none with the pid asked for; it answers 0 without changing anything when the children have
  nothing to report.
\<close>

theorem proc_waitpid_outcome:
  assumes "children_rep s parent cs"
  shows "\<exists>r st s'. proc_waitpid parent pid options s = Some (r, st, s') \<and>
           (r = Inl ECHILD \<longleftrightarrow> cs = [] \<or> pid > 0 \<and> \<not> (\<exists>c\<in>set cs. pid_matches pid c s)) \<and>
           (st = None \<longrightarrow> s' = s)"
proof -
  let ?rs = "(options AND WUNTRACED) \<noteq> 0" and ?rc = "(options AND WCONTINUED) \<noteq> 0"
  show ?thesis
  proof (cases "wait_candidate pid ?rs ?rc s cs")
    case None
    then have "pid > 0 \<Longrightarrow> \<not> (\<exists>c\<in>set cs. pid_matches pid c s)"
      by (auto simp: wait_candidate_def find_None_iff)
    then show ?thesis using waitpid_spec[OF assms, of pid options] None by auto
  next
    case (Some c)
    note m = wait_candidate_mem[OF Some]
    then show ?thesis using waitpid_spec[OF assms, of pid options] Some
      by (auto split: option.splits)
  qed
qed

theorem proc_waitpid_outcome_witness:
  "\<exists>st s'. proc_waitpid 1 7 0 demo_family = Some (Inl ECHILD, st, s')"
  using proc_waitpid_outcome[OF demo_family_children, of 7 0]
  by (auto simp: demo_family_views pid_matches_def)





end
