(* ===== verification/Signal.thy ===== *)
theory Signal
  imports Proc_Life
begin

text \<open>
  Signals: \<^verbatim>\<open>src/kernel/proc/signal.c\<close> and the system calls that use it. Masks are 32-bit words as in
  the code. \<open>proc_signal_handle_pending\<close> builds the signal frame on the user stack; the stores to user
  memory go through a parameter saying whether a range of user memory can be written
  (\<^verbatim>\<open>proc_user_copy_out\<close>, \<^verbatim>\<open>proc_user_write64\<close>) and are returned as the list of stores made.
\<close>

section \<open>Masks\<close>

definition SIG_MAX :: int where "SIG_MAX = 32"
definition SIGKILL :: int where "SIGKILL = 9"
definition SIGALRM :: int where "SIGALRM = 14"
definition SIGCONT :: int where "SIGCONT = 18"
definition SIGSTOP :: int where "SIGSTOP = 19"
definition SIGTSTP :: int where "SIGTSTP = 20"
definition SIG_DFL :: nat where "SIG_DFL = 0"
definition SIG_IGN :: nat where "SIG_IGN = 1"
definition SIG_ERR :: nat where "SIG_ERR = 2 ^ 64 - 1"
definition SA_SIGINFO :: u32w where "SA_SIGINFO = 4"
definition SIGNAL_ALLOWED_MASK :: u32w where "SIGNAL_ALLOWED_MASK = 0x7FFFFFFF"

definition sigbit :: "int \<Rightarrow> u32w" where
  "sigbit signo = (if signo \<le> 0 \<or> signo \<ge> SIG_MAX then 0 else push_bit (nat (signo - 1)) 1)"

definition unblockable_mask :: u32w where
  "unblockable_mask = sigbit SIGKILL OR sigbit SIGSTOP"

text \<open>The loops over \<^verbatim>\<open>for(signo = 1; signo < SIG_MAX; signo++)\<close>.\<close>

definition signos :: "int list" where
  "signos = [1..31]"

definition proc_signal_fill_siginfo :: "int \<Rightarrow> nat \<Rightarrow> siginfo" where
  "proc_signal_fill_siginfo signo pid =
     zero_siginfo\<lparr>si_signo := nat signo, si_errno := 0, si_code := 0, si_value := 0, si_addr := 0,
                  si_pid := pid, si_uid := 0\<rparr>"

definition proc_signal_take_pending :: "ptr \<Rightarrow> u32w \<Rightarrow> sched \<Rightarrow> int \<times> siginfo option \<times> sched" where
  "proc_signal_take_pending p mask0 s =
     (let mask = (mask0 AND SIGNAL_ALLOWED_MASK) AND NOT unblockable_mask in
      if mask = 0 then (0, None, s)
      else case find (\<lambda>signo. mask AND sigbit signo \<noteq> 0
                            \<and> p_signal_pending (pinfo s p) AND sigbit signo \<noteq> 0) signos of
             None \<Rightarrow> (0, None, s)
           | Some signo \<Rightarrow>
               (signo, Some (proc_signal_fill_siginfo signo (p_pid (pinfo s p))),
                upd p (\<lambda>i. i\<lparr>p_signal_pending := p_signal_pending i AND NOT (sigbit signo)\<rparr>) s))"

section \<open>Signal state\<close>

definition clear_wait_state :: "proc_info \<Rightarrow> proc_info" where
  "clear_wait_state i =
     i\<lparr>p_stopped := False, p_stop_status_pending := False, p_stop_status := 0, p_continue_status := 0,
       p_continued_pending := False, p_wait_active := False, p_wait_consume := False,
       p_wait_capture_info := False, p_wait_result_ready := False, p_wait_mask := 0,
       p_wait_info := zero_siginfo, p_wait_result := 0, p_sigsuspend_active := False,
       p_sigsuspend_oldmask := 0\<rparr>"

definition proc_signal_state_initialize :: "ptr \<Rightarrow> sched \<Rightarrow> sched" where
  "proc_signal_state_initialize p =
     upd p (\<lambda>i. (clear_wait_state i)\<lparr>p_signal_pending := 0, p_signal_blocked := 0,
                  p_signal_actions := (\<lambda>_. \<lparr>sa_handler = SIG_DFL, sa_mask = 0, sa_flags = 0,
                                             sa_restorer = 0\<rparr>)\<rparr>)"

definition proc_signal_state_copy :: "ptr \<Rightarrow> ptr \<Rightarrow> sched \<Rightarrow> sched" where
  "proc_signal_state_copy dst src s =
     upd dst (\<lambda>i. (clear_wait_state i)\<lparr>p_signal_pending := 0,
                    p_signal_blocked := p_signal_blocked (pinfo s src) AND NOT unblockable_mask,
                    p_signal_actions := p_signal_actions (pinfo s src)\<rparr>) s"

definition proc_signal_set_blocked :: "ptr \<Rightarrow> u32w \<Rightarrow> sched \<Rightarrow> sched" where
  "proc_signal_set_blocked p new_mask =
     upd p (\<lambda>i. i\<lparr>p_signal_blocked := (new_mask AND SIGNAL_ALLOWED_MASK) AND NOT unblockable_mask\<rparr>)"

definition proc_signal_enqueue :: "ptr \<Rightarrow> int \<Rightarrow> sched \<Rightarrow> sched" where
  "proc_signal_enqueue p signo s =
     (if sigbit signo = 0 then s
      else upd p (\<lambda>i. i\<lparr>p_signal_pending := p_signal_pending i OR sigbit signo\<rparr>) s)"

definition proc_signal_pending :: "ptr \<Rightarrow> sched \<Rightarrow> bool" where
  "proc_signal_pending p s \<longleftrightarrow> p_signal_pending (pinfo s p) \<noteq> 0"

definition deliverable :: "proc_info \<Rightarrow> int \<Rightarrow> bool" where
  "deliverable i signo \<longleftrightarrow> p_signal_pending i AND sigbit signo \<noteq> 0 \<and> p_signal_blocked i AND sigbit signo = 0"

definition proc_signal_dequeue :: "ptr \<Rightarrow> sched \<Rightarrow> int \<times> sched" where
  "proc_signal_dequeue p s =
     (case find (deliverable (pinfo s p)) signos of
        None \<Rightarrow> (- 1, s)
      | Some signo \<Rightarrow>
          (signo, upd p (\<lambda>i. i\<lparr>p_signal_pending := p_signal_pending i AND NOT (sigbit signo)\<rparr>) s))"

definition proc_signal_has_unblocked :: "ptr \<Rightarrow> sched \<Rightarrow> bool" where
  "proc_signal_has_unblocked p s \<longleftrightarrow> find (deliverable (pinfo s p)) signos \<noteq> None"

text \<open>The old action is returned together with the result.\<close>

definition proc_signal_configure_action ::
    "ptr \<Rightarrow> int \<Rightarrow> sigaction option \<Rightarrow> sched \<Rightarrow> (errno + sigaction) \<times> sched" where
  "proc_signal_configure_action p signo new_action s =
     (if sigbit signo = 0 then (Inl EINVAL, s)
      else let slot = p_signal_actions (pinfo s p) (nat signo) in
           case new_action of
             None \<Rightarrow> (Inr slot, s)
           | Some new \<Rightarrow>
               if signo = SIGKILL \<or> signo = SIGSTOP then (Inl EINVAL, s)
               else (Inr slot,
                     upd p (\<lambda>i. i\<lparr>p_signal_actions := (p_signal_actions i)
                        (nat signo := new\<lparr>sa_mask := sa_mask new AND SIGNAL_ALLOWED_MASK\<rparr>)\<rparr>) s))"

definition SIG_BLOCK :: int where "SIG_BLOCK = 0"
definition SIG_UNBLOCK :: int where "SIG_UNBLOCK = 1"
definition SIG_SETMASK :: int where "SIG_SETMASK = 2"

definition proc_signal_modify_mask :: "ptr \<Rightarrow> int \<Rightarrow> u32w \<Rightarrow> sched \<Rightarrow> (errno + u32w) \<times> sched" where
  "proc_signal_modify_mask p how mask0 s =
     (let old = p_signal_blocked (pinfo s p);
          mask = mask0 AND SIGNAL_ALLOWED_MASK;
          set_mask = (\<lambda>m. upd p (\<lambda>i. i\<lparr>p_signal_blocked := m AND NOT unblockable_mask\<rparr>) s)
      in if how = SIG_BLOCK then (Inr old, set_mask (old OR mask))
         else if how = SIG_UNBLOCK then (Inr old, set_mask (old AND NOT mask))
         else if how = SIG_SETMASK then (Inr old, set_mask mask)
         else (Inl EINVAL, s))"

section \<open>Sending\<close>

definition wake_if_blocked :: "ptr \<Rightarrow> sched \<Rightarrow> sched option" where
  "wake_if_blocked p s =
     (if p_state (pinfo s p) = PROC_STATE_SLEEPING \<or> p_state (pinfo s p) = PROC_STATE_WAITING
      then proc_mark_ready p s else Some s)"

definition proc_signal_send :: "ptr \<Rightarrow> int \<Rightarrow> sched \<Rightarrow> ((errno + unit) \<times> sched) option" where
  "proc_signal_send p signo s =
     (let bit = sigbit signo; i = pinfo s p in
      if bit = 0 then Some (Inl EINVAL, s)
      else if bit AND unblockable_mask \<noteq> 0
      then map_option (Pair (Inr ()))
             (let s1 = proc_signal_enqueue p signo s in
              if p_signal_blocked (pinfo s1 p) AND bit = 0 then wake_if_blocked p s1 else Some s1)
      else if p_wait_active i \<and> p_wait_mask i AND bit \<noteq> 0
      then (let s1 = upd p (\<lambda>i. i\<lparr>p_wait_active := False, p_wait_result_ready := True,
                                  p_wait_result := nat signo\<rparr>) s;
                s2 = (if p_wait_capture_info i
                      then upd p (\<lambda>i. i\<lparr>p_wait_info := proc_signal_fill_siginfo signo (p_pid i)\<rparr>) s1
                      else s1);
                s3 = (if \<not> p_wait_consume i then proc_signal_enqueue p signo s2 else s2)
            in map_option (Pair (Inr ())) (wake_if_blocked p s3))
      else map_option (Pair (Inr ()))
             (let s1 = proc_signal_enqueue p signo s in
              if p_signal_blocked (pinfo s1 p) AND bit = 0 then wake_if_blocked p s1 else Some s1))"

text \<open>\<^verbatim>\<open>syscall_kill_handler\<close>.\<close>

definition syscall_kill :: "int \<Rightarrow> int \<Rightarrow> sched \<Rightarrow> ((errno + unit) \<times> sched) option" where
  "syscall_kill pid signo s =
     (if sigbit signo = 0 then Some (Inl EINVAL, s)
      else if pid \<le> 0 then Some (Inl EINVAL, s)
      else case proc_find_by_pid (nat pid) s of
             None \<Rightarrow> Some (Inl ESRCH, s)
           | Some target \<Rightarrow> if target = kernel_process_info then Some (Inl EPERM, s)
                            else proc_signal_send target signo s)"

section \<open>Delivery\<close>

text \<open>The saved registers, \<^verbatim>\<open>cpu_state_t\<close>.\<close>

record cpu_state =
  r15 :: "64 word"
  r14 :: "64 word"
  r13 :: "64 word"
  r12 :: "64 word"
  r11 :: "64 word"
  r10 :: "64 word"
  r9 :: "64 word"
  r8 :: "64 word"
  rdi :: "64 word"
  rsi :: "64 word"
  rbp :: "64 word"
  rdx :: "64 word"
  rcx :: "64 word"
  rbx :: "64 word"
  rax :: "64 word"
  rip :: "64 word"
  cs :: "64 word"
  rflags :: "64 word"
  rsp :: "64 word"
  ss :: "64 word"

record menios_signal_frame =
  context_of :: cpu_state
  signal_mask :: u32w
  frame_signo :: int

text \<open>A store to user memory: where, and what. The sizes are those of the packed structures.\<close>

datatype user_store =
    StoreFrame "64 word" menios_signal_frame
  | StoreInfo "64 word" siginfo
  | StoreWord "64 word" nat

definition FRAME_SIZE :: "64 word" where "FRAME_SIZE = 176"
definition SIGINFO_SIZE :: "64 word" where "SIGINFO_SIZE = 40"

definition EINTR_RAX :: "64 word" where "EINTR_RAX = - 4"

datatype proc_signal_delivery =
    PROC_SIGNAL_DELIVERY_NONE | PROC_SIGNAL_DELIVERY_HANDLED
  | PROC_SIGNAL_DELIVERY_STOPPED | PROC_SIGNAL_DELIVERY_TERMINATED

text \<open>Where the pieces of a signal frame go, from the interrupted stack pointer.\<close>

definition payload_base :: "bool \<Rightarrow> 64 word \<Rightarrow> 64 word" where
  "payload_base use_siginfo sp =
     (sp - (FRAME_SIZE + (if use_siginfo then SIGINFO_SIZE else 0))) AND NOT 0xF"

definition frame_base :: "bool \<Rightarrow> 64 word \<Rightarrow> 64 word" where
  "frame_base use_siginfo sp = payload_base use_siginfo sp + (if use_siginfo then SIGINFO_SIZE else 0)"

definition restorer_slot :: "bool \<Rightarrow> 64 word \<Rightarrow> 64 word" where
  "restorer_slot use_siginfo sp = frame_base use_siginfo sp - 8"

text \<open>
  The handler's entry: the signal frame and, with \<^verbatim>\<open>SA_SIGINFO\<close>, a \<^verbatim>\<open>siginfo_t\<close> are stored on the user
  stack, then the restorer's address. A store that fails ends the process.
\<close>

definition enter_handler ::
    "(64 word \<Rightarrow> 64 word \<Rightarrow> bool) \<Rightarrow> ptr \<Rightarrow> int \<Rightarrow> sigaction \<Rightarrow> cpu_state \<Rightarrow> sched
      \<Rightarrow> (proc_signal_delivery \<times> cpu_state \<times> user_store list \<times> sched) option" where
  "enter_handler writable p signo action frame s =
     (let use_siginfo = (sa_flags action AND SA_SIGINFO \<noteq> 0);
          sigframe = \<lparr>context_of = frame\<lparr>rax := EINTR_RAX\<rparr>,
                      signal_mask = p_signal_blocked (pinfo s p), frame_signo = signo\<rparr>;
          siginfo_addr = (if use_siginfo then payload_base use_siginfo (rsp frame) else 0);
          base = frame_base use_siginfo (rsp frame);
          slot = restorer_slot use_siginfo (rsp frame);
          killed = (\<lambda>st. map_option (\<lambda>s'. (PROC_SIGNAL_DELIVERY_TERMINATED, frame, st, s'))
                           (proc_exit_signal signo s));
          st1 = [StoreFrame base sigframe];
          st2 = (if use_siginfo
                 then st1 @ [StoreInfo siginfo_addr (proc_signal_fill_siginfo signo (p_pid (pinfo s p)))]
                 else st1)
      in if \<not> writable base FRAME_SIZE then killed []
         else if use_siginfo \<and> \<not> writable siginfo_addr SIGINFO_SIZE then killed st1
         else if \<not> writable slot 8 then killed st2
         else Some (PROC_SIGNAL_DELIVERY_HANDLED,
                    frame\<lparr>rsp := slot, rip := of_nat (sa_handler action), rdi := of_int signo,
                          rsi := (if use_siginfo then siginfo_addr else 0),
                          rdx := (if use_siginfo then base else 0), rcx := 0, r8 := 0, r9 := 0,
                          rax := EINTR_RAX\<rparr>,
                    st2 @ [StoreWord slot (sa_restorer action)],
                    upd (current s) (\<lambda>i. i\<lparr>p_err_no := Some EINTR\<rparr>) s))"

text \<open>The loop of \<^verbatim>\<open>proc_signal_handle_pending\<close>: ignored signals are skipped.\<close>

partial_function (option) handle_pending_loop ::
    "(64 word \<Rightarrow> 64 word \<Rightarrow> bool) \<Rightarrow> ptr \<Rightarrow> cpu_state \<Rightarrow> sched
      \<Rightarrow> (proc_signal_delivery \<times> cpu_state \<times> user_store list \<times> sched) option" where
  "handle_pending_loop writable p frame s =
     (let signo = fst (proc_signal_dequeue p s); s1 = snd (proc_signal_dequeue p s) in
      if signo \<le> 0 then Some (PROC_SIGNAL_DELIVERY_NONE, frame, [], s1)
      else let action = p_signal_actions (pinfo s1 p) (nat signo) in
        if sa_handler action = SIG_IGN
        then (if signo = SIGSTOP
              then map_option (\<lambda>s2. (PROC_SIGNAL_DELIVERY_STOPPED, frame, [], s2))
                     (proc_mark_stopped p (nat signo) s1)
              else handle_pending_loop writable p frame s1)
        else if sa_handler action = SIG_DFL \<or> sa_handler action = SIG_ERR
        then (if signo = SIGSTOP \<or> signo = SIGTSTP
              then map_option (\<lambda>s2. (PROC_SIGNAL_DELIVERY_STOPPED, frame, [], s2))
                     (proc_mark_stopped p (nat signo) s1)
              else if signo = SIGCONT
              then map_option (\<lambda>s2. (PROC_SIGNAL_DELIVERY_HANDLED, frame, [], s2))
                     (proc_mark_continued p s1)
              else map_option (\<lambda>s2. (PROC_SIGNAL_DELIVERY_TERMINATED, frame, [], s2))
                     (proc_exit_signal signo s1))
        else if sa_restorer action = 0
        then map_option (\<lambda>s2. (PROC_SIGNAL_DELIVERY_TERMINATED, frame, [], s2))
               (proc_exit_signal signo s1)
        else enter_handler writable p signo action frame s1)"

definition proc_signal_handle_pending ::
    "(64 word \<Rightarrow> 64 word \<Rightarrow> bool) \<Rightarrow> ptr \<Rightarrow> cpu_state option \<Rightarrow> sched
      \<Rightarrow> (proc_signal_delivery \<times> cpu_state option \<times> user_store list \<times> sched) option" where
  "proc_signal_handle_pending writable p frame s =
     (case frame of
        None \<Rightarrow> Some (PROC_SIGNAL_DELIVERY_NONE, None, [], s)
      | Some f \<Rightarrow>
          if \<not> p_user_mode (pinfo s p) \<or> p = kernel_process_info then Some (PROC_SIGNAL_DELIVERY_NONE, frame, [], s)
          else if \<not> proc_signal_pending p s then Some (PROC_SIGNAL_DELIVERY_NONE, frame, [], s)
          else map_option (\<lambda>(d, f', st, s'). (d, Some f', st, s')) (handle_pending_loop writable p f s))"

text \<open>\<^verbatim>\<open>syscall_sigreturn_handler\<close>: the frame is read back from user memory (\<open>None\<close> when the copy fails)
  and replaces the registers as it is.\<close>

definition EFAULT_RAX :: "64 word" where "EFAULT_RAX = - 14"

definition syscall_sigreturn ::
    "cpu_state \<Rightarrow> menios_signal_frame option \<Rightarrow> sched \<Rightarrow> cpu_state \<times> sched" where
  "syscall_sigreturn frame user_frame s =
     (if rdi frame = 0 then (frame\<lparr>rax := EFAULT_RAX\<rparr>, s)
      else case user_frame of
             None \<Rightarrow> (frame\<lparr>rax := EFAULT_RAX\<rparr>, s)
           | Some uf \<Rightarrow> (context_of uf, proc_signal_set_blocked (current s) (signal_mask uf) s))"

section \<open>Bits of masks\<close>

definition mask_ok :: "proc_info \<Rightarrow> bool" where
  "mask_ok i \<longleftrightarrow> p_signal_blocked i AND unblockable_mask = 0"

text \<open>The operations that change a process's blocked mask.\<close>

inductive mask_step :: "sched \<Rightarrow> sched \<Rightarrow> bool" where
  initialize: "mask_step s (proc_signal_state_initialize p s)"
| copy: "mask_step s (proc_signal_state_copy dst src s)"
| set_blocked: "mask_step s (proc_signal_set_blocked p m s)"
| modify: "proc_signal_modify_mask p how m s = (r, s') \<Longrightarrow> mask_step s s'"
| configure: "proc_signal_configure_action p signo a s = (r, s') \<Longrightarrow> mask_step s s'"
| enqueue: "mask_step s (proc_signal_enqueue p signo s)"
| dequeue: "mask_step s (snd (proc_signal_dequeue p s))"
| sigreturn: "mask_step s (snd (syscall_sigreturn frame uf s))"

text \<open>What each kind of delivery leaves of the process.\<close>

definition settled :: "proc_signal_delivery \<Rightarrow> ptr \<Rightarrow> sched \<Rightarrow> sched \<Rightarrow> bool" where
  "settled d p s s' \<longleftrightarrow>
     p_state (pinfo s' p) =
       (case d of
          PROC_SIGNAL_DELIVERY_STOPPED \<Rightarrow> PROC_STATE_STOPPED
        | PROC_SIGNAL_DELIVERY_TERMINATED \<Rightarrow> PROC_STATE_ZOMBIE
        | _ \<Rightarrow> p_state (pinfo s p)) \<and>
     current s' = current s \<and> procs s' = procs s"

lemma sigbit_exp: "1 \<le> signo \<Longrightarrow> signo \<le> 31 \<Longrightarrow> sigbit signo = 2 ^ nat (signo - 1)"
  by (simp add: sigbit_def SIG_MAX_def push_bit_of_1)

lemma and_sigbit:
  "1 \<le> signo \<Longrightarrow> signo \<le> 31 \<Longrightarrow> (w AND sigbit signo = 0) = (\<not> bit w (nat (signo - 1)))"
  by (simp add: sigbit_exp and_exp_eq_0_iff_not_bit)

lemma sigbit_nonzero: "sigbit signo \<noteq> 0 \<longleftrightarrow> 1 \<le> signo \<and> signo \<le> 31"
proof -
  have "(2 :: u32w) ^ nat (signo - 1) \<noteq> 0" if "signo \<le> 31" "1 \<le> signo"
    using that by (simp add: exp_eq_zero_iff)
  then show ?thesis using sigbit_exp[of signo] by (auto simp: sigbit_def SIG_MAX_def)
qed

lemma deliverable_bit:
  "1 \<le> signo \<Longrightarrow> signo \<le> 31 \<Longrightarrow>
     deliverable i signo \<longleftrightarrow> bit (p_signal_pending i) (nat (signo - 1)) \<and> \<not> bit (p_signal_blocked i) (nat (signo - 1))"
  by (simp add: deliverable_def and_sigbit)

lemma find_sorted_least:
  fixes xs :: "int list"
  assumes "sorted_wrt (<) xs"
  shows "find P xs = Some k \<longleftrightarrow> k \<in> set xs \<and> P k \<and> (\<forall>j\<in>set xs. j < k \<longrightarrow> \<not> P j)"
  using assms
proof (induction xs)
  case (Cons x xs)
  then have less: "\<forall>y\<in>set xs. x < y" by simp
  show ?case
  proof (cases "P x")
    case True
    then show ?thesis using less by auto
  next
    case False
    then show ?thesis using less Cons by auto
  qed
qed simp

lemma find_signos_Some:
  "find P signos = Some k \<longleftrightarrow> 1 \<le> k \<and> k \<le> 31 \<and> P k \<and> (\<forall>j. 1 \<le> j \<and> j < k \<longrightarrow> \<not> P j)"
proof -
  have "sorted_wrt (<) signos" by (simp add: signos_def)
  moreover have "set signos = {1..31}" by (simp add: signos_def)
  ultimately show ?thesis using find_sorted_least[of signos P k] by auto
qed

lemma find_signos_None: "find P signos = None \<longleftrightarrow> (\<forall>k. 1 \<le> k \<and> k \<le> 31 \<longrightarrow> \<not> P k)"
proof -
  have "set signos = {1..31}" by (simp add: signos_def)
  then show ?thesis unfolding find_None_iff by auto
qed

lemma unblockable_cleared [simp]: "(m AND NOT unblockable_mask) AND unblockable_mask = 0"
  by (rule bit_word_eqI) (auto simp: bit_simps)

lemma mask_ok_deliverable:
  assumes "mask_ok i" "signo = SIGKILL \<or> signo = SIGSTOP"
  shows "p_signal_blocked i AND sigbit signo = 0"
proof -
  have "sigbit signo AND unblockable_mask = sigbit signo"
    using assms(2) by (intro bit_word_eqI) (auto simp: unblockable_mask_def bit_simps)
  then have "p_signal_blocked i AND sigbit signo = (p_signal_blocked i AND unblockable_mask) AND sigbit signo"
    by (metis (no_types, lifting) and.assoc and.commute)
  then show ?thesis using assms(1) by (simp add: mask_ok_def)
qed

lemma mask_step_ok:
  assumes "mask_step s s'" "\<forall>p. mask_ok (pinfo s p)"
  shows "\<forall>p. mask_ok (pinfo s' p)"
  using assms
proof (induction rule: mask_step.induct)
  case (modify p how m s r s')
  then show ?case
    by (auto simp: proc_signal_modify_mask_def Let_def mask_ok_def split: if_splits)
next
  case (configure p signo a s r s')
  then show ?case
    by (auto simp: proc_signal_configure_action_def Let_def mask_ok_def split: if_splits option.splits)
qed (auto simp: proc_signal_state_initialize_def proc_signal_state_copy_def proc_signal_set_blocked_def
    proc_signal_enqueue_def proc_signal_dequeue_def syscall_sigreturn_def mask_ok_def clear_wait_state_def
    split: option.splits)

section \<open>Sending and handling keep the scheduler going\<close>

lemma enqueue_frame [simp, intro!]: "sched_frame s t \<Longrightarrow> sched_frame s (proc_signal_enqueue p signo t)"
  by (auto simp: proc_signal_enqueue_def intro!: sched_frame_upd)

lemma enqueue_fields [simp]:
  "p_signal_blocked (pinfo (proc_signal_enqueue p signo s) q) = p_signal_blocked (pinfo s q)"
  "p_state (pinfo (proc_signal_enqueue p signo s) q) = p_state (pinfo s q)"
  "sigbit signo \<noteq> 0 \<Longrightarrow> p_signal_pending (pinfo (proc_signal_enqueue p signo s) p)
     = p_signal_pending (pinfo s p) OR sigbit signo"
  by (auto simp: proc_signal_enqueue_def)

lemma wake_if_blocked_wf:
  assumes "sched_wf s qs"
  shows "\<exists>s' qs'. wake_if_blocked p s = Some s' \<and> sched_wf s' qs' \<and> current s' = current s \<and> procs s' = procs s"
  using mark_ready_wf[OF assms, of p] assms by (auto simp: wake_if_blocked_def)

lemma send_wf:
  assumes wf: "sched_wf s qs"
  shows "\<exists>r s' qs'. proc_signal_send p signo s = Some (r, s') \<and> sched_wf s' qs'
           \<and> current s' = current s \<and> procs s' = procs s"
proof -
  let ?s1 = "proc_signal_enqueue p signo s"
  have wf1: "sched_wf ?s1 qs" by (rule sched_wf_frame[OF wf]) simp
  have c1: "current ?s1 = current s" "procs ?s1 = procs s" by (simp_all add: proc_signal_enqueue_def)
  have plain: "\<exists>s' qs'. (if p_signal_blocked (pinfo ?s1 p) AND sigbit signo = 0
      then wake_if_blocked p ?s1 else Some ?s1) = Some s' \<and> sched_wf s' qs'
      \<and> current s' = current s \<and> procs s' = procs s"
    using wake_if_blocked_wf[OF wf1, of p] wf1 c1 by auto
  define s2 where "s2 = (if p_wait_capture_info (pinfo s p)
      then upd p (\<lambda>i. i\<lparr>p_wait_info := proc_signal_fill_siginfo signo (p_pid i)\<rparr>)
        (upd p (\<lambda>i. i\<lparr>p_wait_active := False, p_wait_result_ready := True, p_wait_result := nat signo\<rparr>) s)
      else upd p (\<lambda>i. i\<lparr>p_wait_active := False, p_wait_result_ready := True, p_wait_result := nat signo\<rparr>) s)"
  define s3 where "s3 = (if \<not> p_wait_consume (pinfo s p) then proc_signal_enqueue p signo s2 else s2)"
  have fr2: "sched_frame s s2" by (auto simp: s2_def intro!: sched_frame_upd)
  then have "sched_frame s s3" by (auto simp: s3_def)
  then have wf3: "sched_wf s3 qs" by (rule sched_wf_frame[OF wf])
  have c3: "current s3 = current s" "procs s3 = procs s"
    by (simp_all add: s3_def s2_def proc_signal_enqueue_def)
  show ?thesis
    using plain wake_if_blocked_wf[OF wf3, of p] wf c3
    unfolding proc_signal_send_def Let_def s2_def[symmetric] s3_def[symmetric]
    by (auto simp del: enqueue_fields)
qed

lemma exit_wf:
  assumes wf: "sched_wf s qs" and c: "current s \<notin> queued qs" and par: "p_parent (pinfo s (current s)) \<noteq> Some (current s)"
  shows "\<exists>s' qs'. proc_exit_with_status st s = Some s' \<and> sched_wf s' qs' \<and> current s \<notin> queued qs'
           \<and> p_state (pinfo s' (current s)) = PROC_STATE_ZOMBIE \<and> current s' = current s \<and> procs s' = procs s"
proof -
  define s1 where "s1 = upd (current s) (\<lambda>i. i\<lparr>p_state := PROC_STATE_ZOMBIE, p_exit_code := st,
              p_stopped := False, p_stop_status_pending := False, p_continued_pending := False\<rparr>) s"
  have wf1: "sched_wf s1 qs" unfolding s1_def by (rule sched_wf_upd_unqueued[OF wf c]) simp
  have par1: "p_parent (pinfo s1 (current s)) = p_parent (pinfo s (current s))" by (simp add: s1_def)
  obtain s2 qs2 where s2: "notify_waiting_parent (current s) s1 = Some s2" "sched_wf s2 qs2"
    "queued qs2 \<subseteq> set_option (p_parent (pinfo s1 (current s))) \<union> queued qs"
    "current s2 = current s1" "procs s2 = procs s1"
    "\<forall>q. Some q \<noteq> p_parent (pinfo s1 (current s)) \<longrightarrow> p_state (pinfo s2 q) = p_state (pinfo s1 q)"
    using notify_parent_wf[OF wf1] by blast
  have "p_state (pinfo s2 (current s)) = PROC_STATE_ZOMBIE" using s2(6) par par1 by (auto simp: s1_def)
  moreover have "current s \<notin> queued qs2" using s2(3) par par1 c by auto
  moreover have "sched_wf (s2\<lparr>act_force := True\<rparr>) qs2" by (rule sched_wf_frame[OF s2(2)]) simp
  ultimately show ?thesis
    using s2(1,4,5) by (auto simp: proc_exit_with_status_def s1_def[symmetric]) (auto simp: s1_def)
qed

lemma clear_bit_less:
  fixes w :: "'a::len word"
  assumes "bit w n"
  shows "unat (w AND NOT (2 ^ n)) < unat w"
proof -
  have "\<not> bit (w AND NOT (2 ^ n)) n" using assms bit_imp_le_length[OF assms] by (simp add: bit_simps)
  then have "w AND NOT (2 ^ n) \<noteq> w" using assms by metis
  moreover have "w AND NOT (2 ^ n) \<le> w" by (rule word_and_le2)
  ultimately show ?thesis by (simp add: word_less_nat_alt[symmetric])
qed

lemma dequeue_cases:
  obtains (none) "proc_signal_dequeue p s = (- 1, s)"
  | (some) signo s1 where "proc_signal_dequeue p s = (signo, s1)" "1 \<le> signo" "signo \<le> 31"
      "s1 = upd p (\<lambda>i. i\<lparr>p_signal_pending := p_signal_pending i AND NOT (sigbit signo)\<rparr>) s"
      "unat (p_signal_pending (pinfo s1 p)) < unat (p_signal_pending (pinfo s p))"
proof (cases "find (deliverable (pinfo s p)) signos")
  case None
  then show ?thesis using none by (simp add: proc_signal_dequeue_def)
next
  case (Some signo)
  then have k: "1 \<le> signo" "signo \<le> 31" "deliverable (pinfo s p) signo"
    by (auto simp: find_signos_Some)
  have "bit (p_signal_pending (pinfo s p)) (nat (signo - 1))" using k deliverable_bit by blast
  from clear_bit_less[OF this] show ?thesis
    using some[OF _ k(1,2) refl] Some k by (simp add: proc_signal_dequeue_def sigbit_exp)
qed

lemma mark_continued_settled:
  assumes wf: "sched_wf s qs" and c: "p \<notin> queued qs" "p \<noteq> kernel_process_info"
    and par: "p_parent (pinfo s p) \<noteq> Some p" and st: "p_state (pinfo s p) \<noteq> PROC_STATE_STOPPED"
  shows "\<exists>s' qs'. proc_mark_continued p s = Some s' \<and> sched_wf s' qs' \<and> p \<notin> queued qs'
           \<and> settled PROC_SIGNAL_DELIVERY_HANDLED p s s'"
proof -
  define s1 where "s1 = upd p (\<lambda>i. i\<lparr>p_stopped := False, p_stop_status_pending := False,
      p_continue_status := 0xffff, p_continued_pending := True\<rparr>) s"
  have fr: "sched_frame s s1" by (auto simp: s1_def intro!: sched_frame_upd)
  note wf1 = sched_wf_frame[OF wf fr]
  have par1: "p_parent (pinfo s1 p) = p_parent (pinfo s p)" by (simp add: s1_def)
  obtain s2 qs2 where s2: "notify_waiting_parent p s1 = Some s2" "sched_wf s2 qs2"
    "queued qs2 \<subseteq> set_option (p_parent (pinfo s1 p)) \<union> queued qs"
    "current s2 = current s1" "procs s2 = procs s1"
    "\<forall>q. Some q \<noteq> p_parent (pinfo s1 p) \<longrightarrow> p_state (pinfo s2 q) = p_state (pinfo s1 q)"
    using notify_parent_wf[OF wf1] by blast
  have "proc_mark_continued p s = Some s2"
    using c(2) st s2(1) by (simp add: proc_mark_continued_def Let_def s1_def)
  moreover have "p \<notin> queued qs2" using s2(3) par par1 c by auto
  moreover have "settled PROC_SIGNAL_DELIVERY_HANDLED p s s2"
    using s2(4-6) par par1 sched_frame_views(4)[OF fr] by (auto simp: settled_def s1_def)
  ultimately show ?thesis using s2(2) by blast
qed

lemma exit_signal_settled:
  assumes "sched_wf s qs" "p \<notin> queued qs" "p = current s" "p_parent (pinfo s p) \<noteq> Some p"
  shows "\<exists>s' qs'. proc_exit_signal signo s = Some s' \<and> sched_wf s' qs' \<and> p \<notin> queued qs'
           \<and> settled PROC_SIGNAL_DELIVERY_TERMINATED p s s'"
  using exit_wf[of s qs "encode_signal_status signo"] assms
  by (auto simp: proc_exit_signal_def settled_def)

lemma mark_stopped_settled:
  assumes "sched_wf s qs" "p \<noteq> kernel_process_info" "p_parent (pinfo s p) \<noteq> Some p"
  shows "\<exists>s' qs'. proc_mark_stopped p signo s = Some s' \<and> sched_wf s' qs' \<and> p \<notin> queued qs'
           \<and> settled PROC_SIGNAL_DELIVERY_STOPPED p s s'"
  using mark_stopped_wf[OF assms, of signo] by (auto simp: settled_def)

lemma enter_handler_settled:
  assumes "sched_wf s qs" "p \<notin> queued qs" "p = current s" "p_parent (pinfo s p) \<noteq> Some p"
  shows "\<exists>d f st s' qs'. enter_handler writable p signo action frame s = Some (d, f, st, s')
           \<and> sched_wf s' qs' \<and> p \<notin> queued qs' \<and> settled d p s s'"
proof -
  let ?s' = "upd (current s) (\<lambda>i. i\<lparr>p_err_no := Some EINTR\<rparr>) s"
  have "sched_wf ?s' qs" by (rule sched_wf_frame[OF assms(1)]) (auto intro!: sched_frame_upd)
  moreover have "settled PROC_SIGNAL_DELIVERY_HANDLED p s ?s'" by (simp add: settled_def)
  ultimately show ?thesis
    using exit_signal_settled[OF assms, of signo] assms(2)
    by (auto simp: enter_handler_def Let_def split del: if_split) (auto split: if_splits)
qed

lemma handle_pending_settled:
  assumes "sched_wf s qs" "p \<notin> queued qs" "p = current s" "p \<noteq> kernel_process_info"
    "p_parent (pinfo s p) \<noteq> Some p" "p_state (pinfo s p) \<noteq> PROC_STATE_STOPPED"
  shows "\<exists>d f st s' qs'. handle_pending_loop writable p frame s = Some (d, f, st, s')
           \<and> sched_wf s' qs' \<and> p \<notin> queued qs' \<and> settled d p s s'"
  using assms
proof (induction "unat (p_signal_pending (pinfo s p))" arbitrary: s rule: less_induct)
  case less
  show ?case
  proof (cases p s rule: dequeue_cases)
    case none
    then show ?thesis using less.prems
      by (subst handle_pending_loop.simps) (auto simp: settled_def)
  next
    case (some signo s1)
    have fr: "sched_frame s s1" using some(4) by (auto intro!: sched_frame_upd)
    note wf1 = sched_wf_frame[OF less.prems(1) fr]
    have c1: "p = current s1" "p_parent (pinfo s1 p) \<noteq> Some p"
      "p_state (pinfo s1 p) \<noteq> PROC_STATE_STOPPED" using less.prems some(4) by simp_all
    have keep: "settled d p s1 s' \<Longrightarrow> settled d p s s'" for d s'
      using some(4) by (auto simp: settled_def split: proc_signal_delivery.splits)
    note IH = less.hyps[OF some(5) wf1 less.prems(2) c1(1) less.prems(4) c1(2,3)]
    note ex = exit_signal_settled[OF wf1 less.prems(2) c1(1,2), of signo]
    note stp = mark_stopped_settled[OF wf1 less.prems(4) c1(2), of "nat signo"]
    note cont = mark_continued_settled[OF wf1 less.prems(2,4) c1(2,3)]
    define action where "action = p_signal_actions (pinfo s1 p) (nat signo)"
    note ent = enter_handler_settled[OF wf1 less.prems(2) c1(1,2), of writable signo action frame]
    have step: "handle_pending_loop writable p frame s =
        (if sa_handler action = SIG_IGN
         then (if signo = SIGSTOP
               then map_option (\<lambda>s2. (PROC_SIGNAL_DELIVERY_STOPPED, frame, [], s2)) (proc_mark_stopped p (nat signo) s1)
               else handle_pending_loop writable p frame s1)
         else if sa_handler action = SIG_DFL \<or> sa_handler action = SIG_ERR
         then (if signo = SIGSTOP \<or> signo = SIGTSTP
               then map_option (\<lambda>s2. (PROC_SIGNAL_DELIVERY_STOPPED, frame, [], s2)) (proc_mark_stopped p (nat signo) s1)
               else if signo = SIGCONT
               then map_option (\<lambda>s2. (PROC_SIGNAL_DELIVERY_HANDLED, frame, [], s2)) (proc_mark_continued p s1)
               else map_option (\<lambda>s2. (PROC_SIGNAL_DELIVERY_TERMINATED, frame, [], s2)) (proc_exit_signal signo s1))
         else if sa_restorer action = 0
         then map_option (\<lambda>s2. (PROC_SIGNAL_DELIVERY_TERMINATED, frame, [], s2)) (proc_exit_signal signo s1)
         else enter_handler writable p signo action frame s1)"
      using some(1-3) by (subst handle_pending_loop.simps) (simp add: action_def Let_def)
    from IH ex stp cont ent keep show ?thesis unfolding step
      by (cases "sa_handler action = SIG_IGN"; cases "signo = SIGSTOP"; cases "signo = SIGCONT";
          cases "sa_handler action = SIG_DFL \<or> sa_handler action = SIG_ERR"; cases "signo = SIGTSTP";
          cases "sa_restorer action = 0")
         (simp_all, blast+)
  qed
qed

section \<open>Properties\<close>

definition demo_signalled :: sched where
  "demo_signalled = demo_sched\<lparr>pinfo := (pinfo demo_sched)
     (7 := zero_proc\<lparr>p_pid := 7, p_state := PROC_STATE_RUNNING, p_user_mode := True,
             p_signal_pending := 0x2002, p_signal_blocked := 0x0002,
             p_signal_actions := (\<lambda>_. \<lparr>sa_handler = 4096, sa_mask = 0, sa_flags = 4, sa_restorer = 8192\<rparr>)\<rparr>),
     current := 7\<rparr>"

definition zero_cpu :: cpu_state where
  "zero_cpu = \<lparr>r15 = 0, r14 = 0, r13 = 0, r12 = 0, r11 = 0, r10 = 0, r9 = 0, r8 = 0, rdi = 0, rsi = 0,
     rbp = 0, rdx = 0, rcx = 0, rbx = 0, rax = 0, rip = 0, cs = 0, rflags = 0, rsp = 0, ss = 0\<rparr>"

lemma demo_signalled_wf: "sched_wf demo_signalled demo_qs"
  unfolding sched_wf_def queues_rep_def all_le4 all_le5
  by (simp add: demo_signalled_def demo_defs qhead_def tail_of_def ready_prio_def prio_defs sleep_key_def
      kernel_process_info_def)

lemma demo_signalled_views:
  "p_signal_pending (pinfo demo_signalled 7) = 0x2002" "p_signal_blocked (pinfo demo_signalled 7) = 2"
  "p_state (pinfo demo_signalled 7) = PROC_STATE_RUNNING" "p_parent (pinfo demo_signalled 7) = None"
  "current demo_signalled = 7" "p_user_mode (pinfo demo_signalled 7)"
  by (simp_all add: demo_signalled_def zero_proc_def)

text \<open>
  \<^verbatim>\<open>proc_signal_dequeue\<close> takes the lowest-numbered signal that is pending and not blocked, clears
  exactly its pending bit, and reports -1 only when no such signal exists.
\<close>

theorem proc_signal_dequeue_lowest:
  "case proc_signal_dequeue p s of (signo, s') \<Rightarrow>
     if (\<exists>k. 1 \<le> k \<and> k \<le> 31 \<and> deliverable (pinfo s p) k)
     then 1 \<le> signo \<and> signo \<le> 31 \<and> deliverable (pinfo s p) signo
          \<and> \<not> (\<exists>k. 1 \<le> k \<and> k < signo \<and> deliverable (pinfo s p) k)
          \<and> s' = upd p (\<lambda>i. i\<lparr>p_signal_pending := p_signal_pending i AND NOT (sigbit signo)\<rparr>) s
     else signo = - 1 \<and> s' = s"
proof (cases "find (deliverable (pinfo s p)) signos")
  case None
  then show ?thesis using find_signos_None[of "deliverable (pinfo s p)"] by (auto simp: proc_signal_dequeue_def)
next
  case (Some signo)
  then show ?thesis using find_signos_Some[of "deliverable (pinfo s p)" signo]
    by (auto simp: proc_signal_dequeue_def)
qed

text \<open>
  C8. No sequence of mask operations ever blocks \<^verbatim>\<open>SIGKILL\<close> or \<^verbatim>\<open>SIGSTOP\<close>: from a state where no process
  blocks them, none does afterwards, so both are deliverable as soon as they are pending.
\<close>

theorem kill_and_stop_never_blocked:
  assumes "mask_step\<^sup>*\<^sup>* s s'" "\<forall>p. mask_ok (pinfo s p)" "signo = SIGKILL \<or> signo = SIGSTOP"
  shows "mask_ok (pinfo s' p) \<and>
         deliverable (pinfo s' p) signo = (p_signal_pending (pinfo s' p) AND sigbit signo \<noteq> 0)"
proof -
  have "\<forall>p. mask_ok (pinfo s' p)" using assms(1,2)
    by (induction rule: rtranclp_induct) (use mask_step_ok in blast)+
  then show ?thesis using mask_ok_deliverable[OF _ assms(3)] by (simp add: deliverable_def)
qed

theorem kill_and_stop_never_blocked_witness:
  "mask_ok (pinfo (proc_signal_set_blocked 1 0xFFFFFFFF boot_sched) 1)"
proof -
  have "\<forall>p. mask_ok (pinfo boot_sched p)" by (simp add: mask_ok_def boot_sched_def zero_proc_def)
  moreover have "mask_step\<^sup>*\<^sup>* boot_sched (proc_signal_set_blocked 1 0xFFFFFFFF boot_sched)"
    by (rule r_into_rtranclp) (rule mask_step.set_blocked)
  ultimately show ?thesis
    using kill_and_stop_never_blocked[of boot_sched _ SIGKILL 1] by blast
qed

text \<open>
  Sending a valid, unblocked signal that nobody waits for to a sleeping or waiting process
  records it as pending and makes the process ready, at the tail of its queue; the other processes
  keep their places.
\<close>

theorem proc_signal_send_wakes:
  assumes "sched_wf s qs" "1 \<le> signo" "signo \<le> 31" "p_signal_blocked (pinfo s p) AND sigbit signo = 0"
    "\<not> p_wait_active (pinfo s p)"
    "p_state (pinfo s p) \<in> {PROC_STATE_SLEEPING, PROC_STATE_WAITING}"
  shows "\<exists>s'. proc_signal_send p signo s = Some (Inr (), s')
           \<and> p_signal_pending (pinfo s' p) = p_signal_pending (pinfo s p) OR sigbit signo
           \<and> p_state (pinfo s' p) = PROC_STATE_READY
           \<and> sched_wf s' (qs(SLEEPQ := remove1 p (qs SLEEPQ),
                             ready_prio s p := qs (ready_prio s p) @ [p]))"
proof -
  let ?s1 = "proc_signal_enqueue p signo s"
  have nz: "sigbit signo \<noteq> 0" using assms(2,3) sigbit_nonzero by blast
  have fr: "sched_frame s ?s1" by simp
  note wf1 = sched_wf_frame[OF assms(1) fr]
  obtain s' where s': "proc_mark_ready p ?s1 = Some s'" "sched_wf s' (qs(SLEEPQ := remove1 p (qs SLEEPQ),
        ready_prio s p := qs (ready_prio s p) @ [p]))" "p_state (pinfo s' p) = PROC_STATE_READY"
    using mark_ready_wf_at[OF wf1, of p] assms(6) sched_frame_views(2)[OF fr] by auto
  have "proc_signal_send p signo s = Some (Inr (), s')"
    using nz assms(4-6) s'(1) by (auto simp: proc_signal_send_def Let_def wake_if_blocked_def)
  moreover have "p_signal_pending (pinfo s' p) = p_signal_pending (pinfo s p) OR sigbit signo"
    using core_fields(6)[OF mark_ready_core[OF s'(1)]] nz by simp
  ultimately show ?thesis using s' by auto
qed

theorem proc_signal_send_wakes_witness:
  "\<exists>s'. proc_signal_send 2 14 demo_sched = Some (Inr (), s') \<and> p_state (pinfo s' 2) = PROC_STATE_READY"
proof -
  have "p_signal_blocked (pinfo demo_sched 2) = 0" "\<not> p_wait_active (pinfo demo_sched 2)"
    by (simp_all add: demo_defs)
  then show ?thesis using proc_signal_send_wakes[OF demo_wf, of 14 2] by (auto simp: demo_views)
qed

text \<open>
  C9. \<^verbatim>\<open>proc_signal_handle_pending\<close> terminates for the current process whatever signals are pending,
  keeps the scheduler's invariant, and leaves the process in the state its result announces:
  stopped, a zombie, or as it was.
\<close>

theorem proc_signal_handle_pending_total:
  assumes "sched_wf s qs" "p \<notin> queued qs" "p = current s" "p \<noteq> kernel_process_info"
    "p_parent (pinfo s p) \<noteq> Some p" "p_state (pinfo s p) \<noteq> PROC_STATE_STOPPED"
  shows "\<exists>d f st s' qs'. proc_signal_handle_pending writable p frame s = Some (d, f, st, s')
           \<and> sched_wf s' qs' \<and> p \<notin> queued qs' \<and> settled d p s s'"
proof -
  have idle: "settled PROC_SIGNAL_DELIVERY_NONE p s s" by (simp add: settled_def)
  show ?thesis
  proof (cases "frame = None \<or> \<not> p_user_mode (pinfo s p) \<or> \<not> proc_signal_pending p s")
    case True
    then have "proc_signal_handle_pending writable p frame s = Some (PROC_SIGNAL_DELIVERY_NONE, frame, [], s)"
      by (auto simp: proc_signal_handle_pending_def split: option.splits)
    then show ?thesis using idle assms(1,2) by blast
  next
    case False
    then obtain f where f: "frame = Some f" by auto
    obtain d f' st s' qs' where r: "handle_pending_loop writable p f s = Some (d, f', st, s')"
      "sched_wf s' qs'" "p \<notin> queued qs'" "settled d p s s'"
      using handle_pending_settled[OF assms, of writable f] by blast
    have "proc_signal_handle_pending writable p frame s = Some (d, Some f', st, s')"
      using False f r(1) assms(4) by (simp add: proc_signal_handle_pending_def)
    then show ?thesis using r by blast
  qed
qed

theorem proc_signal_handle_pending_total_witness:
  "\<exists>d f st s' qs'. proc_signal_handle_pending (\<lambda>_ _. True) 7 (Some zero_cpu) demo_signalled = Some (d, f, st, s')
     \<and> sched_wf s' qs' \<and> settled d 7 demo_signalled s'"
proof -
  have nq: "7 \<notin> queued demo_qs" by (auto simp: queued_def demo_qs_def)
  have h: "7 = current demo_signalled" "7 \<noteq> kernel_process_info" "p_parent (pinfo demo_signalled 7) \<noteq> Some 7"
    "p_state (pinfo demo_signalled 7) \<noteq> PROC_STATE_STOPPED"
    by (simp_all add: demo_signalled_views kernel_process_info_def)
  obtain d f st s' qs' where
    "proc_signal_handle_pending (\<lambda>_ _. True) 7 (Some zero_cpu) demo_signalled = Some (d, f, st, s')"
    "sched_wf s' qs'" "settled d 7 demo_signalled s'"
    using proc_signal_handle_pending_total[OF demo_signalled_wf nq h, of "\<lambda>_ _. True" "Some zero_cpu"]
    by blast
  then show ?thesis by blast
qed



text \<open>
  C11. With \<^verbatim>\<open>SA_SIGINFO\<close> the restorer's address is stored over the \<^verbatim>\<open>siginfo_t\<close> written just before: it
  lands at offset 32, on \<^verbatim>\<open>si_pid\<close> and \<^verbatim>\<open>si_uid\<close>, and the handler starts with a stack pointer that is a
  multiple of 16 where the calling convention wants 8 modulo 16 (which handlers without it get).
\<close>

theorem siginfo_overwritten_by_restorer:
  assumes "enter_handler writable p signo action frame s = Some (PROC_SIGNAL_DELIVERY_HANDLED, f, st, s1)"
  shows "if sa_flags action AND SA_SIGINFO \<noteq> 0
         then (\<exists>b fr info. st = [StoreFrame (b + 40) fr, StoreInfo b info, StoreWord (b + 32) (sa_restorer action)])
              \<and> rsp f AND 0xF = 0
         else (\<exists>b fr. st = [StoreFrame b fr, StoreWord (b - 8) (sa_restorer action)]) \<and> rsp f AND 0xF = 8"
proof (cases "sa_flags action AND SA_SIGINFO \<noteq> 0")
  case True
  then have e: "f = frame\<lparr>rsp := restorer_slot True (rsp frame), rip := of_nat (sa_handler action),
      rdi := of_int signo, rsi := payload_base True (rsp frame), rdx := frame_base True (rsp frame),
      rcx := 0, r8 := 0, r9 := 0, rax := EINTR_RAX\<rparr>"
    "\<exists>fr info. st = [StoreFrame (frame_base True (rsp frame)) fr, StoreInfo (payload_base True (rsp frame)) info,
        StoreWord (restorer_slot True (rsp frame)) (sa_restorer action)]"
    using assms by (auto simp: enter_handler_def Let_def split: if_splits)
  have "restorer_slot True (rsp frame) = payload_base True (rsp frame) + 32"
    "frame_base True (rsp frame) = payload_base True (rsp frame) + 40"
    by (simp_all add: restorer_slot_def frame_base_def SIGINFO_SIZE_def)
  moreover have "(payload_base True (rsp frame) + 32) AND 0xF = 0"
    unfolding payload_base_def by (rule align16_offset)
  ultimately show ?thesis using True e by auto
next
  case False
  then have e: "f = frame\<lparr>rsp := restorer_slot False (rsp frame), rip := of_nat (sa_handler action),
      rdi := of_int signo, rsi := 0, rdx := 0, rcx := 0, r8 := 0, r9 := 0, rax := EINTR_RAX\<rparr>"
    "\<exists>fr. st = [StoreFrame (frame_base False (rsp frame)) fr,
        StoreWord (restorer_slot False (rsp frame)) (sa_restorer action)]"
    using assms by (auto simp: enter_handler_def Let_def split: if_splits)
  have "(payload_base False (rsp frame) - 8) AND 0xF = 8"
    unfolding payload_base_def by (rule align16_offset)
  then show ?thesis using False e by (auto simp: restorer_slot_def frame_base_def)
qed

theorem siginfo_overwritten_by_restorer_witness:
  "\<exists>f st s1 b fr info.
     enter_handler (\<lambda>_ _. True) 7 14 \<lparr>sa_handler = 4096, sa_mask = 0, sa_flags = 4, sa_restorer = 8192\<rparr>
       zero_cpu demo_signalled = Some (PROC_SIGNAL_DELIVERY_HANDLED, f, st, s1)
     \<and> st = [StoreFrame (b + 40) fr, StoreInfo b info, StoreWord (b + 32) 8192]"
proof -
  let ?act = "\<lparr>sa_handler = 4096, sa_mask = 0, sa_flags = 4, sa_restorer = 8192\<rparr>"
  obtain f st s1 where e: "enter_handler (\<lambda>_ _. True) 7 14 ?act zero_cpu demo_signalled
      = Some (PROC_SIGNAL_DELIVERY_HANDLED, f, st, s1)"
    by (simp add: enter_handler_def Let_def)
  then show ?thesis using siginfo_overwritten_by_restorer[OF e] by (auto simp: SA_SIGINFO_def)
qed

end
