(* ===== verification/Sync.thy ===== *)
theory Sync
  imports Proc_Life
begin

text \<open>
  Sleeping locks: \<^verbatim>\<open>kmutex.c\<close>, \<^verbatim>\<open>kcondvar.c\<close>, \<^verbatim>\<open>ksemaphore.c\<close> and \<^verbatim>\<open>krwlock.c\<close> of \<^verbatim>\<open>src/kernel/proc\<close>.

  Mutexes and condition variables keep their waiters in the same kind of linked list of allocated
  nodes (\<open>waitq\<close>), which implements the FIFO contract \<open>fifo_queue\<close>. A call that may block is modelled by
  its turns: a turn runs under the lock until the code returns or parks the process; the next turn
  starts when the process is woken. Node allocation goes through the allocator's answers \<open>kmem\<close>.
  \<^verbatim>\<open>current\<close> is never \<^verbatim>\<open>NULL\<close> (it is statically initialised and only ever assigned a process).
\<close>

section \<open>Waiter lists\<close>

record waitq =
  wq_next :: "ptr \<Rightarrow> ptr option"
  wq_proc :: "ptr \<Rightarrow> ptr"
  waiters_head :: "ptr option"
  waiters_tail :: "ptr option"

definition empty_waitq :: waitq where
  "empty_waitq = \<lparr>wq_next = (\<lambda>_. None), wq_proc = (\<lambda>_. 0), waiters_head = None, waiters_tail = None\<rparr>"

text \<open>\<^verbatim>\<open>kmutex_enqueue_waiter\<close> and \<^verbatim>\<open>kcondvar_enqueue\<close>, with the preceding \<^verbatim>\<open>node->proc = current\<close>.\<close>

definition waitq_enqueue :: "ptr \<times> ptr \<Rightarrow> waitq \<Rightarrow> waitq" where
  "waitq_enqueue np q =
     (case np of (node, proc) \<Rightarrow>
        let q1 = q\<lparr>wq_proc := (wq_proc q)(node := proc), wq_next := (wq_next q)(node := None)\<rparr>;
            q2 = (case waiters_tail q1 of
                    Some t \<Rightarrow> q1\<lparr>wq_next := (wq_next q1)(t := Some node)\<rparr>
                  | None \<Rightarrow> q1\<lparr>waiters_head := Some node\<rparr>)
        in q2\<lparr>waiters_tail := Some node\<rparr>)"

text \<open>\<^verbatim>\<open>kmutex_dequeue_waiter\<close> and \<^verbatim>\<open>kcondvar_dequeue\<close>: the node and the process in it.\<close>

definition waitq_dequeue :: "waitq \<Rightarrow> (ptr \<times> ptr) option \<times> waitq" where
  "waitq_dequeue q =
     (case waiters_head q of
        None \<Rightarrow> (None, q)
      | Some node \<Rightarrow>
          (let q1 = q\<lparr>waiters_head := wq_next q node\<rparr>;
               q2 = (if waiters_head q1 = None then q1\<lparr>waiters_tail := None\<rparr> else q1)
           in (Some (node, wq_proc q node), q2)))"

section \<open>Mutexes\<close>

record kmutex =
  owner :: "ptr option"
  m_waiters :: waitq

definition kmutex_init :: kmutex where
  "kmutex_init = \<lparr>owner = None, m_waiters = empty_waitq\<rparr>"

definition set_errno :: "errno option \<Rightarrow> sched \<Rightarrow> sched" where
  "set_errno e s = upd (current s) (p_err_no_update (\<lambda>_. e)) s"

text \<open>One turn of the loop of \<^verbatim>\<open>kmutex_lock\<close>; \<^verbatim>\<open>pending_node\<close> is \<^verbatim>\<open>NULL\<close> whenever a turn starts.\<close>

datatype 'a turn = Done 'a | Park

definition kmutex_lock_turn ::
    "kmutex \<Rightarrow> kmem \<Rightarrow> sched \<Rightarrow> (errno + unit) turn \<times> kmutex \<times> kmem \<times> sched" where
  "kmutex_lock_turn m mem s =
     (if owner m = None
      then (Done (Inr ()), m\<lparr>owner := Some (current s)\<rparr>, mem, set_errno None s)
      else if owner m = Some (current s)
      then (Done (Inl EDEADLK), m, mem, set_errno (Some EDEADLK) s)
      else case kmalloc_obj mem of
             (None, mem') \<Rightarrow> (Done (Inl ENOMEM), m, mem', set_errno (Some ENOMEM) s)
           | (Some node, mem') \<Rightarrow>
               (Park, m\<lparr>m_waiters := waitq_enqueue (node, current s) (m_waiters m)\<rparr>, mem',
                proc_request_yield (set_state (current s) PROC_STATE_WAITING s)))"

definition kmutex_trylock :: "kmutex \<Rightarrow> sched \<Rightarrow> bool \<times> kmutex \<times> sched" where
  "kmutex_trylock m s =
     (if owner m = None then (True, m\<lparr>owner := Some (current s)\<rparr>, set_errno None s)
      else (False, m, s))"

definition kmutex_unlock ::
    "kmutex \<Rightarrow> kmem \<Rightarrow> sched \<Rightarrow> ((errno + unit) \<times> kmutex \<times> kmem \<times> sched) option" where
  "kmutex_unlock m mem s =
     (if owner m \<noteq> Some (current s) then Some (Inl EPERM, m, mem, set_errno (Some EPERM) s)
      else case waitq_dequeue (m_waiters m) of
             (None, q) \<Rightarrow> Some (Inr (), m\<lparr>owner := None, m_waiters := q\<rparr>, mem, set_errno None s)
           | (Some (node, nx), q) \<Rightarrow>
               map_option (\<lambda>s'. (Inr (), m\<lparr>owner := None, m_waiters := q\<rparr>, kfree_obj node mem,
                                 set_errno None s'))
                 (proc_mark_ready nx (set_state nx PROC_STATE_READY s)))"

section \<open>Condition variables\<close>

text \<open>
  \<^verbatim>\<open>kcondvar_wait\<close> up to the point where the process sleeps: it parks itself and then releases the
  mutex. After the wake-up the caller's state is set back to running and the mutex is taken again by
  \<^verbatim>\<open>kmutex_lock\<close> turns until one succeeds. \<open>None\<close> in the first component means that no node could be
  allocated, in which case the call returns at once, still holding the mutex.
\<close>

definition kcondvar_wait_park ::
    "waitq \<Rightarrow> kmutex \<Rightarrow> kmem \<Rightarrow> sched \<Rightarrow> (bool \<times> waitq \<times> kmutex \<times> kmem \<times> sched) option" where
  "kcondvar_wait_park cv m mem s =
     (case kmalloc_obj mem of
        (None, mem') \<Rightarrow> Some (False, cv, m, mem', set_errno (Some ENOMEM) s)
      | (Some node, mem') \<Rightarrow>
          (let c = current s;
               s1 = set_state c PROC_STATE_WAITING s;
               cv' = waitq_enqueue (node, c) cv
           in map_option (\<lambda>(r, m', mem'', s2). (True, cv', m', mem'', proc_request_yield s2))
                (kmutex_unlock m mem' s1)))"

definition kcondvar_resume :: "sched \<Rightarrow> sched" where
  "kcondvar_resume s = set_state (current s) PROC_STATE_RUNNING s"

definition kcondvar_signal :: "waitq \<Rightarrow> kmem \<Rightarrow> sched \<Rightarrow> (waitq \<times> kmem \<times> sched) option" where
  "kcondvar_signal cv mem s =
     (case waitq_dequeue cv of
        (None, cv') \<Rightarrow> Some (cv', mem, s)
      | (Some (node, p), cv') \<Rightarrow>
          map_option (\<lambda>s'. (cv', kfree_obj node mem, s'))
            (if p = current s then Some (set_state p PROC_STATE_RUNNING s) else proc_mark_ready p s))"

partial_function (option) kcondvar_broadcast :: "waitq \<Rightarrow> kmem \<Rightarrow> sched \<Rightarrow> (waitq \<times> kmem \<times> sched) option" where
  "kcondvar_broadcast cv mem s =
     (case fst (waitq_dequeue cv) of
        None \<Rightarrow> Some (snd (waitq_dequeue cv), mem, s)
      | Some np \<Rightarrow>
          Option.bind (proc_mark_ready (snd np) (set_state (snd np) PROC_STATE_READY s))
            (\<lambda>s'. kcondvar_broadcast (snd (waitq_dequeue cv)) (kfree_obj (fst np) mem) s'))"

section \<open>Semaphores\<close>

text \<open>The parts of the semaphore operations that run with \<^verbatim>\<open>sem->lock\<close> held. \<open>Park\<close> is a wait on
  \<^verbatim>\<open>sem->cond\<close>; the boolean of \<open>ksem_post\<close> says that \<^verbatim>\<open>sem->cond\<close> is signalled.\<close>

definition ksem_initialize :: "int \<Rightarrow> int" where
  "ksem_initialize v = s64 v"

definition ksem_trywait :: "int \<Rightarrow> bool \<times> int" where
  "ksem_trywait n = (if n > 0 then (True, s64 (n - 1)) else (False, n))"

definition ksem_wait_turn :: "int \<Rightarrow> unit turn \<times> int" where
  "ksem_wait_turn n = (if n = 0 then (Park, n) else (Done (), s64 (n - 1)))"

definition ksem_post :: "int \<Rightarrow> bool \<times> int" where
  "ksem_post n = (True, s64 (n + 1))"

section \<open>Read-write locks\<close>

record krwlock =
  readers :: nat
  writers_waiting :: nat
  writer_active :: bool

datatype cond_action = NoSignal | SignalWriters | BroadcastReaders

definition krwlock_initialize :: krwlock where
  "krwlock_initialize = \<lparr>readers = 0, writers_waiting = 0, writer_active = False\<rparr>"

definition krwlock_rdlock_turn :: "krwlock \<Rightarrow> unit turn \<times> krwlock" where
  "krwlock_rdlock_turn l =
     (if writer_active l \<or> writers_waiting l > 0 then (Park, l)
      else (Done (), l\<lparr>readers := u32 (readers l + 1)\<rparr>))"

definition krwlock_tryrdlock :: "krwlock \<Rightarrow> bool \<times> krwlock" where
  "krwlock_tryrdlock l =
     (if \<not> writer_active l \<and> writers_waiting l = 0 then (True, l\<lparr>readers := u32 (readers l + 1)\<rparr>)
      else (False, l))"

definition krwlock_rdunlock :: "krwlock \<Rightarrow> cond_action \<times> krwlock" where
  "krwlock_rdunlock l =
     (let l1 = (if readers l > 0 then l\<lparr>readers := readers l - 1\<rparr> else l)
      in (if readers l1 = 0 \<and> writers_waiting l1 > 0 then SignalWriters else NoSignal, l1))"

definition krwlock_wrlock_enter :: "krwlock \<Rightarrow> krwlock" where
  "krwlock_wrlock_enter l = l\<lparr>writers_waiting := u32 (writers_waiting l + 1)\<rparr>"

definition krwlock_wrlock_turn :: "krwlock \<Rightarrow> unit turn \<times> krwlock" where
  "krwlock_wrlock_turn l =
     (if writer_active l \<or> readers l > 0 then (Park, l)
      else (Done (), l\<lparr>writers_waiting := u32 (writers_waiting l + 2 ^ 32 - 1), writer_active := True\<rparr>))"

definition krwlock_trywrlock :: "krwlock \<Rightarrow> bool \<times> krwlock" where
  "krwlock_trywrlock l =
     (if \<not> writer_active l \<and> readers l = 0 then (True, l\<lparr>writer_active := True\<rparr>) else (False, l))"

definition krwlock_wrunlock :: "krwlock \<Rightarrow> cond_action \<times> krwlock" where
  "krwlock_wrunlock l =
     (let l1 = l\<lparr>writer_active := False\<rparr>
      in (if writers_waiting l1 > 0 then SignalWriters else BroadcastReaders, l1))"

section \<open>Systems of processes using a lock\<close>

text \<open>
  A mutex shared by processes: every turn is taken by whatever process is current, and between turns
  the scheduler may do anything. \<open>holds\<close> is a ghost: who has been told it has the lock and has not
  unlocked.
\<close>

record msys =
  mx :: kmutex
  mmem :: kmem
  msched :: sched
  holds :: "ptr set"

inductive mutex_step :: "msys \<Rightarrow> msys \<Rightarrow> bool" where
  lock_ok: "kmutex_lock_turn (mx S) (mmem S) (msched S) = (Done (Inr ()), m, mem, s) \<Longrightarrow>
     mutex_step S \<lparr>mx = m, mmem = mem, msched = s, holds = insert (current (msched S)) (holds S)\<rparr>"
| lock_no: "kmutex_lock_turn (mx S) (mmem S) (msched S) = (r, m, mem, s) \<Longrightarrow> r \<noteq> Done (Inr ()) \<Longrightarrow>
     mutex_step S \<lparr>mx = m, mmem = mem, msched = s, holds = holds S\<rparr>"
| trylock: "kmutex_trylock (mx S) (msched S) = (b, m, s) \<Longrightarrow>
     mutex_step S \<lparr>mx = m, mmem = mmem S, msched = s,
                   holds = (if b then insert (current (msched S)) (holds S) else holds S)\<rparr>"
| unlock: "kmutex_unlock (mx S) (mmem S) (msched S) = Some (r, m, mem, s) \<Longrightarrow>
     mutex_step S \<lparr>mx = m, mmem = mem, msched = s,
                   holds = (if r = Inr () then holds S - {current (msched S)} else holds S)\<rparr>"
| other: "mutex_step S (S\<lparr>msched := s\<rparr>)"

text \<open>
  A semaphore and the numbers of acquisitions and posts since it was initialised.
\<close>

inductive sem_step :: "int \<times> nat \<times> nat \<Rightarrow> int \<times> nat \<times> nat \<Rightarrow> bool" where
  sem_try: "ksem_trywait n = (b, n') \<Longrightarrow> sem_step (n, acq, posts) (n', if b then acq + 1 else acq, posts)"
| sem_wait: "ksem_wait_turn n = (r, n') \<Longrightarrow> sem_step (n, acq, posts) (n', if r = Done () then acq + 1 else acq, posts)"
| sem_post: "n < 2 ^ 63 - 1 \<Longrightarrow> ksem_post n = (b, n') \<Longrightarrow> sem_step (n, acq, posts) (n', acq, posts + 1)"

text \<open>
  A read-write lock with the numbers of read holds, write holds and writers inside \<^verbatim>\<open>krwlock_wrlock\<close>
  that have not got the lock. Processes unlock only what they hold, and fewer than 2^32 - 1 processes
  use the lock.
\<close>

record rwsys =
  rwl :: krwlock
  rd_holds :: nat
  wr_holds :: nat
  wr_inside :: nat

inductive rw_step :: "rwsys \<Rightarrow> rwsys \<Rightarrow> bool" where
  rd: "krwlock_rdlock_turn (rwl S) = (r, l) \<Longrightarrow> rd_holds S < 2 ^ 32 - 1 \<Longrightarrow>
     rw_step S (S\<lparr>rwl := l, rd_holds := (if r = Done () then rd_holds S + 1 else rd_holds S)\<rparr>)"
| tryrd: "krwlock_tryrdlock (rwl S) = (b, l) \<Longrightarrow> rd_holds S < 2 ^ 32 - 1 \<Longrightarrow>
     rw_step S (S\<lparr>rwl := l, rd_holds := (if b then rd_holds S + 1 else rd_holds S)\<rparr>)"
| rdun: "krwlock_rdunlock (rwl S) = (a, l) \<Longrightarrow> rd_holds S > 0 \<Longrightarrow>
     rw_step S (S\<lparr>rwl := l, rd_holds := rd_holds S - 1\<rparr>)"
| enter: "krwlock_wrlock_enter (rwl S) = l \<Longrightarrow> wr_inside S < 2 ^ 32 - 1 \<Longrightarrow>
     rw_step S (S\<lparr>rwl := l, wr_inside := wr_inside S + 1\<rparr>)"
| wr: "krwlock_wrlock_turn (rwl S) = (r, l) \<Longrightarrow> wr_inside S > 0 \<Longrightarrow>
     rw_step S (S\<lparr>rwl := l, wr_inside := (if r = Done () then wr_inside S - 1 else wr_inside S),
                  wr_holds := (if r = Done () then wr_holds S + 1 else wr_holds S)\<rparr>)"
| trywr: "krwlock_trywrlock (rwl S) = (b, l) \<Longrightarrow>
     rw_step S (S\<lparr>rwl := l, wr_holds := (if b then wr_holds S + 1 else wr_holds S)\<rparr>)"
| wrun: "krwlock_wrunlock (rwl S) = (a, l) \<Longrightarrow> wr_holds S > 0 \<Longrightarrow>
     rw_step S (S\<lparr>rwl := l, wr_holds := wr_holds S - 1\<rparr>)"

definition rw_inv :: "rwsys \<Rightarrow> bool" where
  "rw_inv S \<longleftrightarrow> readers (rwl S) = rd_holds S \<and> writers_waiting (rwl S) = wr_inside S
     \<and> wr_holds S = (if writer_active (rwl S) then 1 else 0)
     \<and> \<not> (writer_active (rwl S) \<and> readers (rwl S) > 0)
     \<and> rd_holds S < 2 ^ 32 \<and> wr_inside S < 2 ^ 32"

section \<open>Waiter lists are FIFO queues\<close>

definition wq_rep :: "waitq \<Rightarrow> ptr list \<Rightarrow> bool" where
  "wq_rep q ns \<longleftrightarrow> lseg (wq_next q) (waiters_head q) ns None \<and> distinct ns \<and> waiters_tail q = tail_of ns"

definition wq_ok :: "waitq \<Rightarrow> bool" where
  "wq_ok q \<longleftrightarrow> (\<exists>ns. wq_rep q ns)"

definition wq_nodes :: "waitq \<Rightarrow> ptr list" where
  "wq_nodes q = (THE ns. wq_rep q ns)"

definition wq_content :: "waitq \<Rightarrow> (ptr \<times> ptr) list" where
  "wq_content q = map (\<lambda>n. (n, wq_proc q n)) (wq_nodes q)"

definition wq_can :: "ptr \<times> ptr \<Rightarrow> waitq \<Rightarrow> bool" where
  "wq_can np q \<longleftrightarrow> fst np \<notin> set (wq_nodes q)"

lemma wq_nodes_eq: "wq_rep q ns \<Longrightarrow> wq_nodes q = ns"
  unfolding wq_nodes_def by (rule the_equality) (auto simp: wq_rep_def dest: lseg_det)

lemma wq_ok_rep: "wq_ok q \<Longrightarrow> wq_rep q (wq_nodes q)"
  by (auto simp: wq_ok_def wq_nodes_eq)

lemma wq_enqueue_rep:
  assumes rep: "wq_rep q ns" and n: "n \<notin> set ns"
  shows "wq_rep (waitq_enqueue (n, p) q) (ns @ [n])"
    and "wq_proc (waitq_enqueue (n, p) q) = (wq_proc q)(n := p)"
proof -
  show "wq_rep (waitq_enqueue (n, p) q) (ns @ [n])"
  proof (cases ns rule: rev_cases)
    case Nil
    then show ?thesis using rep by (simp add: wq_rep_def waitq_enqueue_def tail_of_def Let_def)
  next
    case (snoc ys z)
    then show ?thesis using rep n
      by (auto simp: wq_rep_def waitq_enqueue_def tail_of_def Let_def lseg_append)
  qed
  show "wq_proc (waitq_enqueue (n, p) q) = (wq_proc q)(n := p)"
    by (simp add: waitq_enqueue_def Let_def split: option.splits)
qed

lemma wq_dequeue_rep:
  assumes "wq_rep q (n # ns)"
  shows "\<exists>q'. waitq_dequeue q = (Some (n, wq_proc q n), q') \<and> wq_rep q' ns \<and> wq_proc q' = wq_proc q"
proof -
  have "wq_next q n = None \<longleftrightarrow> ns = []" using assms by (cases ns) (auto simp: wq_rep_def)
  then show ?thesis using assms
    by (auto simp: waitq_dequeue_def wq_rep_def Let_def tail_of_def)
qed

interpretation wq: fifo_queue wq_content wq_can waitq_enqueue waitq_dequeue wq_ok
proof (unfold_locales, goal_cases)
  case (1 q np)
  obtain n p where np: "np = (n, p)" by (cases np)
  note r = wq_ok_rep[OF 1(1)]
  have n: "n \<notin> set (wq_nodes q)" using 1 np by (simp add: wq_can_def)
  show ?case using wq_nodes_eq[OF wq_enqueue_rep(1)[OF r n]] wq_enqueue_rep(2)[OF r n] n np
    by (auto simp: wq_content_def)
next
  case (2 q np)
  then show ?case using wq_enqueue_rep(1)[OF wq_ok_rep[OF 2(1)], of "fst np" "snd np"]
    by (auto simp: wq_can_def wq_ok_def)
next
  case (3 q)
  then have "waiters_head q = None" using wq_ok_rep[of q] by (auto simp: wq_content_def wq_rep_def)
  then show ?case by (simp add: waitq_dequeue_def)
next
  case (4 q x xs)
  then obtain n ns where ns: "wq_nodes q = n # ns" "x = (n, wq_proc q n)" "xs = map (\<lambda>n. (n, wq_proc q n)) ns"
    by (auto simp: wq_content_def)
  then obtain q' where "waitq_dequeue q = (Some (n, wq_proc q n), q')" "wq_rep q' ns" "wq_proc q' = wq_proc q"
    using wq_dequeue_rep[of q n ns] wq_ok_rep[OF 4(1)] by auto
  then show ?case using ns wq_nodes_eq[of q' ns] by (simp add: wq_content_def)
next
  case (5 q)
  show ?case
  proof (cases "wq_nodes q")
    case Nil
    then have "waiters_head q = None" using wq_ok_rep[OF 5] by (auto simp: wq_rep_def)
    then show ?thesis using 5 by (simp add: waitq_dequeue_def)
  next
    case (Cons n ns)
    then show ?thesis using wq_dequeue_rep[of q n ns] wq_ok_rep[OF 5] by (auto simp: wq_ok_def)
  qed
qed

section \<open>Properties\<close>

definition mutex_inv :: "msys \<Rightarrow> bool" where
  "mutex_inv S \<longleftrightarrow> holds S = set_option (owner (mx S)) \<and> kmem_ok (mmem S) \<and> wq_ok (m_waiters (mx S))
     \<and> set (wq_nodes (m_waiters (mx S))) \<subseteq> set (live (mmem S))"

definition demo_mutex :: msys where
  "demo_mutex = \<lparr>mx = kmutex_init, mmem = \<lparr>live = [], answers = [Some 100, Some 101]\<rparr>, msched = demo_exiting,
     holds = {}\<rparr>"

lemma kfree_ok: "kmem_ok m \<Longrightarrow> kmem_ok (kfree_obj a m)"
  by (auto simp: kmem_ok_def kfree_obj_def dest: in_set_takeD notin_set_remove1)

lemma empty_waitq_nodes [simp]: "wq_ok empty_waitq" "wq_nodes empty_waitq = []"
  by (auto simp: wq_ok_def wq_rep_def empty_waitq_def tail_of_def intro!: wq_nodes_eq exI[of _ "[]"])

lemma lock_turn_inv:
  assumes inv: "kmem_ok mem" "wq_ok (m_waiters m)" "set (wq_nodes (m_waiters m)) \<subseteq> set (live mem)"
    and r: "kmutex_lock_turn m mem s = (t, m', mem', s')"
  shows "kmem_ok mem' \<and> wq_ok (m_waiters m') \<and> set (wq_nodes (m_waiters m')) \<subseteq> set (live mem')
           \<and> owner m' = (if t = Done (Inr ()) then Some (current s) else owner m)
           \<and> (t = Done (Inr ()) \<longrightarrow> owner m = None)"
proof (cases "owner m = None \<or> owner m = Some (current s)")
  case True
  then have "m_waiters m' = m_waiters m" "mem' = mem"
    "owner m' = (if t = Done (Inr ()) then Some (current s) else owner m)"
    "t = Done (Inr ()) \<longrightarrow> owner m = None"
    using r by (auto simp: kmutex_lock_turn_def)
  then show ?thesis using inv by simp
next
  case False
  show ?thesis
  proof (cases "kmalloc_obj mem")
    case (Pair a mem1)
    show ?thesis
    proof (cases a)
      case None
      then show ?thesis using False Pair r inv kmalloc_obj_ok[OF inv(1) Pair] kmalloc_obj_None[of mem mem1]
        by (auto simp: kmutex_lock_turn_def)
    next
      case (Some n)
      have n: "n \<notin> set (wq_nodes (m_waiters m))" using kmalloc_obj_fresh[OF inv(1)] Pair Some inv(3) by blast
      note e = wq_enqueue_rep(1)[OF wq_ok_rep[OF inv(2)] n, of "current s"]
      have "m_waiters m' = waitq_enqueue (n, current s) (m_waiters m)" "mem' = mem1" "t = Park" "owner m' = owner m"
        using False Pair Some r by (auto simp: kmutex_lock_turn_def)
      moreover have "wq_ok (waitq_enqueue (n, current s) (m_waiters m))" using e unfolding wq_ok_def by blast
      moreover have "set (wq_nodes (m_waiters m) @ [n]) \<subseteq> set (live mem1)"
        using kmalloc_obj_Some[of mem n mem1] Pair Some inv(3) by auto
      ultimately show ?thesis using kmalloc_obj_ok[OF inv(1) Pair] wq_nodes_eq[OF e] by simp
    qed
  qed
qed

lemma unlock_inv:
  assumes inv: "kmem_ok mem" "wq_ok (m_waiters m)" "set (wq_nodes (m_waiters m)) \<subseteq> set (live mem)"
    and r: "kmutex_unlock m mem s = Some (t, m', mem', s')"
  shows "kmem_ok mem' \<and> wq_ok (m_waiters m') \<and> set (wq_nodes (m_waiters m')) \<subseteq> set (live mem')
           \<and> (if t = Inr () then owner m = Some (current s) \<and> owner m' = None else owner m' = owner m)"
proof (cases "owner m \<noteq> Some (current s)")
  case True
  then show ?thesis using assms by (auto simp: kmutex_unlock_def)
next
  case False
  note rep = wq_ok_rep[OF inv(2)]
  show ?thesis
  proof (cases "wq_nodes (m_waiters m)")
    case Nil
    then have "waitq_dequeue (m_waiters m) = (None, m_waiters m)"
      using wq.deq_empty[OF inv(2)] by (simp add: wq_content_def)
    then show ?thesis using False r inv by (auto simp: kmutex_unlock_def)
  next
    case (Cons n ns)
    obtain q where q: "waitq_dequeue (m_waiters m) = (Some (n, wq_proc (m_waiters m) n), q)" "wq_rep q ns"
      using wq_dequeue_rep[of "m_waiters m" n ns] rep Cons by auto
    have "distinct (n # ns)" using rep Cons by (simp add: wq_rep_def)
    then have "set ns \<subseteq> set (remove1 n (live mem))" using inv(1,3) Cons
      by (auto simp: kmem_ok_def)
    then show ?thesis using False r q wq_nodes_eq[OF q(2)] kfree_ok[OF inv(1)]
      by (auto simp: kmutex_unlock_def wq_ok_def)
  qed
qed

lemma mutex_step_inv: "mutex_step S S' \<Longrightarrow> mutex_inv S \<Longrightarrow> mutex_inv S'"
proof (induction rule: mutex_step.induct)
  case (lock_ok S m mem s)
  then show ?case using lock_turn_inv[OF _ _ _ lock_ok.hyps] by (auto simp: mutex_inv_def)
next
  case (lock_no S r m mem s)
  then show ?case using lock_turn_inv[OF _ _ _ lock_no.hyps(1)] by (auto simp: mutex_inv_def)
next
  case (trylock S b m s)
  then show ?case by (auto simp: mutex_inv_def kmutex_trylock_def split: if_splits)
next
  case (unlock S r m mem s)
  then show ?case using unlock_inv[OF _ _ _ unlock.hyps] by (auto simp: mutex_inv_def split: if_splits)
next
  case (other S s)
  then show ?case by (simp add: mutex_inv_def)
qed

text \<open>
  C12. Mutual exclusion: whatever turns of lock, trylock and unlock the processes take, in whatever
  interleaving with the scheduler, at most one process holds the mutex, it is the recorded owner, and
  the waiter list stays a well-formed list of allocated nodes.
\<close>

theorem kmutex_mutual_exclusion:
  assumes "mutex_step\<^sup>*\<^sup>* S S'" "mutex_inv S"
  shows "mutex_inv S' \<and> holds S' = set_option (owner (mx S')) \<and> card (holds S') \<le> 1"
proof -
  have "mutex_inv S'" using assms by (induction rule: rtranclp_induct) (auto intro: mutex_step_inv)
  then show ?thesis by (cases "owner (mx S')") (auto simp: mutex_inv_def)
qed

theorem kmutex_mutual_exclusion_witness:
  "\<exists>S'. mutex_step\<^sup>*\<^sup>* demo_mutex S' \<and> holds S' = {2} \<and> card (holds S') \<le> 1"
proof -
  let ?s = "demo_exiting"
  let ?S = "\<lparr>mx = kmutex_init\<lparr>owner := Some 2\<rparr>, mmem = mmem demo_mutex, msched = set_errno None ?s, holds = {2}\<rparr>"
  have c: "current ?s = 2" by (simp add: demo_exiting_def)
  have "mutex_step demo_mutex ?S"
    using mutex_step.lock_ok[of demo_mutex "kmutex_init\<lparr>owner := Some 2\<rparr>" "mmem demo_mutex" "set_errno None ?s"]
    by (simp add: demo_mutex_def kmutex_lock_turn_def kmutex_init_def c)
  then have st: "mutex_step\<^sup>*\<^sup>* demo_mutex ?S" by blast
  have "mutex_inv demo_mutex"
    by (simp add: mutex_inv_def demo_mutex_def kmutex_init_def kmem_ok_def map_filter_simps)
  then show ?thesis using kmutex_mutual_exclusion[OF st] st by (intro exI[of _ ?S]) simp
qed


definition demo_locked :: kmutex where
  "demo_locked = \<lparr>owner = Some 2, m_waiters = waitq_enqueue (100, 1) empty_waitq\<rparr>"

lemma demo_locked_waiters:
  "wq_ok (m_waiters demo_locked)" "wq_content (m_waiters demo_locked) = [(100, 1)]"
proof -
  have "wq_can (100, 1) empty_waitq" by (simp add: wq_can_def)
  then show "wq_ok (m_waiters demo_locked)" "wq_content (m_waiters demo_locked) = [(100, 1)]"
    using wq.ok_enq[of empty_waitq "(100, 1)"] wq.content_enq[of empty_waitq "(100, 1)"]
    by (simp_all add: demo_locked_def wq_content_def)
qed


text \<open>
  \<^verbatim>\<open>kcondvar_signal\<close> wakes the process that has waited longest: it leaves the waiter list and joins
  the tail of its ready queue, its node is freed, and the scheduler's invariant holds.
\<close>

theorem kcondvar_signal_wakes_first:
  assumes "sched_wf s qs" "wq_ok cv" "wq_content cv = (node, p) # rest" "p \<noteq> current s"
    "p_state (pinfo s p) = PROC_STATE_WAITING"
  shows "\<exists>cv' s'. kcondvar_signal cv mem s = Some (cv', kfree_obj node mem, s')
           \<and> wq_content cv' = rest \<and> wq_ok cv' \<and> p_state (pinfo s' p) = PROC_STATE_READY
           \<and> sched_wf s' (qs(ready_prio s p := qs (ready_prio s p) @ [p]))"
proof -
  obtain q where q: "waitq_dequeue cv = (Some (node, p), q)" "wq_content q = rest"
    using wq.deq_hd[OF assms(2,3)] by (cases "waitq_dequeue cv") auto
  have ok: "wq_ok q" using wq.ok_deq[OF assms(2)] q by simp
  have "p \<notin> queued qs" using sched_wf_queued[OF assms(1)] assms(5) by simp
  then have "p \<notin> set (qs SLEEPQ)" by (rule not_queued) simp
  then have "remove1 p (qs SLEEPQ) = qs SLEEPQ" by (simp add: remove1_idem)
  then have "qs(SLEEPQ := remove1 p (qs SLEEPQ), ready_prio s p := qs (ready_prio s p) @ [p])
      = qs(ready_prio s p := qs (ready_prio s p) @ [p])" by simp
  then obtain s' where "proc_mark_ready p s = Some s'" "p_state (pinfo s' p) = PROC_STATE_READY"
    "sched_wf s' (qs(ready_prio s p := qs (ready_prio s p) @ [p]))"
    using mark_ready_wf_at[OF assms(1), of p] assms(5) by auto
  then show ?thesis using q ok assms(4) by (simp add: kcondvar_signal_def)
qed

theorem kcondvar_signal_wakes_first_witness:
  "\<exists>cv' s'. kcondvar_signal (m_waiters demo_locked) \<lparr>live = [100], answers = []\<rparr> demo_exiting
       = Some (cv', \<lparr>live = [], answers = []\<rparr>, s')
     \<and> p_state (pinfo s' 1) = PROC_STATE_READY"
proof -
  have "p_state (pinfo demo_exiting 1) = PROC_STATE_WAITING" "1 \<noteq> current demo_exiting"
    by (simp_all add: demo_exiting_def)
  then show ?thesis
    using kcondvar_signal_wakes_first[OF demo_exiting_wf demo_locked_waiters, of "\<lparr>live = [100], answers = []\<rparr>"]
    by (auto simp: kfree_obj_def)
qed

lemma sem_step_inv:
  assumes "sem_step a b" "fst a \<ge> 0" "fst a < 2 ^ 63" "fst a = v + int (snd (snd a)) - int (fst (snd a))"
  shows "fst b \<ge> 0 \<and> fst b < 2 ^ 63 \<and> fst b = v + int (snd (snd b)) - int (fst (snd b))"
  using assms
  by (induction rule: sem_step.induct)
     (auto simp: ksem_trywait_def ksem_wait_turn_def ksem_post_def s64_def split: if_splits)



lemma rw_step_inv: "rw_step S S' \<Longrightarrow> rw_inv S \<Longrightarrow> rw_inv S'"
  by (induction rule: rw_step.induct)
     (auto simp: rw_inv_def krwlock_rdlock_turn_def krwlock_tryrdlock_def krwlock_rdunlock_def
        krwlock_wrlock_enter_def krwlock_wrlock_turn_def krwlock_trywrlock_def krwlock_wrunlock_def Let_def
        u32_pred[simplified] split: if_splits)



end
