(* ===== verification/Scheduler.thy ===== *)
theory Scheduler
  imports Signal
begin

text \<open>
  The dispatcher: interval timers, \<^verbatim>\<open>proc_switch\<close> and \<^verbatim>\<open>proc_execute\<close> of \<^verbatim>\<open>src/kernel/proc/proc.c\<close>.

  \<^verbatim>\<open>proc_switch\<close> is modelled up to the register save areas: \<open>saved\<close> is each process's
  \<^verbatim>\<open>cpu_state\<close> (\<open>None\<close> for \<^verbatim>\<open>NULL\<close>), \<open>cr3\<close> the loaded address-space root, \<open>stores\<close> the stores that signal
  delivery made to user stacks. Switching kernel stacks (\<^verbatim>\<open>context_switch\<close>, the task-state segment,
  \<^verbatim>\<open>swapgs\<close>) is assembly and not part of the model. Time is the argument \<open>now\<close>.
\<close>

record cpu_sys =
  sch :: sched
  saved :: "ptr \<Rightarrow> cpu_state option"
  cr3 :: nat
  stores :: "user_store list"

section \<open>Interval timers\<close>

text \<open>The re-arming of an expired timer: \<open>None\<close> when it is switched off.\<close>

definition itimer_rearm :: "nat \<Rightarrow> nat \<Rightarrow> nat \<Rightarrow> nat option" where
  "itimer_rearm now expires interval =
     (if interval = 0 then None
      else let steps = (now - expires) div interval + 1;
               nx = u64 (expires + steps * interval)
           in if steps > (2 ^ 64 - 1) div interval then None
              else if nx \<le> now
              then (if 2 ^ 64 - 1 - now < interval then None else Some (now + interval))
              else Some nx)"

definition itimer_fire :: "nat \<Rightarrow> ptr \<Rightarrow> sched \<Rightarrow> sched option" where
  "itimer_fire now p s =
     (let t = p_itimer_real (pinfo s p) in
      if p = kernel_process_info \<or> \<not> it_active t \<or> it_expires_us t > now then Some s
      else case proc_signal_send p SIGALRM s of
             None \<Rightarrow> None
           | Some (r, s1) \<Rightarrow>
               Some (upd p (\<lambda>i. i\<lparr>p_itimer_real :=
                  (case itimer_rearm now (it_expires_us t) (it_interval_us t) of
                     None \<Rightarrow> (p_itimer_real i)\<lparr>it_active := False\<rparr>
                   | Some e \<Rightarrow> (p_itimer_real i)\<lparr>it_expires_us := e\<rparr>)\<rparr>) s1))"

fun check_itimers_slots :: "nat \<Rightarrow> ptr option list \<Rightarrow> sched \<Rightarrow> sched option" where
  "check_itimers_slots now [] s = Some s"
| "check_itimers_slots now (None # ts) s = check_itimers_slots now ts s"
| "check_itimers_slots now (Some p # ts) s =
     (case itimer_fire now p s of None \<Rightarrow> None | Some s' \<Rightarrow> check_itimers_slots now ts s')"

definition scheduler_check_itimers :: "nat \<Rightarrow> sched \<Rightarrow> sched option" where
  "scheduler_check_itimers now s = check_itimers_slots now (procs s) s"

section \<open>Switching\<close>

text \<open>The accounting of the time slice of the running process.\<close>

definition account_time :: "nat \<Rightarrow> sched \<Rightarrow> sched" where
  "account_time diff s =
     (if p_state (pinfo s (current s)) = PROC_STATE_RUNNING
      then upd (current s) (\<lambda>i. i\<lparr>p_exec_time := u64 (p_exec_time i + diff),
             p_time_slice := (if diff < p_time_slice i then p_time_slice i - diff else 0)\<rparr>) s
      else s)"

text \<open>What becomes of the process that is switched away from.\<close>

definition retire_previous :: "bool \<Rightarrow> sched \<Rightarrow> sched option" where
  "retire_previous to_sleep s =
     (let prev = current s; st = p_state (pinfo s prev) in
      if to_sleep then scheduler_sleep_enqueue prev (set_state prev PROC_STATE_SLEEPING s)
      else if st = PROC_STATE_ZOMBIE then Some s
      else if st = PROC_STATE_TERMINATED then Some (scheduler_cleanup_process prev s)
      else if st = PROC_STATE_RUNNING
      then Some (if prev \<noteq> kernel_process_info
                 then ready_queue_push prev (upd prev (\<lambda>i. i\<lparr>p_state := PROC_STATE_READY,
                        p_time_slice := p_quantum_us i\<rparr>) s)
                 else upd prev (\<lambda>i. i\<lparr>p_time_slice := p_quantum_us i\<rparr>) s)
      else Some s)"

text \<open>
  The choice of the next process: signals are delivered to the candidate first, and one that is
  stopped or killed by them is passed over.
\<close>

partial_function (option) pick_next ::
    "(64 word \<Rightarrow> 64 word \<Rightarrow> bool) \<Rightarrow> cpu_sys \<Rightarrow> cpu_sys option" where
  "pick_next writable k =
     Option.bind (ready_queue_pop_highest (sch k)) (\<lambda>pop.
       (let p = (case fst pop of None \<Rightarrow> kernel_process_info | Some p \<Rightarrow> p);
            s1 = (snd pop)\<lparr>current := p\<rparr>;
            frame = (case saved k p of None \<Rightarrow> zero_cpu | Some f \<Rightarrow> f)
        in Option.bind (proc_signal_handle_pending writable p (Some frame) s1) (\<lambda>h.
             let d = fst h; s2 = snd (snd (snd h)); st = p_state (pinfo s2 p);
                 k2 = k\<lparr>sch := s2, saved := (saved k)(p := fst (snd h)),
                        stores := stores k @ fst (snd (snd h))\<rparr>;
                 k3 = (if st = PROC_STATE_TERMINATED then k2\<lparr>sch := scheduler_cleanup_process p s2\<rparr> else k2)
             in if d = PROC_SIGNAL_DELIVERY_STOPPED \<and> p \<noteq> kernel_process_info then pick_next writable k2
                else if d = PROC_SIGNAL_DELIVERY_TERMINATED \<and> p \<noteq> kernel_process_info
                then pick_next writable k3
                else if (st = PROC_STATE_ZOMBIE \<or> st = PROC_STATE_TERMINATED) \<and> p \<noteq> kernel_process_info
                then pick_next writable k3
                else Some k2)))"

definition start_running :: "nat \<Rightarrow> cpu_sys \<Rightarrow> cpu_sys" where
  "start_running now k =
     (let s = sch k; p = current s;
          s1 = upd p (\<lambda>i. i\<lparr>p_state := PROC_STATE_RUNNING, p_dispatch_count := u64 (p_dispatch_count i + 1),
                            p_time_slice := p_quantum_us i, p_last_dispatch_us := now\<rparr>) s;
          root = p_address_space_root (pinfo s p)
      in k\<lparr>sch := s1, cr3 := (if root \<noteq> 0 then root else kernel_cr3 s)\<rparr>)"

text \<open>The frame that \<^verbatim>\<open>proc_switch\<close> returns to, together with the new system state.\<close>

definition proc_switch ::
    "(64 word \<Rightarrow> 64 word \<Rightarrow> bool) \<Rightarrow> nat \<Rightarrow> cpu_state option \<Rightarrow> cpu_sys \<Rightarrow> (cpu_state option \<times> cpu_sys) option" where
  "proc_switch writable now frame k =
     (let s0 = sch k;
          last = (if last_exec s0 = 0 then now else last_exec s0);
          diff = u64 (now + 2 ^ 64 - last);
          s1 = s0\<lparr>last_exec := now\<rparr>;
          c = current s1
      in case proc_signal_handle_pending writable c frame s1 of
           None \<Rightarrow> None
         | Some (d, frame', st, s2) \<Rightarrow>
             (let saved' = (case (saved k c, frame') of
                              (Some _, Some f) \<Rightarrow> (saved k)(c := Some f) | _ \<Rightarrow> saved k);
                  k2 = k\<lparr>saved := saved', stores := stores k @ st\<rparr>
              in case Option.bind (scheduler_wake_sleepers now s2) (scheduler_check_itimers now) of
                   None \<Rightarrow> None
                 | Some s3 \<Rightarrow>
                     (let to_sleep = act_sleep s3;
                          forced0 = act_force s3;
                          s4 = account_time diff (s3\<lparr>act_force := False, act_sleep := False\<rparr>);
                          forced = (forced0 \<or> p_state (pinfo s4 c) = PROC_STATE_TERMINATED)
                      in if \<not> forced \<and> p_state (pinfo s4 c) = PROC_STATE_RUNNING
                            \<and> p_time_slice (pinfo s4 c) > 0
                            \<and> ready_queue_highest_priority s4 \<le> p_priority (pinfo s4 c)
                         then Some (frame', k2\<lparr>sch := upd c (\<lambda>i. i\<lparr>p_last_dispatch_us := now\<rparr>) s4\<rparr>)
                         else case retire_previous to_sleep s4 of
                                None \<Rightarrow> None
                              | Some s5 \<Rightarrow>
                                  (case pick_next writable (k2\<lparr>sch := s5\<rparr>) of
                                     None \<Rightarrow> None
                                   | Some k3 \<Rightarrow>
                                       (let k4 = start_running now k3
                                        in Some (saved k4 (current (sch k4)), k4))))))"

definition proc_execute :: "ptr \<Rightarrow> sched \<Rightarrow> sched" where
  "proc_execute p s =
     ready_queue_push p (upd p (\<lambda>i. i\<lparr>p_state := PROC_STATE_READY, p_time_slice := p_quantum_us i,
                                      p_last_dispatch_us := 0\<rparr>) s)"

section \<open>Popping under the invariant\<close>

lemma pop_at_wf:
  assumes "sched_wf s qs" "k \<le> 4"
  shows "ready_queue_pop_at_priority k s =
     (case qs k of [] \<Rightarrow> Some (None, s) | p # xs \<Rightarrow> Some (Some p, rq_unlink_head k p s))"
proof (cases "qs k")
  case Nil
  then have "rq_head s k = None" using queues_repD(1)[OF sched_wfD(1)[OF assms(1)], of k] assms(2) by auto
  then show ?thesis using Nil by (subst ready_queue_pop_at_priority.simps) simp
next
  case (Cons p xs)
  have h: "rq_head s k = Some p" using Cons queues_repD(1)[OF sched_wfD(1)[OF assms(1)], of k] assms(2) by auto
  have "p_state (pinfo (rq_unlink_head k p s) p) = PROC_STATE_READY"
    using links_onlyD(1)[OF rq_unlink_head_rep(2)[OF sched_wfD(1)[OF assms(1)] assms(2) Cons]]
      sched_wfD(2)[OF assms(1,2), of p] Cons by simp
  then show ?thesis using h Cons assms(2)
    by (subst ready_queue_pop_at_priority.simps) (simp add: Let_def PROC_PRIORITY_MAX_def)
qed

text \<open>The result of popping the first non-empty queue of a list of priorities.\<close>

lemma pop_from_wf:
  assumes wf: "sched_wf s qs" and ks: "\<forall>k\<in>set ks. k \<le> 4"
  shows "(\<forall>k\<in>set ks. qs k = []) \<and> ready_queue_pop_from ks s = Some (None, s) \<or>
     (\<exists>as k bs p xs s'. ks = as @ k # bs \<and> (\<forall>j\<in>set as. qs j = []) \<and> qs k = p # xs
        \<and> ready_queue_pop_from ks s = Some (Some p, s') \<and> sched_wf s' (qs(k := xs)) \<and> links_only s s'
        \<and> p \<notin> queued (qs(k := xs)))"
  using ks
proof (induction ks)
  case (Cons k ks)
  show ?case
  proof (cases "qs k")
    case Nil
    then have step: "ready_queue_pop_from (k # ks) s = ready_queue_pop_from ks s"
      using pop_at_wf[OF wf, of k] Cons.prems by simp
    have le: "\<forall>k\<in>set ks. k \<le> 4" using Cons.prems by simp
    from Cons.IH[OF le] consider
      (none) "\<forall>k\<in>set ks. qs k = []" "ready_queue_pop_from ks s = Some (None, s)"
    | (some) as k' bs p xs s' where "ks = as @ k' # bs" "\<forall>j\<in>set as. qs j = []" "qs k' = p # xs"
        "ready_queue_pop_from ks s = Some (Some p, s')" "sched_wf s' (qs(k' := xs))" "links_only s s'"
        "p \<notin> queued (qs(k' := xs))" by blast
    then show ?thesis
    proof cases
      case none
      then show ?thesis using Nil step by simp
    next
      case some
      have "k # ks = (k # as) @ k' # bs" "\<forall>j\<in>set (k # as). qs j = []" using some(1,2) Nil by simp_all
      then show ?thesis using some(3-7) step by metis
    qed
  next
    case (Cons p xs)
    have k: "k \<le> 4" using Cons.prems by simp
    note u = rq_unlink_head_rep[OF sched_wfD(1)[OF wf] k Cons]
    have K: "k \<noteq> SLEEPQ" using k by (auto simp: SLEEPQ_def)
    have "sched_wf (rq_unlink_head k p s) (qs(k := xs))"
      by (rule sched_wf_unlink[OF wf u(1,2)]) (use Cons K sched_wfD(5)[OF wf] in \<open>auto split: if_splits\<close>)
    moreover have "ready_queue_pop_from (k # ks) s = Some (Some p, rq_unlink_head k p s)"
      using pop_at_wf[OF wf k] Cons by simp
    ultimately show ?thesis using Cons u(2,3) by (metis append_Nil empty_iff list.set(1))
  qed
qed simp

text \<open>\<open>first_ready\<close>: the head of the highest non-empty ready queue, the kernel process when all are empty.\<close>

definition first_ready :: "(nat \<Rightarrow> ptr list) \<Rightarrow> ptr" where
  "first_ready qs = (case concat (map qs [4, 3, 2, 1, 0]) of [] \<Rightarrow> kernel_process_info | p # _ \<Rightarrow> p)"

definition drop_first :: "ptr \<Rightarrow> (nat \<Rightarrow> ptr list) \<Rightarrow> (nat \<Rightarrow> ptr list)" where
  "drop_first p qs = (\<lambda>i. if i \<le> 4 then remove1 p (qs i) else qs i)"

lemma concat_first:
  "(\<forall>j\<in>set as. f j = []) \<Longrightarrow> concat (map f (as @ k # bs)) = f k @ concat (map f bs)"
  by (induction as) auto

lemma pop_highest_wf:
  assumes wf: "sched_wf s qs"
  shows "\<exists>r s'. ready_queue_pop_highest s = Some (r, s') \<and> links_only s s'
     \<and> (case r of None \<Rightarrow> kernel_process_info | Some p \<Rightarrow> p) = first_ready qs
     \<and> (case r of None \<Rightarrow> (\<forall>i\<le>4. qs i = []) \<and> s' = s
        | Some p \<Rightarrow> sched_wf s' (drop_first p qs) \<and> p \<notin> queued (drop_first p qs))"
proof -
  have ks: "\<forall>k\<in>set [4, 3, 2, 1, 0::nat]. k \<le> 4" by simp
  from pop_from_wf[OF wf ks] consider
    (none) "\<forall>k\<in>set [4, 3, 2, 1, 0]. qs k = []" "ready_queue_pop_highest s = Some (None, s)"
  | (some) as k bs p xs s' where "[4, 3, 2, 1, 0] = as @ k # bs" "\<forall>j\<in>set as. qs j = []" "qs k = p # xs"
      "ready_queue_pop_highest s = Some (Some p, s')" "sched_wf s' (qs(k := xs))" "links_only s s'"
      "p \<notin> queued (qs(k := xs))"
    unfolding ready_queue_pop_highest_def by blast
  then show ?thesis
  proof cases
    case none
    then show ?thesis by (auto simp: first_ready_def all_le4)
  next
    case some
    have "k \<in> set [4, 3, 2, 1, 0]" using some(1) by (metis in_set_conv_decomp)
    then have k: "k \<le> 4" by auto
    have "first_ready qs = p" unfolding first_ready_def some(1) concat_first[OF some(2)] some(3) by simp
    moreover have "drop_first p qs = qs(k := xs)"
    proof
      fix i
      show "drop_first p qs i = (qs(k := xs)) i"
      proof (cases "i \<le> 4 \<and> i \<noteq> k")
        case True
        then have "p \<notin> set (qs i)" using queues_repD(4)[OF sched_wfD(1)[OF wf], of i k] k some(3) by auto
        then show ?thesis using True by (simp add: drop_first_def remove1_idem)
      next
        case False
        then show ?thesis using k some(3) by (cases "i = k") (simp_all add: drop_first_def)
      qed
    qed
    ultimately show ?thesis using some by auto
  qed
qed

section \<open>Quiet switches\<close>

text \<open>No signal is pending, no interval timer runs and nobody sleeps.\<close>

definition quiet :: "sched \<Rightarrow> bool" where
  "quiet s \<longleftrightarrow> (\<forall>p. p_signal_pending (pinfo s p) = 0 \<and> \<not> it_active (p_itimer_real (pinfo s p)))"

lemma handle_pending_quiet:
  "p_signal_pending (pinfo s p) = 0 \<Longrightarrow>
     proc_signal_handle_pending writable p frame s = Some (PROC_SIGNAL_DELIVERY_NONE, frame, [], s)"
  by (simp add: proc_signal_handle_pending_def proc_signal_pending_def split: option.splits)

lemma itimers_quiet: "quiet s \<Longrightarrow> check_itimers_slots now ts s = Some s"
  by (induction now ts s rule: check_itimers_slots.induct) (auto simp: itimer_fire_def quiet_def Let_def)

lemma wake_none:
  assumes "queues_rep s qs" "qs SLEEPQ = []"
  shows "scheduler_wake_sleepers now s = Some s"
proof -
  have "sleep_queue_head s = None" using queues_repD(1)[OF assms(1), of SLEEPQ] assms(2) by simp
  then show ?thesis by (subst scheduler_wake_sleepers.simps) simp
qed

lemma quiet_core: "(\<And>q. core (pinfo s' q) = core (pinfo s q)) \<Longrightarrow> quiet s \<Longrightarrow> quiet s'"
proof -
  assume c: "\<And>q. core (pinfo s' q) = core (pinfo s q)" and q: "quiet s"
  have "p_signal_pending (pinfo s' q) = p_signal_pending (pinfo s q)" for q
    by (rule core_fields(6)[OF c])
  moreover have "p_itimer_real (pinfo s' q) = p_itimer_real (pinfo s q)" for q
    using arg_cong[OF c[of q], of p_itimer_real] by (simp add: core_def)
  ultimately show ?thesis using q by (simp add: quiet_def)
qed

lemma sched_wf_current [simp]: "sched_wf (s\<lparr>current := c\<rparr>) qs = sched_wf s qs"
proof -
  have "sleep_key (s\<lparr>current := c\<rparr>) = sleep_key s" "ready_prio (s\<lparr>current := c\<rparr>) = ready_prio s"
    "qhead (s\<lparr>current := c\<rparr>) = qhead s"
    by (simp_all add: fun_eq_iff sleep_key_def ready_prio_def qhead_def)
  then show ?thesis by (simp add: sched_wf_def queues_rep_def)
qed

lemma pop_highest_current:
  assumes wf: "sched_wf s qs" and kern: "kernel_process_info \<notin> queued qs"
  shows "\<exists>r s'. ready_queue_pop_highest s = Some (r, s') \<and> links_only s s'
     \<and> (case r of None \<Rightarrow> kernel_process_info | Some p \<Rightarrow> p) = first_ready qs
     \<and> sched_wf s' (drop_first (first_ready qs) qs) \<and> first_ready qs \<notin> queued (drop_first (first_ready qs) qs)
     \<and> (first_ready qs = kernel_process_info \<or> p_state (pinfo s (first_ready qs)) = PROC_STATE_READY)"
proof -
  obtain r s' where s': "ready_queue_pop_highest s = Some (r, s')" "links_only s s'"
    "(case r of None \<Rightarrow> kernel_process_info | Some p \<Rightarrow> p) = first_ready qs"
    "case r of None \<Rightarrow> (\<forall>i\<le>4. qs i = []) \<and> s' = s
        | Some p \<Rightarrow> sched_wf s' (drop_first p qs) \<and> p \<notin> queued (drop_first p qs)"
    using pop_highest_wf[OF wf] by blast
  have ready: "first_ready qs = kernel_process_info \<or> p_state (pinfo s (first_ready qs)) = PROC_STATE_READY"
  proof (cases "concat (map qs [4, 3, 2, 1, 0])")
    case (Cons p ps)
    then have "p \<in> set (concat (map qs [4, 3, 2, 1, 0]))" by simp
    then obtain i where "i \<in> set [4, 3, 2, 1, 0::nat]" "p \<in> set (qs i)" unfolding set_concat set_map by blast
    then have "i \<le> 4" "p \<in> set (qs i)" by auto
    then show ?thesis using Cons sched_wfD(2)[OF wf] by (simp add: first_ready_def)
  qed (simp add: first_ready_def)
  show ?thesis
  proof (cases r)
    case None
    have "drop_first kernel_process_info qs = qs"
      using s'(4) None by (auto simp: drop_first_def fun_eq_iff)
    then show ?thesis using None s' wf kern ready by auto
  next
    case (Some p)
    then show ?thesis using s' ready by auto
  qed
qed

lemma pick_next_quiet:
  assumes wf: "sched_wf (sch k) qs" and q: "quiet (sch k)" and kern: "kernel_process_info \<notin> queued qs"
  defines "p \<equiv> first_ready qs"
  shows "\<exists>s'. pick_next writable k =
             Some (k\<lparr>sch := s'\<lparr>current := p\<rparr>,
                     saved := (saved k)(p := Some (case saved k p of None \<Rightarrow> zero_cpu | Some f \<Rightarrow> f))\<rparr>)
           \<and> links_only (sch k) s' \<and> sched_wf s' (drop_first p qs) \<and> p \<notin> queued (drop_first p qs)"
proof -
  obtain r s' where s': "ready_queue_pop_highest (sch k) = Some (r, s')" "links_only (sch k) s'"
    "(case r of None \<Rightarrow> kernel_process_info | Some p \<Rightarrow> p) = p"
    "sched_wf s' (drop_first p qs)" "p \<notin> queued (drop_first p qs)"
    "p = kernel_process_info \<or> p_state (pinfo (sch k) p) = PROC_STATE_READY"
    using pop_highest_current[OF wf kern] unfolding p_def by blast
  have "quiet s'" by (rule quiet_core[OF links_only_core[OF s'(2)] q])
  then have h: "proc_signal_handle_pending writable p f (s'\<lparr>current := p\<rparr>)
      = Some (PROC_SIGNAL_DELIVERY_NONE, f, [], s'\<lparr>current := p\<rparr>)" for f
    by (intro handle_pending_quiet) (simp add: quiet_def)
  have st: "p = kernel_process_info \<or> p_state (pinfo s' p) = PROC_STATE_READY"
    using s'(6) links_onlyD(1)[OF s'(2)] by simp
  show ?thesis
    by (rule exI[of _ s'], subst pick_next.simps)
       (use s' st in \<open>auto simp: h Let_def\<close>)
qed

lemma links_only_quantum: "links_only s s' \<Longrightarrow> p_quantum_us (pinfo s' q) = p_quantum_us (pinfo s q)"
  by (rule core_fields(11)[OF links_only_core])

text \<open>The queues once the process switched away from has been put back.\<close>

definition requeue :: "sched \<Rightarrow> (nat \<Rightarrow> ptr list) \<Rightarrow> (nat \<Rightarrow> ptr list)" where
  "requeue s qs =
     (let c = current s in
      if p_state (pinfo s c) = PROC_STATE_RUNNING \<and> c \<noteq> kernel_process_info
      then qs(ready_prio s c := qs (ready_prio s c) @ [c]) else qs)"

lemma retire_requeue:
  assumes wf: "sched_wf s qs" and c: "current s \<notin> queued qs"
    and st: "p_state (pinfo s (current s)) \<noteq> PROC_STATE_TERMINATED"
  shows "\<exists>s'. retire_previous False s = Some s' \<and> sched_wf s' (requeue s qs)
           \<and> current s' = current s \<and> (\<forall>q. core (pinfo s' q) = core (pinfo s q))
           \<and> (\<forall>q. q \<noteq> current s \<longrightarrow> p_state (pinfo s' q) = p_state (pinfo s q))"
proof (cases "p_state (pinfo s (current s)) = PROC_STATE_RUNNING")
  case False
  then show ?thesis using wf st by (auto simp: retire_previous_def requeue_def Let_def)
next
  case True
  show ?thesis
  proof (cases "current s = kernel_process_info")
    case k: True
    let ?s = "upd (current s) (\<lambda>i. i\<lparr>p_time_slice := p_quantum_us i\<rparr>) s"
    have "sched_wf ?s qs" by (rule sched_wf_frame[OF wf]) (auto intro!: sched_frame_upd)
    then show ?thesis using True k by (auto simp: retire_previous_def requeue_def Let_def)
  next
    case k: False
    let ?s = "upd (current s) (\<lambda>i. i\<lparr>p_state := PROC_STATE_READY, p_time_slice := p_quantum_us i\<rparr>) s"
    have wf1: "sched_wf ?s qs" by (rule sched_wf_upd_unqueued[OF wf c]) simp
    have pr: "ready_prio ?s = ready_prio s" by (auto simp: ready_prio_def fun_eq_iff)
    let ?Q = "qs(ready_prio s (current s) := qs (ready_prio s (current s)) @ [current s])"
    have rep: "queues_rep (ready_queue_push (current s) ?s) ?Q"
      using push_rep[OF sched_wfD(1)[OF wf1] c] pr by simp
    have "sched_wf (ready_queue_push (current s) ?s) ?Q"
      unfolding sched_wf_def
    proof (intro conjI allI impI ballI)
      show "queues_rep (ready_queue_push (current s) ?s) ?Q" by (rule rep)
      fix i q assume i: "i \<le> 4" "q \<in> set (?Q i)"
      show "p_state (pinfo (ready_queue_push (current s) ?s) q) = PROC_STATE_READY"
        using i sched_wfD(2)[OF wf1, of i q] by (auto split: if_splits)
      show "ready_prio (ready_queue_push (current s) ?s) q = i"
        using i sched_wfD(3)[OF wf1, of i q] pr by (auto split: if_splits)
    next
      fix q assume "q \<in> set (?Q SLEEPQ)"
      then show "p_state (pinfo (ready_queue_push (current s) ?s) q) = PROC_STATE_SLEEPING"
        using sched_wfD(4)[OF wf1, of q] by simp
    next
      show "sorted (map (sleep_key (ready_queue_push (current s) ?s)) (?Q SLEEPQ))"
        using sched_wfD(5)[OF wf1] by simp
    qed
    then show ?thesis using True k by (auto simp: retire_previous_def requeue_def Let_def)
  qed
qed

section \<open>Properties\<close>

text \<open>
  C17. Re-arming an expired interval timer keeps its phase and never schedules in the past: the new
  expiry is the first multiple of the interval after the old one that lies strictly in the future.
  The timer is switched off exactly when it is one-shot or that time does not fit 64 bits.
\<close>

theorem itimer_rearm_next_period:
  assumes "expires \<le> now" "now < 2 ^ 64" "interval < 2 ^ 64"
  shows "case itimer_rearm now expires interval of
           Some e \<Rightarrow> now < e \<and> e \<le> now + interval \<and> interval dvd (e - expires) \<and> e < 2 ^ 64
         | None \<Rightarrow> interval = 0 \<or> expires + ((now - expires) div interval + 1) * interval \<ge> 2 ^ 64"
proof (cases "interval = 0")
  case True
  then show ?thesis by (simp add: itimer_rearm_def)
next
  case False
  define steps where "steps = (now - expires) div interval + 1"
  define e where "e = expires + steps * interval"
  have dm: "(now - expires) div interval * interval + (now - expires) mod interval = now - expires"
    by (rule div_mult_mod_eq)
  have md: "(now - expires) mod interval < interval" using False by simp
  have "e = expires + ((now - expires) div interval * interval + interval)" by (simp add: e_def steps_def)
  then have gt: "now < e" "e \<le> now + interval" using dm md assms(1) by linarith+
  have dv: "interval dvd e - expires" by (simp add: e_def)
  have unf: "itimer_rearm now expires interval = (if steps > (2 ^ 64 - 1) div interval then None
      else if u64 e \<le> now then (if 2 ^ 64 - 1 - now < interval then None else Some (now + interval))
      else Some (u64 e))"
    unfolding itimer_rearm_def Let_def steps_def e_def using False by (simp only: if_False)
  show ?thesis
  proof (cases "e < 2 ^ 64")
    case True
    then have "steps * interval \<le> 2 ^ 64 - 1" unfolding e_def by simp
    then have "steps \<le> (2 ^ 64 - 1) div interval" using False by (metis div_le_mono div_mult_self_is_m neq0_conv)
    then have "itimer_rearm now expires interval = Some e"
      using gt True by (simp add: unf u64_def)
    then show ?thesis using gt dv True by simp
  next
    case big: False
    have "u64 e \<le> now"
    proof -
      have "e < 2 * 2 ^ 64" using gt assms by simp
      then have "u64 e = e - 2 ^ 64" using big by (simp add: u64_def le_mod_geq)
      then show ?thesis using gt(2) assms(3) by simp
    qed
    moreover have "2 ^ 64 - 1 - now < interval" using big gt(2) assms(2) by simp
    ultimately have "itimer_rearm now expires interval = None"
      by (simp add: unf)
    then show ?thesis using big by (simp add: e_def steps_def)
  qed
qed

theorem itimer_rearm_next_period_witness: "itimer_rearm 1000 100 250 = Some 1100 \<and> (1000::nat) < 1100"
  using itimer_rearm_next_period[of 100 1000 250] by (simp add: itimer_rearm_def Let_def u64_def)

lemma account_time_views:
  "sched_frame s (account_time diff s)" "quiet s \<Longrightarrow> quiet (account_time diff s)"
  "current (account_time diff s) = current s"
  by (auto simp: account_time_def quiet_def intro!: sched_frame_upd)

lemma switch_prefix:
  assumes "sched_wf (sch k) qs" "quiet (sch k)" "qs SLEEPQ = []"
  shows "proc_signal_handle_pending writable c frame ((sch k)\<lparr>last_exec := now\<rparr>)
           = Some (PROC_SIGNAL_DELIVERY_NONE, frame, [], (sch k)\<lparr>last_exec := now\<rparr>)"
    and "Option.bind (scheduler_wake_sleepers now ((sch k)\<lparr>last_exec := now\<rparr>)) (scheduler_check_itimers now)
           = Some ((sch k)\<lparr>last_exec := now\<rparr>)"
proof -
  let ?s = "(sch k)\<lparr>last_exec := now\<rparr>"
  have q: "quiet ?s" using assms(2) by (simp add: quiet_def)
  show "proc_signal_handle_pending writable c frame ?s = Some (PROC_SIGNAL_DELIVERY_NONE, frame, [], ?s)"
    by (rule handle_pending_quiet) (use assms(2) in \<open>simp add: quiet_def\<close>)
  have "queues_rep ?s qs" by (rule queues_rep_frame[OF sched_wfD(1)[OF assms(1)]]) simp_all
  then show "Option.bind (scheduler_wake_sleepers now ?s) (scheduler_check_itimers now) = Some ?s"
    using wake_none[of ?s qs] assms(3) itimers_quiet[OF q] by (simp add: scheduler_check_itimers_def)
qed

lemma switch_dispatch:
  assumes wf: "sched_wf (sch k) qs" and q: "quiet (sch k)" "qs SLEEPQ = []"
    and c: "current (sch k) \<notin> queued qs" and kern: "kernel_process_info \<notin> queued qs"
    and st: "p_state (pinfo (sch k) (current (sch k))) \<noteq> PROC_STATE_TERMINATED"
    and sw: "act_force (sch k) \<or> p_state (pinfo (sch k) (current (sch k))) \<noteq> PROC_STATE_RUNNING"
    and ns: "\<not> act_sleep (sch k)"
  defines "p \<equiv> first_ready (requeue (sch k) qs)"
  shows "\<exists>f k'. proc_switch writable now frame k = Some (f, k') \<and> current (sch k') = p
           \<and> p_state (pinfo (sch k') p) = PROC_STATE_RUNNING
           \<and> p_time_slice (pinfo (sch k') p) = p_quantum_us (pinfo (sch k) p)
           \<and> f = saved k' p \<and> sched_wf (sch k') (drop_first p (requeue (sch k) qs))
           \<and> p \<notin> queued (drop_first p (requeue (sch k) qs))"
proof -
  let ?c = "current (sch k)"
  define diff where "diff = u64 (now + 2 ^ 64 - (if last_exec (sch k) = 0 then now else last_exec (sch k)))"
  define s4 where "s4 = account_time diff ((sch k)\<lparr>last_exec := now, act_force := False, act_sleep := False\<rparr>)"
  have fr: "sched_frame (sch k) s4"
    by (rule sched_frame_trans[OF _ account_time_views(1)[of _ diff], of _ "(sch k)\<lparr>last_exec := now,
        act_force := False, act_sleep := False\<rparr>", folded s4_def]) (simp add: sched_frame_def)
  have wf4: "sched_wf s4 qs" by (rule sched_wf_frame[OF wf fr])
  have c4: "current s4 = ?c" "p_state (pinfo s4 ?c) = p_state (pinfo (sch k) ?c)"
    using fr by (auto simp: sched_frame_def)
  have q4: "quiet s4" unfolding s4_def by (rule account_time_views(2)) (use q(1) in \<open>simp add: quiet_def\<close>)
  have rq: "requeue s4 qs = requeue (sch k) qs"
    using c4 sched_frame_views(2)[OF fr] by (simp add: requeue_def Let_def)
  obtain s5 where s5: "retire_previous False s4 = Some s5" "sched_wf s5 (requeue (sch k) qs)"
    "current s5 = ?c" "\<forall>q. core (pinfo s5 q) = core (pinfo s4 q)"
    using retire_requeue[OF wf4] c st c4 rq by auto
  have q5: "quiet s5" using quiet_core[OF _ q4] s5(4) by blast
  have kern5: "kernel_process_info \<notin> queued (requeue (sch k) qs)"
    using kern by (auto simp: requeue_def queued_def Let_def split: if_splits)
  define saved' where "saved' = (case saved k ?c of None \<Rightarrow> saved k
      | Some _ \<Rightarrow> (case frame of None \<Rightarrow> saved k | Some f \<Rightarrow> (saved k)(?c := Some f)))"
  define k2 where "k2 = k\<lparr>saved := saved', sch := s5\<rparr>"
  obtain s6 where s6: "pick_next writable k2 =
      Some (k2\<lparr>sch := s6\<lparr>current := p\<rparr>, saved := (saved k2)(p := Some (case saved k2 p of None \<Rightarrow> zero_cpu | Some f \<Rightarrow> f))\<rparr>)"
    "links_only s5 s6" "sched_wf s6 (drop_first p (requeue (sch k) qs))"
    "p \<notin> queued (drop_first p (requeue (sch k) qs))"
    using pick_next_quiet[of k2 "requeue (sch k) qs"] s5(2) q5 kern5 unfolding p_def by (auto simp: k2_def)
  define k3 where "k3 = k2\<lparr>sch := s6\<lparr>current := p\<rparr>,
      saved := (saved k2)(p := Some (case saved k2 p of None \<Rightarrow> zero_cpu | Some f \<Rightarrow> f))\<rparr>"
  define k4 where "k4 = start_running now k3"
  have sw4: "\<not> (\<not> (act_force (sch k) \<or> p_state (pinfo s4 ?c) = PROC_STATE_TERMINATED) \<and> p_state (pinfo s4 ?c) = PROC_STATE_RUNNING
      \<and> p_time_slice (pinfo s4 ?c) > 0 \<and> ready_queue_highest_priority s4 \<le> p_priority (pinfo s4 ?c))"
    using sw c4 by auto
  have cc: "current ((sch k)\<lparr>last_exec := now\<rparr>) = ?c" by simp
  have run: "proc_switch writable now frame k = Some (saved k4 (current (sch k4)), k4)"
    unfolding proc_switch_def Let_def diff_def[symmetric] cc switch_prefix(1)[OF wf q(1,2)]
      option.case prod.case saved'_def[symmetric]
    using switch_prefix(2)[OF wf q(1,2), of now] s5(1) s6(1) sw4 ns
    by (auto simp: s4_def[symmetric] k3_def[symmetric] k4_def[symmetric] k2_def[symmetric])
  have qm: "p_quantum_us (pinfo s6 p) = p_quantum_us (pinfo (sch k) p)"
  proof -
    have "core (pinfo s6 p) = core (pinfo s4 p)" using links_only_core[OF s6(2)] s5(4) by simp
    moreover have "p_quantum_us (pinfo s4 p) = p_quantum_us (pinfo (sch k) p)"
      by (simp add: s4_def account_time_def)
    ultimately show ?thesis using core_fields(11) by metis
  qed
  have "sched_wf (sch k4) (drop_first p (requeue (sch k) qs))"
    unfolding k4_def start_running_def Let_def k3_def
    using sched_wf_upd_unqueued[of "s6\<lparr>current := p\<rparr>", OF _ s6(4)] s6(3) by simp
  moreover have "current (sch k4) = p" "p_state (pinfo (sch k4) p) = PROC_STATE_RUNNING"
    "p_time_slice (pinfo (sch k4) p) = p_quantum_us (pinfo s6 p)"
    by (simp_all add: k4_def start_running_def Let_def k3_def)
  ultimately show ?thesis using run qm s6(4) by auto
qed


definition demo_cpu :: cpu_sys where
  "demo_cpu = \<lparr>sch = demo_sched\<lparr>
       pinfo := (pinfo demo_sched)(4 := zero_proc\<lparr>p_pid := 4, p_state := PROC_STATE_RUNNING, p_priority := 3,
                  p_quantum_us := 8000, p_first_child := Some 3\<rparr>),
       sleep_queue_head := None, current := 4, act_force := True\<rparr>,
     saved = (\<lambda>_. None), cr3 = 0, stores = []\<rparr>"

lemma demo_cpu_wf: "sched_wf (sch demo_cpu) ((\<lambda>_. [])(2 := [3]))"
  unfolding sched_wf_def queues_rep_def all_le4 all_le5
  by (simp add: demo_cpu_def demo_defs qhead_def tail_of_def ready_prio_def prio_defs sleep_key_def kernel_process_info_def)

lemma demo_cpu_views:
  "quiet (sch demo_cpu)" "current (sch demo_cpu) = 4" "act_force (sch demo_cpu)" "\<not> act_sleep (sch demo_cpu)"
  "p_state (pinfo (sch demo_cpu) 4) = PROC_STATE_RUNNING" "ready_prio (sch demo_cpu) 4 = 3"
  "4 \<notin> queued ((\<lambda>_. [])(2 := [3]))" "kernel_process_info \<notin> queued ((\<lambda>_. [])(2 := [3]))"
  by (auto simp: quiet_def demo_cpu_def demo_defs kernel_process_info_def queued_def ready_prio_def prio_defs
      split: if_splits)


text \<open>
  C18. A process whose \<^verbatim>\<open>waitpid(WNOHANG)\<close> found nothing to report returns to user mode in the waiting
  state; the next switch dispatches another process and leaves this one in no queue at all, so it does
  not run again unless a child of its changes state.
\<close>

theorem waitpid_nohang_drops_caller:
  assumes wf: "sched_wf (sch k) qs" "quiet (sch k)" "qs SLEEPQ = []"
    and c: "current (sch k) \<notin> queued qs" "kernel_process_info \<notin> queued qs"
      "current (sch k) \<noteq> kernel_process_info" "\<not> act_sleep (sch k)"
    and w: "proc_waitpid (current (sch k)) pid options (sch k) = Some (Inr 0, None, sch k)"
      "options AND WNOHANG \<noteq> 0"
  shows "\<exists>s1 f k' qs'. syscall_waitpid_turn b1 b2 pid options (sch k) = Some (WReturn (Inr 0) s1)
           \<and> proc_switch writable now frame (k\<lparr>sch := s1\<rparr>) = Some (f, k')
           \<and> current (sch k') \<noteq> current (sch k) \<and> sched_wf (sch k') qs' \<and> current (sch k) \<notin> queued qs'"
proof -
  let ?c = "current (sch k)"
  define s1 where "s1 = set_state ?c PROC_STATE_WAITING (upd ?c (\<lambda>i. i\<lparr>p_waitpid_waiting := True,
      p_waitpid_target := (if pid \<le> 0 then - 1 else pid)\<rparr>) (sch k))"
  have turn: "syscall_waitpid_turn b1 b2 pid options (sch k) = Some (WReturn (Inr 0) s1)"
    using w by (simp add: syscall_waitpid_turn_def Let_def s1_def)
  have "sched_wf (upd ?c (\<lambda>i. i\<lparr>p_waitpid_waiting := True, p_waitpid_target := (if pid \<le> 0 then - 1 else pid)\<rparr>) (sch k)) qs"
    by (rule sched_wf_upd_unqueued[OF wf(1) c(1)]) simp
  then have wf1: "sched_wf s1 qs" unfolding s1_def set_state_def by (rule sched_wf_upd_unqueued[OF _ c(1)]) simp
  have v1: "current s1 = ?c" "p_state (pinfo s1 ?c) = PROC_STATE_WAITING" "act_sleep s1 = act_sleep (sch k)"
    by (simp_all add: s1_def set_state_def)
  have q1: "quiet s1" using wf(2) by (auto simp: quiet_def s1_def set_state_def)
  have rq: "requeue s1 qs = qs" using v1 by (simp add: requeue_def)
  have "first_ready qs \<noteq> ?c"
  proof (cases "concat (map qs [4, 3, 2, 1, 0])")
    case Nil
    then show ?thesis using c(3) by (simp add: first_ready_def)
  next
    case (Cons p ps)
    then have "p \<in> set (concat (map qs [4, 3, 2, 1, 0]))" by simp
    then obtain i where "i \<in> set [4, 3, 2, 1, 0::nat]" "p \<in> set (qs i)" unfolding set_concat set_map by blast
    then have "p \<in> queued qs" by (auto simp: queued_def)
    then show ?thesis using Cons c(1) by (auto simp: first_ready_def)
  qed
  moreover have "queued (drop_first p qs) \<subseteq> queued qs" for p
    by (rule queued_mono) (simp add: drop_first_def set_remove1_subset)
  moreover obtain k' where sw: "proc_switch writable now frame (k\<lparr>sch := s1\<rparr>) = Some (saved k' (first_ready qs), k')"
    and "current (sch k') = first_ready qs" "sched_wf (sch k') (drop_first (first_ready qs) qs)"
    using switch_dispatch[of "k\<lparr>sch := s1\<rparr>" qs writable now frame] wf1 q1 wf(3) c v1 rq by auto
  ultimately have "current (sch k') \<noteq> current (sch k) \<and> sched_wf (sch k') (drop_first (first_ready qs) qs)
      \<and> current (sch k) \<notin> queued (drop_first (first_ready qs) qs)"
    using c(1) by auto
  then show ?thesis using turn sw by blast
qed

lemma demo_cpu_waitpid: "proc_waitpid 4 (- 1) 1 (sch demo_cpu) = Some (Inr 0, None, sch demo_cpu)"
proof -
  have "children_rep (sch demo_cpu) 4 [3]"
    by (simp add: children_rep_def demo_cpu_def demo_defs)
  then show ?thesis
    by (simp add: waitpid_spec wait_candidate_def wait_reports_def demo_cpu_def demo_defs pid_matches_def)
qed

theorem waitpid_nohang_drops_caller_witness:
  "\<exists>s1 f k' qs'. syscall_waitpid_turn False True (- 1) 1 (sch demo_cpu) = Some (WReturn (Inr 0) s1)
     \<and> proc_switch (\<lambda>_ _. True) 100 None (demo_cpu\<lparr>sch := s1\<rparr>) = Some (f, k')
     \<and> current (sch k') \<noteq> 4 \<and> sched_wf (sch k') qs' \<and> 4 \<notin> queued qs'"
  using waitpid_nohang_drops_caller[OF demo_cpu_wf demo_cpu_views(1), of "- 1" 1 False True "\<lambda>_ _. True" 100 None]
    demo_cpu_views demo_cpu_waitpid
  by (simp add: SLEEPQ_def WNOHANG_def kernel_process_info_def)

end
