(* ===== verification/File_Table.thy ===== *)
theory File_Table
  imports Menios_Prelude
begin

text \<open>
  Open files: \<^verbatim>\<open>src/kernel/fs/core/file.c\<close>.

  A \<^verbatim>\<open>file_t\<close> is an object with a table of function pointers, private data and a reference count;
  each process has a table of \<^verbatim>\<open>PROC_MAX_FILES\<close> descriptors that refer to such objects. \<open>fobjs\<close> holds the
  allocated objects (\<open>None\<close>: not allocated, or freed), \<open>tables\<close> the descriptor tables, \<open>err_no\<close> the
  error number of the current process (\<open>None\<close> for 0), which exists whenever this code runs.

  The method \<^verbatim>\<open>ops->close\<close> belongs to the component that created the file; it is the argument \<open>cl\<close> of
  the operations that may drop the last reference, with its contract in the locale \<open>close_method\<close>.
  Likewise \<^verbatim>\<open>ops->read\<close>/\<^verbatim>\<open>ops->write\<close> and the copies to and from user memory are arguments of the
  bounce-buffer loops. Process pointers are not \<^verbatim>\<open>NULL\<close> (the callers pass \<^verbatim>\<open>current\<close> or a process they
  have just looked up); file pointers may be, and the checks for that are part of the model.
\<close>

definition PROC_MAX_FILES :: nat where
  "PROC_MAX_FILES = 256"

definition FILE_MODE_READ :: u32w where
  "FILE_MODE_READ = 1"

definition FILE_MODE_WRITE :: u32w where
  "FILE_MODE_WRITE = 2"

definition FD_FLAG_CLOEXEC :: u32w where
  "FD_FLAG_CLOEXEC = 1"

section \<open>File objects\<close>

text \<open>A static table of operations: its name, and which of the function pointers of a \<^verbatim>\<open>file_ops_t\<close> are set.\<close>

record file_ops =
  op_table :: string
  op_read :: bool
  op_write :: bool
  op_close :: bool
  op_seek :: bool
  op_ioctl :: bool
  op_mmap :: bool
  op_stat :: bool
  op_chmod :: bool
  op_utimens :: bool

definition serial_file_ops :: file_ops where
  "serial_file_ops = \<lparr>op_table = ''serial_file'', op_read = False, op_write = True, op_close = True, op_seek = False, op_ioctl = False,
     op_mmap = False, op_stat = True, op_chmod = False, op_utimens = False\<rparr>"

definition framebuffer_console_file_ops :: file_ops where
  "framebuffer_console_file_ops = \<lparr>op_table = ''framebuffer_console_file'', op_read = False, op_write = True, op_close = True, op_seek = False,
     op_ioctl = True, op_mmap = True, op_stat = True, op_chmod = False, op_utimens = False\<rparr>"

definition framebuffer_device_file_ops :: file_ops where
  "framebuffer_device_file_ops = \<lparr>op_table = ''framebuffer_device_file'', op_read = False, op_write = False, op_close = True, op_seek = False,
     op_ioctl = True, op_mmap = True, op_stat = True, op_chmod = False, op_utimens = False\<rparr>"

definition stdin_file_ops :: file_ops where
  "stdin_file_ops = \<lparr>op_table = ''stdin_file'', op_read = True, op_write = False, op_close = True, op_seek = False, op_ioctl = False,
     op_mmap = False, op_stat = True, op_chmod = False, op_utimens = False\<rparr>"

definition tty_console_file_ops :: file_ops where
  "tty_console_file_ops = \<lparr>op_table = ''tty_console_file'', op_read = True, op_write = True, op_close = True, op_seek = False, op_ioctl = True,
     op_mmap = False, op_stat = True, op_chmod = False, op_utimens = False\<rparr>"

record file_obj =
  f_ops :: "file_ops option"
  f_private :: "ptr option"
  f_refcount :: int
  f_mode :: u32w

type_synonym fd_entry = "ptr option \<times> u32w"

record fsys =
  fobjs :: "ptr \<Rightarrow> file_obj option"
  tables :: "ptr \<Rightarrow> nat \<Rightarrow> fd_entry"
  err_no :: "errno option"
  fmem :: kmem

definition set_err :: "errno option \<Rightarrow> 'a fsys_scheme \<Rightarrow> 'a fsys_scheme" where
  "set_err e s = s\<lparr>err_no := e\<rparr>"

definition file_create ::
    "file_ops option \<Rightarrow> ptr option \<Rightarrow> u32w \<Rightarrow> 'a fsys_scheme \<Rightarrow> ptr option \<times> 'a fsys_scheme" where
  "file_create ops priv md s =
     (case kmalloc_obj (fmem s) of
        (None, m) \<Rightarrow> (None, set_err (Some ENOMEM) (s\<lparr>fmem := m\<rparr>))
      | (Some a, m) \<Rightarrow>
          (Some a, s\<lparr>fmem := m, fobjs := (fobjs s)(a \<mapsto>
             \<lparr>f_ops = ops, f_private = priv, f_refcount = 1, f_mode = md\<rparr>)\<rparr>))"

definition file_ref :: "ptr option \<Rightarrow> 'a fsys_scheme \<Rightarrow> 'a fsys_scheme" where
  "file_ref file s =
     (case file of
        None \<Rightarrow> s
      | Some f \<Rightarrow> s\<lparr>fobjs := (fobjs s)(f := map_option (\<lambda>ob. ob\<lparr>f_refcount := s64 (f_refcount ob + 1)\<rparr>) (fobjs s f))\<rparr>)"

definition file_destroy ::
    "(ptr \<Rightarrow> 'a fsys_scheme \<Rightarrow> 'a fsys_scheme) \<Rightarrow> ptr \<Rightarrow> file_obj \<Rightarrow> 'a fsys_scheme \<Rightarrow> 'a fsys_scheme" where
  "file_destroy cl f ob s =
     (let s1 = (case f_ops ob of Some ops \<Rightarrow> if op_close ops then cl f s else s | None \<Rightarrow> s)
      in s1\<lparr>fmem := kfree_obj f (fmem s1), fobjs := (fobjs s1)(f := None)\<rparr>)"

definition file_unref ::
    "(ptr \<Rightarrow> 'a fsys_scheme \<Rightarrow> 'a fsys_scheme) \<Rightarrow> ptr option \<Rightarrow> 'a fsys_scheme \<Rightarrow> 'a fsys_scheme" where
  "file_unref cl file s =
     (case file of
        None \<Rightarrow> s
      | Some f \<Rightarrow>
          (case fobjs s f of
             None \<Rightarrow> s
           | Some ob \<Rightarrow>
               (let ob' = ob\<lparr>f_refcount := s64 (f_refcount ob - 1)\<rparr>;
                    s1 = s\<lparr>fobjs := (fobjs s)(f \<mapsto> ob')\<rparr>
                in if f_refcount ob' = 0 then file_destroy cl f ob' s1 else s1)))"

section \<open>Descriptor tables\<close>

definition set_slot :: "ptr \<Rightarrow> nat \<Rightarrow> fd_entry \<Rightarrow> 'a fsys_scheme \<Rightarrow> 'a fsys_scheme" where
  "set_slot p fd e s = s\<lparr>tables := (tables s)(p := (tables s p)(fd := e))\<rparr>"

definition bad_fd :: "int \<Rightarrow> bool" where
  "bad_fd fd \<longleftrightarrow> fd < 0 \<or> fd \<ge> int PROC_MAX_FILES"

definition fail :: "errno \<Rightarrow> 'a fsys_scheme \<Rightarrow> (errno + 'b) \<times> 'a fsys_scheme" where
  "fail e s = (Inl e, set_err (Some e) s)"

definition proc_file_table_initialize :: "ptr \<Rightarrow> 'a fsys_scheme \<Rightarrow> 'a fsys_scheme" where
  "proc_file_table_initialize p s =
     s\<lparr>tables := (tables s)(p := (\<lambda>fd. if fd < PROC_MAX_FILES then (None, 0) else tables s p fd))\<rparr>"

fun clone_slots :: "ptr \<Rightarrow> ptr \<Rightarrow> nat list \<Rightarrow> 'a fsys_scheme \<Rightarrow> 'a fsys_scheme" where
  "clone_slots child parent [] s = s"
| "clone_slots child parent (fd # fds) s =
     clone_slots child parent fds (file_ref (fst (tables s parent fd)) (set_slot child fd (tables s parent fd) s))"

definition proc_file_table_clone :: "ptr \<Rightarrow> ptr \<Rightarrow> 'a fsys_scheme \<Rightarrow> 'a fsys_scheme" where
  "proc_file_table_clone child parent s = clone_slots child parent [0..<PROC_MAX_FILES] s"

fun drop_slots ::
    "(ptr \<Rightarrow> 'a fsys_scheme \<Rightarrow> 'a fsys_scheme) \<Rightarrow> (u32w \<Rightarrow> bool) \<Rightarrow> ptr \<Rightarrow> nat list \<Rightarrow> 'a fsys_scheme \<Rightarrow> 'a fsys_scheme" where
  "drop_slots cl sel p [] s = s"
| "drop_slots cl sel p (fd # fds) s =
     drop_slots cl sel p fds
       (if fst (tables s p fd) \<noteq> None \<and> sel (snd (tables s p fd))
        then set_slot p fd (None, 0) (file_unref cl (fst (tables s p fd)) s) else s)"

definition proc_file_table_cleanup ::
    "(ptr \<Rightarrow> 'a fsys_scheme \<Rightarrow> 'a fsys_scheme) \<Rightarrow> ptr \<Rightarrow> 'a fsys_scheme \<Rightarrow> 'a fsys_scheme" where
  "proc_file_table_cleanup cl p s = drop_slots cl (\<lambda>_. True) p [0..<PROC_MAX_FILES] s"

definition proc_file_table_prepare_exec ::
    "(ptr \<Rightarrow> 'a fsys_scheme \<Rightarrow> 'a fsys_scheme) \<Rightarrow> ptr \<Rightarrow> 'a fsys_scheme \<Rightarrow> 'a fsys_scheme" where
  "proc_file_table_prepare_exec cl p s =
     drop_slots cl (\<lambda>flags. flags AND FD_FLAG_CLOEXEC \<noteq> 0) p [0..<PROC_MAX_FILES] s"

function find_free_fd :: "(nat \<Rightarrow> fd_entry) \<Rightarrow> nat \<Rightarrow> errno + nat" where
  "find_free_fd t fd =
     (if fd \<ge> PROC_MAX_FILES then Inl EMFILE
      else if fst (t fd) = None then Inr fd else find_free_fd t (fd + 1))"
  by auto
termination by (relation "measure (\<lambda>(t, fd). PROC_MAX_FILES - fd)") auto

declare find_free_fd.simps [simp del]

definition proc_file_install_at ::
    "ptr \<Rightarrow> int \<Rightarrow> ptr option \<Rightarrow> u32w \<Rightarrow> 'a fsys_scheme \<Rightarrow> (errno + nat) \<times> 'a fsys_scheme" where
  "proc_file_install_at p fd file flags s =
     (case file of
        None \<Rightarrow> fail EINVAL s
      | Some f \<Rightarrow>
          if bad_fd fd then fail EBADF s
          else if fst (tables s p (nat fd)) \<noteq> None then fail EBADF s
          else (Inr (nat fd), set_err None (set_slot p (nat fd) (file, flags) (file_ref file s))))"

definition proc_file_install ::
    "ptr \<Rightarrow> ptr option \<Rightarrow> u32w \<Rightarrow> 'a fsys_scheme \<Rightarrow> (errno + nat) \<times> 'a fsys_scheme" where
  "proc_file_install p file flags s =
     (case file of
        None \<Rightarrow> fail EINVAL s
      | Some f \<Rightarrow>
          (case find_free_fd (tables s p) 0 of
             Inl e \<Rightarrow> fail e s
           | Inr fd \<Rightarrow> proc_file_install_at p (int fd) file flags s))"

definition proc_file_get :: "ptr \<Rightarrow> int \<Rightarrow> 'a fsys_scheme \<Rightarrow> (ptr \<times> u32w) option \<times> 'a fsys_scheme" where
  "proc_file_get p fd s =
     (if bad_fd fd then (None, set_err (Some EBADF) s)
      else case tables s p (nat fd) of
             (None, _) \<Rightarrow> (None, set_err (Some EBADF) s)
           | (Some f, flags) \<Rightarrow> (Some (f, flags), set_err None (file_ref (Some f) s)))"

definition proc_file_set_flags :: "ptr \<Rightarrow> int \<Rightarrow> u32w \<Rightarrow> 'a fsys_scheme \<Rightarrow> (errno + nat) \<times> 'a fsys_scheme" where
  "proc_file_set_flags p fd flags s =
     (if bad_fd fd then fail EBADF s
      else case tables s p (nat fd) of
             (None, _) \<Rightarrow> fail EBADF s
           | (Some f, _) \<Rightarrow> (Inr 0, set_err None (set_slot p (nat fd) (Some f, flags) s)))"

definition proc_file_close ::
    "(ptr \<Rightarrow> 'a fsys_scheme \<Rightarrow> 'a fsys_scheme) \<Rightarrow> ptr \<Rightarrow> int \<Rightarrow> 'a fsys_scheme \<Rightarrow> (errno + nat) \<times> 'a fsys_scheme" where
  "proc_file_close cl p fd s =
     (if bad_fd fd then fail EBADF s
      else case tables s p (nat fd) of
             (None, _) \<Rightarrow> fail EBADF s
           | (Some f, _) \<Rightarrow>
               (Inr 0, set_err None (file_unref cl (Some f) (set_slot p (nat fd) (None, 0) s))))"

definition dup_target :: "(nat \<Rightarrow> fd_entry) \<Rightarrow> int \<Rightarrow> errno + nat" where
  "dup_target t newfd =
     (if newfd < 0 then find_free_fd t 0
      else if newfd \<ge> int PROC_MAX_FILES then Inl EBADF else Inr (nat newfd))"

definition proc_file_dup ::
    "(ptr \<Rightarrow> 'a fsys_scheme \<Rightarrow> 'a fsys_scheme) \<Rightarrow> ptr \<Rightarrow> int \<Rightarrow> int \<Rightarrow> bool \<Rightarrow> 'a fsys_scheme \<Rightarrow>
     (errno + nat) \<times> 'a fsys_scheme" where
  "proc_file_dup cl p oldfd newfd cloexec s =
     (if bad_fd oldfd then fail EBADF s
      else case fst (tables s p (nat oldfd)) of
        None \<Rightarrow> fail EBADF s
      | Some f \<Rightarrow>
          (case dup_target (tables s p) newfd of
             Inl e \<Rightarrow> fail e s
           | Inr t \<Rightarrow>
               let with = (\<lambda>fl. if cloexec then fl OR FD_FLAG_CLOEXEC else fl)
               in if t = nat oldfd
                  then (Inr t, set_err None (set_slot p t (Some f, with (snd (tables s p t))) s))
                  else (let s1 = (if fst (tables s p t) \<noteq> None then file_unref cl (fst (tables s p t)) s else s);
                            s2 = file_ref (Some f) s1
                        in (Inr t, set_err None (set_slot p t (Some f, with (snd (tables s2 p (nat oldfd)))) s2)))))"

definition fd_get :: "ptr \<Rightarrow> int \<Rightarrow> 'a fsys_scheme \<Rightarrow> ptr option" where
  "fd_get kern fd s = (if bad_fd fd then None else fst (tables s kern (nat fd)))"

section \<open>Dispatch\<close>

text \<open>Every operation on an open file records the outcome of the method in the caller's error number.\<close>

definition finish :: "(errno + 'b) \<times> 'a fsys_scheme \<Rightarrow> (errno + 'b) \<times> 'a fsys_scheme" where
  "finish rs = (case rs of (Inl e, s) \<Rightarrow> fail e s | (Inr v, s) \<Rightarrow> (Inr v, set_err None s))"

definition ops_of :: "'a fsys_scheme \<Rightarrow> ptr \<Rightarrow> file_ops option" where
  "ops_of s f = (case fobjs s f of None \<Rightarrow> None | Some ob \<Rightarrow> f_ops ob)"

definition mode_of :: "'a fsys_scheme \<Rightarrow> ptr \<Rightarrow> u32w" where
  "mode_of s f = (case fobjs s f of None \<Rightarrow> 0 | Some ob \<Rightarrow> f_mode ob)"

definition dispatch ::
    "(file_ops \<Rightarrow> bool) \<Rightarrow> errno \<Rightarrow> (ptr \<Rightarrow> 'a fsys_scheme \<Rightarrow> (errno + 'b) \<times> 'a fsys_scheme) \<Rightarrow> ptr option \<Rightarrow>
     'a fsys_scheme \<Rightarrow> (errno + 'b) \<times> 'a fsys_scheme" where
  "dispatch has missing meth file s =
     (case file of
        None \<Rightarrow> fail EINVAL s
      | Some f \<Rightarrow>
          (case ops_of s f of
             None \<Rightarrow> fail missing s
           | Some ops \<Rightarrow> if has ops then finish (meth f s) else fail missing s))"

definition file_seek ::
    "(ptr \<Rightarrow> int \<Rightarrow> nat \<Rightarrow> 'a fsys_scheme \<Rightarrow> (errno + nat) \<times> 'a fsys_scheme) \<Rightarrow> ptr option \<Rightarrow> int \<Rightarrow> nat \<Rightarrow>
     'a fsys_scheme \<Rightarrow> (errno + nat) \<times> 'a fsys_scheme" where
  "file_seek meth file off whence s = dispatch op_seek ESPIPE (\<lambda>f. meth f off whence) file s"

definition file_ioctl ::
    "(ptr \<Rightarrow> nat \<Rightarrow> ptr \<Rightarrow> 'a fsys_scheme \<Rightarrow> (errno + nat) \<times> 'a fsys_scheme) \<Rightarrow> ptr option \<Rightarrow> nat \<Rightarrow> ptr \<Rightarrow>
     'a fsys_scheme \<Rightarrow> (errno + nat) \<times> 'a fsys_scheme" where
  "file_ioctl meth file request argp s = dispatch op_ioctl ENOTTY (\<lambda>f. meth f request argp) file s"

definition file_mmap ::
    "(ptr \<Rightarrow> 'q \<Rightarrow> 'a fsys_scheme \<Rightarrow> (errno + 'b) \<times> 'a fsys_scheme) \<Rightarrow> ptr option \<Rightarrow> 'q option \<Rightarrow>
     'a fsys_scheme \<Rightarrow> (errno + 'b) \<times> 'a fsys_scheme" where
  "file_mmap meth file request s =
     (case request of
        None \<Rightarrow> fail EINVAL s
      | Some q \<Rightarrow> dispatch op_mmap ENOSYS (\<lambda>f. meth f q) file s)"

definition file_chmod ::
    "(ptr \<Rightarrow> nat \<Rightarrow> 'a fsys_scheme \<Rightarrow> (errno + nat) \<times> 'a fsys_scheme) \<Rightarrow> ptr option \<Rightarrow> nat \<Rightarrow>
     'a fsys_scheme \<Rightarrow> (errno + nat) \<times> 'a fsys_scheme" where
  "file_chmod meth file md s = dispatch op_chmod ENOSYS (\<lambda>f. meth f md) file s"

definition file_utimens ::
    "(ptr \<Rightarrow> timespec \<times> timespec \<Rightarrow> 'a fsys_scheme \<Rightarrow> (errno + nat) \<times> 'a fsys_scheme) \<Rightarrow> ptr option \<Rightarrow>
     timespec \<times> timespec \<Rightarrow> 'a fsys_scheme \<Rightarrow> (errno + nat) \<times> 'a fsys_scheme" where
  "file_utimens meth file tms s = dispatch op_utimens ENOSYS (\<lambda>f. meth f tms) file s"

section \<open>Bounce buffers\<close>

definition kernel_pointer_floor :: nat where
  "kernel_pointer_floor = 0xffff800000000000"

definition FILE_IO_BOUNCE_CHUNK :: nat where
  "FILE_IO_BOUNCE_CHUNK = PAGE_SIZE * 4"

definition buffer_needs_user_copy :: "bool \<Rightarrow> ptr option \<Rightarrow> nat \<Rightarrow> bool" where
  "buffer_needs_user_copy user_mode buffer len =
     (case buffer of None \<Rightarrow> False
      | Some a \<Rightarrow> len \<noteq> 0 \<and> user_mode \<and> a < kernel_pointer_floor)"

text \<open>
  The loop of \<^verbatim>\<open>file_user_read\<close>: \<open>rd\<close> reads at most the requested number of bytes into the bounce buffer,
  \<open>put\<close> copies them to the user's address plus an offset. The result is the value of \<^verbatim>\<open>result\<close> when
  the loop ends, the bytes done, and the state.
\<close>

function user_read_loop ::
    "(nat \<Rightarrow> 's \<Rightarrow> (errno + byte list) \<times> 's) \<Rightarrow> (nat \<Rightarrow> byte list \<Rightarrow> 's \<Rightarrow> bool \<times> 's) \<Rightarrow> nat \<Rightarrow> nat \<Rightarrow> nat \<Rightarrow> 's \<Rightarrow>
     (errno + nat) \<times> nat \<times> 's" where
  "user_read_loop rd put len chunk tot s =
     (if tot \<ge> len then (Inr 0, tot, s)
      else let request = min (len - tot) chunk
           in case rd request s of
                (Inl e, s1) \<Rightarrow> (Inl e, tot, s1)
              | (Inr bs, s1) \<Rightarrow>
                  if bs = [] then (Inr tot, tot, s1)
                  else (case put tot bs s1 of
                          (False, s2) \<Rightarrow> (Inl EFAULT, tot, s2)
                        | (True, s2) \<Rightarrow>
                            if length bs < request then (Inr (tot + length bs), tot + length bs, s2)
                            else user_read_loop rd put len chunk (tot + length bs) s2))"
  by pat_completeness auto
termination
  by (relation "measure (\<lambda>(rd, put, len, chunk, tot, s). len - tot)") (auto intro!: diff_less_mono2)

declare user_read_loop.simps [simp del]

definition loop_result :: "nat \<Rightarrow> (errno + nat) \<times> nat \<times> 's \<Rightarrow> (errno + nat) \<times> 's" where
  "loop_result len r = (case r of (res, tot, s) \<Rightarrow>
     (if res = Inr 0 \<and> tot = len then Inr tot else res, s))"

definition file_user_read ::
    "(nat \<Rightarrow> 'a fsys_scheme \<Rightarrow> (errno + byte list) \<times> 'a fsys_scheme) \<Rightarrow>
     (nat \<Rightarrow> byte list \<Rightarrow> 'a fsys_scheme \<Rightarrow> bool \<times> 'a fsys_scheme) \<Rightarrow> file_ops option \<Rightarrow> nat \<Rightarrow> 'a fsys_scheme \<Rightarrow>
     (errno + nat) \<times> 'a fsys_scheme" where
  "file_user_read rd put ops len s =
     (if len = 0 then (Inr 0, s)
      else case ops of
        None \<Rightarrow> (Inl EBADF, s)
      | Some ops' \<Rightarrow>
          if \<not> op_read ops' then (Inl EBADF, s)
          else case kmalloc_obj (fmem s) of
                 (None, m) \<Rightarrow> (Inl ENOMEM, s\<lparr>fmem := m\<rparr>)
               | (Some bounce, m) \<Rightarrow>
                   (case loop_result len (user_read_loop rd put len (min len FILE_IO_BOUNCE_CHUNK) 0 (s\<lparr>fmem := m\<rparr>)) of
                      (r, s') \<Rightarrow> (r, s'\<lparr>fmem := kfree_obj bounce (fmem s')\<rparr>)))"

definition file_read ::
    "(ptr \<Rightarrow> nat \<Rightarrow> 'a fsys_scheme \<Rightarrow> (errno + byte list) \<times> 'a fsys_scheme) \<Rightarrow>
     (ptr \<Rightarrow> byte list \<Rightarrow> 'a fsys_scheme \<Rightarrow> 'a fsys_scheme) \<Rightarrow>
     (nat \<Rightarrow> byte list \<Rightarrow> 'a fsys_scheme \<Rightarrow> bool \<times> 'a fsys_scheme) \<Rightarrow> bool \<Rightarrow>
     ptr option \<Rightarrow> ptr option \<Rightarrow> nat \<Rightarrow> 'a fsys_scheme \<Rightarrow> (errno + nat) \<times> 'a fsys_scheme" where
  "file_read meth store put user_mode file buffer len s =
     (case file of
        None \<Rightarrow> fail EINVAL s
      | Some f \<Rightarrow>
          if len = 0 then (Inr 0, set_err None s)
          else case buffer of
            None \<Rightarrow> fail EFAULT s
          | Some a \<Rightarrow>
              (case ops_of s f of
                 None \<Rightarrow> fail EBADF s
               | Some ops \<Rightarrow>
                   if mode_of s f AND FILE_MODE_READ = 0 \<or> \<not> op_read ops then fail EBADF s
                   else finish (if buffer_needs_user_copy user_mode buffer len
                                then file_user_read (meth f) put (Some ops) len s
                                else case meth f len s of
                                       (Inl e, s1) \<Rightarrow> (Inl e, s1)
                                     | (Inr bs, s1) \<Rightarrow> (Inr (length bs), store a bs s1))))"

text \<open>The loop of \<^verbatim>\<open>file_user_write\<close>: \<open>get\<close> copies from the user's buffer, \<open>wr\<close> writes and returns the number
  of bytes it took.\<close>

function user_write_loop ::
    "(nat \<Rightarrow> nat \<Rightarrow> 's \<Rightarrow> byte list option) \<Rightarrow> (byte list \<Rightarrow> 's \<Rightarrow> (errno + nat) \<times> 's) \<Rightarrow> nat \<Rightarrow> nat \<Rightarrow> nat \<Rightarrow> 's \<Rightarrow>
     (errno + nat) \<times> nat \<times> 's" where
  "user_write_loop get wr len chunk tot s =
     (if tot \<ge> len then (Inr 0, tot, s)
      else let request = min (len - tot) chunk
           in case get tot request s of
                None \<Rightarrow> (Inl EFAULT, tot, s)
              | Some bs \<Rightarrow>
                  (case wr bs s of
                     (Inl e, s1) \<Rightarrow> (Inl e, tot, s1)
                   | (Inr n, s1) \<Rightarrow>
                       if n = 0 then (Inr tot, tot, s1)
                       else if n < request then (Inr (tot + n), tot + n, s1)
                       else user_write_loop get wr len chunk (tot + n) s1))"
  by pat_completeness auto
termination
  by (relation "measure (\<lambda>(get, wr, len, chunk, tot, s). len - tot)") auto

declare user_write_loop.simps [simp del]

definition file_user_write ::
    "(nat \<Rightarrow> nat \<Rightarrow> 'a fsys_scheme \<Rightarrow> byte list option) \<Rightarrow> bool \<Rightarrow>
     (byte list \<Rightarrow> 'a fsys_scheme \<Rightarrow> (errno + nat) \<times> 'a fsys_scheme) \<Rightarrow> file_ops option \<Rightarrow> nat \<Rightarrow> 'a fsys_scheme \<Rightarrow>
     (errno + nat) \<times> 'a fsys_scheme" where
  "file_user_write get touch_ok wr ops len s =
     (if len = 0 then (Inr 0, s)
      else case ops of
        None \<Rightarrow> (Inl EBADF, s)
      | Some ops' \<Rightarrow>
          if \<not> op_write ops' then (Inl EBADF, s)
          else if \<not> touch_ok then (Inl EFAULT, s)
          else case kmalloc_obj (fmem s) of
                 (None, m) \<Rightarrow> (Inl ENOMEM, s\<lparr>fmem := m\<rparr>)
               | (Some bounce, m) \<Rightarrow>
                   (case loop_result len (user_write_loop get wr len (min len FILE_IO_BOUNCE_CHUNK) 0 (s\<lparr>fmem := m\<rparr>)) of
                      (r, s') \<Rightarrow> (r, s'\<lparr>fmem := kfree_obj bounce (fmem s')\<rparr>)))"

definition file_write ::
    "(ptr \<Rightarrow> byte list \<Rightarrow> 'a fsys_scheme \<Rightarrow> (errno + nat) \<times> 'a fsys_scheme) \<Rightarrow>
     (nat \<Rightarrow> nat \<Rightarrow> 'a fsys_scheme \<Rightarrow> byte list option) \<Rightarrow> bool \<Rightarrow> (ptr \<Rightarrow> nat \<Rightarrow> 'a fsys_scheme \<Rightarrow> byte list) \<Rightarrow> bool \<Rightarrow>
     ptr option \<Rightarrow> ptr option \<Rightarrow> nat \<Rightarrow> 'a fsys_scheme \<Rightarrow> (errno + nat) \<times> 'a fsys_scheme" where
  "file_write meth get touch_ok load user_mode file buffer len s =
     (case (file, buffer) of
        (Some f, Some a) \<Rightarrow>
          (case ops_of s f of
             None \<Rightarrow> fail EBADF s
           | Some ops \<Rightarrow>
               if mode_of s f AND FILE_MODE_WRITE = 0 \<or> \<not> op_write ops then fail EBADF s
               else finish (if buffer_needs_user_copy user_mode buffer len
                            then file_user_write get touch_ok (meth f) (Some ops) len s
                            else meth f (load a len s) s))
      | _ \<Rightarrow> fail EINVAL s)"

section \<open>The keyboard buffer\<close>

definition STDIN_BUFFER_SIZE :: nat where
  "STDIN_BUFFER_SIZE = 256"

record stdin_ring =
  sr_data :: "nat \<Rightarrow> byte"
  sr_head :: nat
  sr_tail :: nat

definition stdin_buffer_initialize :: "(nat \<Rightarrow> byte) \<Rightarrow> stdin_ring" where
  "stdin_buffer_initialize old = \<lparr>sr_data = old, sr_head = 0, sr_tail = 0\<rparr>"

definition stdin_buffer_pop :: "stdin_ring \<Rightarrow> byte option \<times> stdin_ring" where
  "stdin_buffer_pop r =
     (if sr_head r \<noteq> sr_tail r
      then (Some (sr_data r (sr_tail r)), r\<lparr>sr_tail := (sr_tail r + 1) mod STDIN_BUFFER_SIZE\<rparr>)
      else (None, r))"

definition stdin_buffer_push :: "byte \<Rightarrow> stdin_ring \<Rightarrow> bool \<times> stdin_ring" where
  "stdin_buffer_push ch r =
     (let was_empty = (sr_head r = sr_tail r);
          nx = (sr_head r + 1) mod STDIN_BUFFER_SIZE;
          r1 = (if nx = sr_tail r then r\<lparr>sr_tail := (sr_tail r + 1) mod STDIN_BUFFER_SIZE\<rparr> else r)
      in (was_empty, r1\<lparr>sr_data := (sr_data r1)(sr_head r := ch), sr_head := nx\<rparr>))"

text \<open>\<^verbatim>\<open>stdin_enqueue_char\<close> pushes and then signals the readers.\<close>

definition stdin_enqueue_char :: "byte \<Rightarrow> stdin_ring \<Rightarrow> stdin_ring" where
  "stdin_enqueue_char ch r = snd (stdin_buffer_push ch r)"

fun stdin_drain :: "nat \<Rightarrow> stdin_ring \<Rightarrow> byte list \<times> stdin_ring" where
  "stdin_drain 0 r = ([], r)"
| "stdin_drain (Suc n) r =
     (case stdin_buffer_pop r of
        (None, r') \<Rightarrow> ([], r')
      | (Some ch, r') \<Rightarrow> (case stdin_drain n r' of (chs, r'') \<Rightarrow> (ch # chs, r'')))"

text \<open>One turn of \<^verbatim>\<open>stdin_read_impl\<close>: the bytes it returns, or \<open>None\<close> when it waits for a key.\<close>

definition stdin_read_impl :: "ptr option \<Rightarrow> nat \<Rightarrow> stdin_ring \<Rightarrow> (errno + byte list) option \<times> stdin_ring" where
  "stdin_read_impl buffer len r =
     (if buffer = None then (Some (Inl EINVAL), r)
      else if len = 0 then (Some (Inr []), r)
      else case stdin_drain len r of
             ([], r') \<Rightarrow> (None, r')
           | (chs, r') \<Rightarrow> (Some (Inr chs), r'))"

section \<open>References to files\<close>

text \<open>\<^verbatim>\<open>serial_close_noop\<close>, the close method of the console files.\<close>

definition serial_close_noop :: "ptr \<Rightarrow> 'a fsys_scheme \<Rightarrow> 'a fsys_scheme" where
  "serial_close_noop f s = s"

text \<open>
  How many descriptors of the processes \<open>P\<close> refer to a file, and the invariant of the reference
  counts: \<open>ext\<close> counts the references that are held outside the tables (a \<^verbatim>\<open>file_t*\<close> in a local variable of
  running kernel code).
\<close>

definition slots :: "'a fsys_scheme \<Rightarrow> ptr \<Rightarrow> ptr \<Rightarrow> nat" where
  "slots s p f = card {fd. fd < PROC_MAX_FILES \<and> fst (tables s p fd) = Some f}"

definition refs :: "ptr set \<Rightarrow> 'a fsys_scheme \<Rightarrow> ptr \<Rightarrow> nat" where
  "refs P s f = (\<Sum>p\<in>P. slots s p f)"

definition counted :: "file_obj option \<Rightarrow> int \<Rightarrow> bool" where
  "counted ob n = (case ob of None \<Rightarrow> n = 0 | Some ob' \<Rightarrow> f_refcount ob' = n \<and> 0 < n)"

definition file_inv :: "ptr set \<Rightarrow> (ptr \<Rightarrow> int) \<Rightarrow> 'a fsys_scheme \<Rightarrow> bool" where
  "file_inv P ext s \<longleftrightarrow> (\<forall>f. counted (fobjs s f) (int (refs P s f) + ext f))"

text \<open>The operations as the kernel may run them, in any order, on the processes \<open>P\<close>.\<close>

inductive ft_step ::
    "(ptr \<Rightarrow> 'a fsys_scheme \<Rightarrow> 'a fsys_scheme) \<Rightarrow> ptr set \<Rightarrow> 'a fsys_scheme \<times> (ptr \<Rightarrow> int) \<Rightarrow>
     'a fsys_scheme \<times> (ptr \<Rightarrow> int) \<Rightarrow> bool" for cl P where
  st_create: "file_create ops priv md s = (Some f, s') \<Longrightarrow> fobjs s f = None \<Longrightarrow> ft_step cl P (s, ext) (s', ext(f := 1))"
| st_nomem: "file_create ops priv md s = (None, s') \<Longrightarrow> ft_step cl P (s, ext) (s', ext)"
| st_get: "p \<in> P \<Longrightarrow> proc_file_get p fd s = (Some (f, fl), s') \<Longrightarrow> ext f < 2 ^ 62 \<Longrightarrow>
     ft_step cl P (s, ext) (s', ext(f := ext f + 1))"
| st_unref: "0 < ext f \<Longrightarrow> ft_step cl P (s, ext) (file_unref cl (Some f) s, ext(f := ext f - 1))"
| st_install: "p \<in> P \<Longrightarrow> 0 < ext f \<Longrightarrow> ft_step cl P (s, ext) (snd (proc_file_install p (Some f) fl s), ext)"
| st_install_at: "p \<in> P \<Longrightarrow> 0 < ext f \<Longrightarrow> ft_step cl P (s, ext) (snd (proc_file_install_at p fd (Some f) fl s), ext)"
| st_close: "p \<in> P \<Longrightarrow> ft_step cl P (s, ext) (snd (proc_file_close cl p fd s), ext)"
| st_dup: "p \<in> P \<Longrightarrow> ft_step cl P (s, ext) (snd (proc_file_dup cl p fd newfd ce s), ext)"
| st_flags: "p \<in> P \<Longrightarrow> ft_step cl P (s, ext) (snd (proc_file_set_flags p fd fl s), ext)"
| st_clone: "child \<in> P \<Longrightarrow> parent \<in> P \<Longrightarrow> child \<noteq> parent \<Longrightarrow> \<forall>fd<PROC_MAX_FILES. fst (tables s child fd) = None \<Longrightarrow>
     ft_step cl P (s, ext) (proc_file_table_clone child parent s, ext)"
| st_cleanup: "p \<in> P \<Longrightarrow> ft_step cl P (s, ext) (proc_file_table_cleanup cl p s, ext)"
| st_exec: "p \<in> P \<Longrightarrow> ft_step cl P (s, ext) (proc_file_table_prepare_exec cl p s, ext)"

section \<open>Stdin as a queue\<close>

definition stdin_count :: "stdin_ring \<Rightarrow> nat" where
  "stdin_count r = (sr_head r + STDIN_BUFFER_SIZE - sr_tail r) mod STDIN_BUFFER_SIZE"

definition stdin_content :: "stdin_ring \<Rightarrow> byte list" where
  "stdin_content r = ring STDIN_BUFFER_SIZE (sr_data r) (sr_tail r) (stdin_count r)"

definition stdin_ok :: "stdin_ring \<Rightarrow> bool" where
  "stdin_ok r \<longleftrightarrow> sr_head r < STDIN_BUFFER_SIZE \<and> sr_tail r < STDIN_BUFFER_SIZE"

definition stdin_can :: "byte \<Rightarrow> stdin_ring \<Rightarrow> bool" where
  "stdin_can ch r \<longleftrightarrow> stdin_count r < STDIN_BUFFER_SIZE - 1"

lemma stdin_count_if:
  "stdin_ok r \<Longrightarrow> stdin_count r = (if sr_tail r \<le> sr_head r then sr_head r - sr_tail r else sr_head r + 256 - sr_tail r)"
proof -
  assume ok: "stdin_ok r"
  have "(sr_head r + 256 - sr_tail r) mod 256 = sr_head r - sr_tail r" if "sr_tail r \<le> sr_head r"
  proof -
    have "sr_head r + 256 - sr_tail r = (sr_head r - sr_tail r) + 256" using that by simp
    moreover have "sr_head r - sr_tail r < 256"
      using ok by (simp add: stdin_ok_def STDIN_BUFFER_SIZE_def less_imp_diff_less)
    ultimately show ?thesis by (simp only: mod_add_self2 mod_less)
  qed
  then show ?thesis using ok by (simp add: stdin_count_def stdin_ok_def STDIN_BUFFER_SIZE_def)
qed

lemma stdin_next: "x < 256 \<Longrightarrow> (x + 1) mod STDIN_BUFFER_SIZE = (if x = 255 then 0 else x + 1)"
  by (simp add: STDIN_BUFFER_SIZE_def)

lemma stdin_bounds: "stdin_ok r \<Longrightarrow> sr_head r < 256 \<and> sr_tail r < 256"
  by (simp add: stdin_ok_def STDIN_BUFFER_SIZE_def)

lemma stdin_head: "stdin_ok r \<Longrightarrow> sr_head r = (sr_tail r + stdin_count r) mod STDIN_BUFFER_SIZE"
  using stdin_bounds[of r] by (simp add: stdin_count_if STDIN_BUFFER_SIZE_def)

lemma stdin_count_0: "stdin_ok r \<Longrightarrow> stdin_count r = 0 \<longleftrightarrow> sr_head r = sr_tail r"
  using stdin_bounds[of r] by (auto simp: stdin_count_if)

lemma stdin_count_le: "stdin_ok r \<Longrightarrow> stdin_count r \<le> 255"
  using stdin_bounds[of r] by (auto simp: stdin_count_if)

lemma stdin_full: "stdin_ok r \<Longrightarrow> (sr_head r + 1) mod STDIN_BUFFER_SIZE = sr_tail r \<longleftrightarrow> stdin_count r = 255"
  using stdin_bounds[of r] by (simp only: stdin_count_if stdin_next) (auto split: if_splits)

lemma stdin_pop_count:
  assumes "stdin_ok r" "stdin_count r = Suc n"
  shows "stdin_count (r\<lparr>sr_tail := (sr_tail r + 1) mod STDIN_BUFFER_SIZE\<rparr>) = n"
    "stdin_ok (r\<lparr>sr_tail := (sr_tail r + 1) mod STDIN_BUFFER_SIZE\<rparr>)"
proof -
  show ok: "stdin_ok (r\<lparr>sr_tail := (sr_tail r + 1) mod STDIN_BUFFER_SIZE\<rparr>)"
    using assms(1) by (simp add: stdin_ok_def STDIN_BUFFER_SIZE_def)
  show "stdin_count (r\<lparr>sr_tail := (sr_tail r + 1) mod STDIN_BUFFER_SIZE\<rparr>) = n"
    using stdin_bounds[OF assms(1)] assms(2)
    unfolding stdin_count_if[OF ok] stdin_count_if[OF assms(1)]
    by (simp only: stdin_ring.select_convs stdin_ring.update_convs stdin_ring.simps stdin_next) (auto split: if_splits)
qed

lemma stdin_push_count:
  assumes "stdin_ok r" "stdin_count r < 255"
  shows "stdin_count (r\<lparr>sr_data := d, sr_head := (sr_head r + 1) mod STDIN_BUFFER_SIZE\<rparr>) = Suc (stdin_count r)"
    "stdin_ok (r\<lparr>sr_data := d, sr_head := (sr_head r + 1) mod STDIN_BUFFER_SIZE\<rparr>)"
proof -
  show ok: "stdin_ok (r\<lparr>sr_data := d, sr_head := (sr_head r + 1) mod STDIN_BUFFER_SIZE\<rparr>)"
    using assms(1) by (simp add: stdin_ok_def STDIN_BUFFER_SIZE_def)
  show "stdin_count (r\<lparr>sr_data := d, sr_head := (sr_head r + 1) mod STDIN_BUFFER_SIZE\<rparr>) = Suc (stdin_count r)"
    using stdin_bounds[OF assms(1)] assms(2)
    unfolding stdin_count_if[OF ok] stdin_count_if[OF assms(1)]
    by (simp only: stdin_ring.simps stdin_next) (auto split: if_splits)
qed

lemma stdin_pop_content:
  assumes "stdin_ok r"
  shows "stdin_content r = [] \<Longrightarrow> stdin_buffer_pop r = (None, r)"
    and "stdin_content r = ch # chs \<Longrightarrow> fst (stdin_buffer_pop r) = Some ch \<and> stdin_content (snd (stdin_buffer_pop r)) = chs"
    and "stdin_ok (snd (stdin_buffer_pop r))"
proof -
  show "stdin_buffer_pop r = (None, r)" if "stdin_content r = []"
  proof -
    have "stdin_count r = 0" using arg_cong[OF that, of length] by (simp add: stdin_content_def)
    then show ?thesis using stdin_count_0[OF assms] by (simp add: stdin_buffer_pop_def)
  qed
  show "fst (stdin_buffer_pop r) = Some ch \<and> stdin_content (snd (stdin_buffer_pop r)) = chs"
    if c: "stdin_content r = ch # chs"
  proof -
    have n: "stdin_count r = Suc (length chs)" using arg_cong[OF c, of length] by (simp add: stdin_content_def)
    then have ne: "sr_head r \<noteq> sr_tail r" using stdin_count_0[OF assms] by simp
    have t: "sr_tail r mod STDIN_BUFFER_SIZE = sr_tail r" using assms by (simp add: stdin_ok_def)
    show ?thesis using c ne stdin_pop_count(1)[OF assms n]
      by (simp add: stdin_buffer_pop_def stdin_content_def n ring_Suc t)
  qed
  show "stdin_ok (snd (stdin_buffer_pop r))"
    using assms by (simp add: stdin_buffer_pop_def stdin_ok_def STDIN_BUFFER_SIZE_def)
qed

lemma stdin_push_content:
  assumes "stdin_ok r"
  shows "stdin_content (snd (stdin_buffer_push ch r)) = drop (stdin_count r - 254) (stdin_content r) @ [ch]"
    and "stdin_ok (snd (stdin_buffer_push ch r))"
proof -
  define r1 where "r1 = (if stdin_count r = 255 then r\<lparr>sr_tail := (sr_tail r + 1) mod STDIN_BUFFER_SIZE\<rparr> else r)"
  have r1: "stdin_ok r1" "stdin_count r1 < 255" "sr_head r1 = sr_head r" "sr_data r1 = sr_data r"
    using assms stdin_pop_count[OF assms, of 254] stdin_count_le[OF assms] by (auto simp: r1_def)
  have c1: "stdin_content r1 = drop (stdin_count r - 254) (stdin_content r)"
  proof (cases "stdin_count r = 255")
    case True
    have t: "sr_tail r mod STDIN_BUFFER_SIZE = sr_tail r" using assms by (simp add: stdin_ok_def)
    have "stdin_content r = sr_data r (sr_tail r) # stdin_content r1"
      using True stdin_pop_count(1)[OF assms, of 254] ring_Suc[of STDIN_BUFFER_SIZE "sr_data r" "sr_tail r" 254]
      by (simp add: r1_def stdin_content_def t)
    then show ?thesis using True by simp
  next
    case False
    then show ?thesis using stdin_count_le[OF assms] by (simp add: r1_def)
  qed
  have push: "snd (stdin_buffer_push ch r) =
      r1\<lparr>sr_data := (sr_data r1)((sr_tail r1 + stdin_count r1) mod STDIN_BUFFER_SIZE := ch),
         sr_head := (sr_head r1 + 1) mod STDIN_BUFFER_SIZE\<rparr>"
    using stdin_full[OF assms] r1(3) stdin_head[OF r1(1)]
    by (simp add: stdin_buffer_push_def Let_def r1_def)
  show "stdin_ok (snd (stdin_buffer_push ch r))" unfolding push by (rule stdin_push_count(2)[OF r1(1,2)])
  have "stdin_count (snd (stdin_buffer_push ch r)) = Suc (stdin_count r1)"
    unfolding push by (rule stdin_push_count(1)[OF r1(1,2)])
  then have "stdin_content (snd (stdin_buffer_push ch r)) = stdin_content r1 @ [ch]"
    unfolding stdin_content_def using ring_put[of "stdin_count r1" STDIN_BUFFER_SIZE] r1(2)
    by (simp add: push STDIN_BUFFER_SIZE_def)
  then show "stdin_content (snd (stdin_buffer_push ch r)) = drop (stdin_count r - 254) (stdin_content r) @ [ch]"
    by (simp only: c1)
qed

lemma stdin_content_length [simp]: "length (stdin_content r) = stdin_count r"
  by (simp add: stdin_content_def)

interpretation kbd: fifo_queue stdin_content stdin_can "\<lambda>ch r. snd (stdin_buffer_push ch r)" stdin_buffer_pop stdin_ok
proof (unfold_locales, goal_cases)
  case (1 r ch)
  then show ?case using stdin_push_content(1)[OF 1(1), of ch] by (simp add: stdin_can_def STDIN_BUFFER_SIZE_def)
next
  case (2 r ch)
  show ?case by (rule stdin_push_content(2)[OF 2(1)])
qed (use stdin_pop_content in auto)

lemma stdin_drain_deq_n: "stdin_drain n r = kbd.deq_n n r"
  by (induction n r rule: stdin_drain.induct) (auto split: prod.splits option.splits)

section \<open>Reference counts\<close>

lemma set_slot_simps [simp]:
  "fobjs (set_slot p fd e s) = fobjs s" "err_no (set_slot p fd e s) = err_no s"
  "tables (set_slot p fd e s) = (tables s)(p := (tables s p)(fd := e))"
  "tables (file_ref file s) = tables s" "tables (set_err er s) = tables s" "fobjs (set_err er s) = fobjs s"
  by (simp_all add: set_slot_def file_ref_def set_err_def split: option.splits)

lemma slots_finite [simp]: "finite {fd. fd < PROC_MAX_FILES \<and> Q fd}"
  by (rule finite_subset[of _ "{..<PROC_MAX_FILES}"]) auto

lemma slots_set:
  assumes "fd < PROC_MAX_FILES"
  shows "int (slots (set_slot p fd (x, fl) s) p f) =
           int (slots s p f) - of_bool (fst (tables s p fd) = Some f) + of_bool (x = Some f)"
proof -
  let ?A = "{i. i < PROC_MAX_FILES \<and> fst (tables s p i) = Some f}"
  have new: "{i. i < PROC_MAX_FILES \<and> fst (tables (set_slot p fd (x, fl) s) p i) = Some f}
      = (if x = Some f then insert fd (?A - {fd}) else ?A - {fd})"
    using assms by auto
  have "int (card ?A) = int (card (?A - {fd})) + of_bool (fst (tables s p fd) = Some f)"
    using assms card.remove[of ?A fd] slots_finite by (cases "fd \<in> ?A") auto
  moreover have "int (card (insert fd (?A - {fd}))) = int (card (?A - {fd})) + 1"
    by (subst card_insert_disjoint) (simp_all add: finite_Diff)
  ultimately show ?thesis unfolding slots_def new by (simp only: split: if_splits) simp
qed

lemma slots_other: "q \<noteq> p \<Longrightarrow> slots (set_slot p fd e s) q f = slots s q f"
  by (simp add: slots_def)

lemma refs_set:
  assumes "finite P" "p \<in> P" "fd < PROC_MAX_FILES"
  shows "int (refs P (set_slot p fd (x, fl) s) f) =
           int (refs P s f) - of_bool (fst (tables s p fd) = Some f) + of_bool (x = Some f)"
proof -
  have "refs P t f = slots t p f + (\<Sum>q\<in>P - {p}. slots t q f)" for t :: "'a fsys_scheme"
    unfolding refs_def by (rule sum.remove[OF assms(1,2)])
  moreover have "(\<Sum>q\<in>P - {p}. slots (set_slot p fd (x, fl) s) q f) = (\<Sum>q\<in>P - {p}. slots s q f)"
    by (rule sum.cong) (auto simp: slots_other)
  ultimately show ?thesis using slots_set[OF assms(3), of p x fl s f] by simp
qed

lemma refs_cong: "tables s = tables s' \<Longrightarrow> refs P s = refs P s'"
  by (simp add: refs_def slots_def fun_eq_iff)

lemma refs_simps [simp]:
  "refs P (set_err er s) = refs P s" "refs P (file_ref file s) = refs P s"
  by (rule refs_cong, simp)+

lemma slots_le: "slots s p f \<le> PROC_MAX_FILES"
  using card_mono[of "{..<PROC_MAX_FILES}" "{fd. fd < PROC_MAX_FILES \<and> fst (tables s p fd) = Some f}"]
  unfolding slots_def by auto

lemma refs_le: "finite P \<Longrightarrow> refs P s f \<le> PROC_MAX_FILES * card P"
  unfolding refs_def using sum_bounded_above[of P "\<lambda>p. slots s p f" PROC_MAX_FILES] slots_le[of s _ f]
  by (simp add: mult.commute)

lemma refs_member:
  assumes "finite P" "p \<in> P" "D \<subseteq> {fd. fd < PROC_MAX_FILES \<and> fst (tables s p fd) = Some f}"
  shows "card D \<le> refs P s f"
proof -
  have "card D \<le> slots s p f" unfolding slots_def by (rule card_mono[OF slots_finite assms(3)])
  also have "\<dots> \<le> refs P s f" unfolding refs_def by (rule member_le_sum[OF assms(2)]) (use assms(1) in auto)
  finally show ?thesis .
qed

lemma file_inv_slot:
  assumes "finite P" "p \<in> P" "fd < PROC_MAX_FILES" "file_inv P ext s"
  shows "file_inv P (\<lambda>f. ext f + of_bool (fst (tables s p fd) = Some f) - of_bool (x = Some f)) (set_slot p fd (x, fl) s)"
proof -
  have eq: "int (refs P (set_slot p fd (x, fl) s) f) + (ext f + of_bool (fst (tables s p fd) = Some f) - of_bool (x = Some f))
      = int (refs P s f) + ext f" for f
    unfolding refs_set[OF assms(1-3)] by linarith
  show ?thesis using assms(4) unfolding file_inv_def set_slot_simps(1) eq .
qed

lemma file_inv_err [simp]: "file_inv P ext (set_err e s) = file_inv P ext s"
  by (simp add: file_inv_def)

lemma file_invD: "file_inv P ext s \<Longrightarrow> counted (fobjs s f) (int (refs P s f) + ext f)"
  by (simp add: file_inv_def)

lemma file_inv_alive:
  assumes "file_inv P ext s" "0 < int (refs P s f) + ext f"
  shows "\<exists>ob. fobjs s f = Some ob \<and> f_refcount ob = int (refs P s f) + ext f"
  using file_invD[OF assms(1), of f] assms(2) by (auto simp: counted_def split: option.splits)

lemma file_inv_ref:
  assumes "file_inv P ext s" "0 < int (refs P s f) + ext f" "int (refs P s f) + ext f < 2 ^ 63 - 1"
  shows "file_inv P (ext(f := ext f + 1)) (file_ref (Some f) s)"
proof -
  obtain ob where ob: "fobjs s f = Some ob" "f_refcount ob = int (refs P s f) + ext f"
    using file_inv_alive[OF assms(1,2)] by blast
  have "s64 (f_refcount ob + 1) = int (refs P s f) + (ext f + 1)" using assms(2,3) ob(2) by simp
  then have "counted (fobjs (file_ref (Some f) s) g) (int (refs P s g) + (ext(f := ext f + 1)) g)" for g
    using file_invD[OF assms(1), of g] assms(2) ob by (cases "g = f") (simp_all add: file_ref_def counted_def)
  then show ?thesis by (simp add: file_inv_def)
qed

lemma file_inv_create:
  assumes "file_inv P ext s" "file_create ops priv md s = (Some f, s')" "fobjs s f = None" "0 \<le> ext f"
  shows "file_inv P (ext(f := 1)) s'"
proof -
  have s': "fobjs s' = (fobjs s)(f \<mapsto> \<lparr>f_ops = ops, f_private = priv, f_refcount = 1, f_mode = md\<rparr>)" "tables s' = tables s"
    using assms(2) by (auto simp: file_create_def split: prod.splits option.splits)
  have "refs P s f = 0" using file_invD[OF assms(1), of f] assms(3,4) by (simp add: counted_def)
  then have "counted (fobjs s' g) (int (refs P s' g) + (ext(f := 1)) g)" for g
    using file_invD[OF assms(1), of g] refs_cong[OF s'(2)] by (cases "g = f") (simp_all add: s'(1) counted_def)
  then show ?thesis by (simp add: file_inv_def)
qed

definition ext_ok :: "ptr set \<Rightarrow> (ptr \<Rightarrow> int) \<Rightarrow> bool" where
  "ext_ok P ext \<longleftrightarrow> finite P \<and> PROC_MAX_FILES * card P \<le> 2 ^ 61 \<and> (\<forall>f. 0 \<le> ext f \<and> ext f \<le> 2 ^ 62)"

lemma ext_okD:
  assumes "ext_ok P ext"
  shows "finite P" "0 \<le> ext f" "ext f \<le> 2 ^ 62" "int (refs P s f) \<le> 2 ^ 61"
proof -
  show f: "finite P" and "0 \<le> ext f" "ext f \<le> 2 ^ 62" using assms by (auto simp: ext_ok_def)
  have "refs P s f \<le> 2 ^ 61"
    by (rule order_trans[OF refs_le[OF f]]) (use assms in \<open>simp add: ext_ok_def\<close>)
  then show "int (refs P s f) \<le> 2 ^ 61" by simp
qed

lemma slot_alive:
  assumes "ext_ok P ext" "p \<in> P" "fd < PROC_MAX_FILES" "fst (tables s p fd) = Some f"
  shows "0 < int (refs P s f) + ext f" "int (refs P s f) + ext f < 2 ^ 63 - 1"
proof -
  note e = ext_okD(1)[OF assms(1)] ext_okD(2,3)[OF assms(1), of f] ext_okD(4)[OF assms(1), of s f]
  have "card {fd} \<le> refs P s f" by (rule refs_member[OF e(1) assms(2)]) (use assms in auto)
  then show "0 < int (refs P s f) + ext f" using e(2) by simp
  show "int (refs P s f) + ext f < 2 ^ 63 - 1" using e by simp
qed

lemma held_alive:
  assumes "ext_ok P ext" "0 < ext f"
  shows "0 < int (refs P s f) + ext f" "int (refs P s f) + ext f < 2 ^ 63 - 1"
  using assms(2) ext_okD(3)[OF assms(1), of f] ext_okD(4)[OF assms(1), of s f] by simp_all

lemma file_inv_eq: "file_inv P e s \<Longrightarrow> (\<And>f. e f = e' f) \<Longrightarrow> file_inv P e' s"
  by (simp add: file_inv_def)

lemma install_at_inv:
  assumes "file_inv P ext s" "ext_ok P ext" "p \<in> P" "0 < ext f"
  shows "file_inv P ext (snd (proc_file_install_at p fd (Some f) fl s))"
proof -
  note e = ext_okD[OF assms(2)]
  have "file_inv P ext (set_slot p (nat fd) (Some f, fl) (file_ref (Some f) s))"
    if "\<not> bad_fd fd" "fst (tables s p (nat fd)) = None"
  proof -
    have "nat fd < PROC_MAX_FILES" using that(1) by (auto simp: bad_fd_def)
    from file_inv_slot[OF e(1) assms(3) this file_inv_ref[OF assms(1) held_alive[OF assms(2,4)]], of "Some f" fl]
    show ?thesis by (rule file_inv_eq) (use that(2) in auto)
  qed
  then show ?thesis using assms(1) by (auto simp: proc_file_install_at_def fail_def)
qed

lemma install_inv:
  assumes "file_inv P ext s" "ext_ok P ext" "p \<in> P" "0 < ext f"
  shows "file_inv P ext (snd (proc_file_install p (Some f) fl s))"
  using install_at_inv[OF assms] assms(1)
  by (auto simp: proc_file_install_def fail_def split: sum.splits)

lemma flags_inv:
  assumes "file_inv P ext s" "ext_ok P ext" "p \<in> P"
  shows "file_inv P ext (snd (proc_file_set_flags p fd fl s))"
proof -
  have "file_inv P ext (set_slot p (nat fd) (Some f, fl) s)" if "\<not> bad_fd fd" "tables s p (nat fd) = (Some f, fl')" for f fl'
  proof -
    have "nat fd < PROC_MAX_FILES" using that(1) by (auto simp: bad_fd_def)
    from file_inv_slot[OF ext_okD(1)[OF assms(2)] assms(3) this assms(1), of "Some f" fl]
    show ?thesis by (rule file_inv_eq) (simp add: that(2))
  qed
  then show ?thesis using assms(1)
    by (auto simp: proc_file_set_flags_def fail_def split: prod.splits option.splits)
qed

lemma clone_slots_inv:
  assumes "file_inv P ext s" "ext_ok P ext" "child \<in> P" "parent \<in> P" "child \<noteq> parent"
    "\<forall>fd\<in>set fds. fd < PROC_MAX_FILES \<and> fst (tables s child fd) = None" "distinct fds"
  shows "file_inv P ext (clone_slots child parent fds s)"
  using assms
proof (induction fds arbitrary: s)
  case Nil
  then show ?case by simp
next
  case (Cons fd fds)
  obtain x fl where e: "tables s parent fd = (x, fl)" by (cases "tables s parent fd")
  define s1 where "s1 = set_slot child fd (x, fl) s"
  have fd: "fd < PROC_MAX_FILES" "fst (tables s child fd) = None" using Cons.prems(6) by auto
  have i1: "file_inv P (\<lambda>f. ext f - of_bool (x = Some f)) s1"
    using file_inv_slot[OF ext_okD(1)[OF Cons.prems(2)] Cons.prems(3) fd(1) Cons.prems(1), of x fl] fd(2)
    by (simp add: s1_def)
  have i2: "file_inv P ext (file_ref (x) s1)"
  proof (cases "x")
    case None
    then show ?thesis using i1 by (simp add: file_ref_def)
  next
    case (Some f)
    have r: "int (refs P s1 f) = int (refs P s f) + 1"
      using refs_set[OF ext_okD(1)[OF Cons.prems(2)] Cons.prems(3) fd(1), of x fl s f] Some fd(2)
      by (simp add: s1_def)
    note al = slot_alive[OF Cons.prems(2,4) fd(1), of s f]
    have "file_inv P ((\<lambda>g. ext g - of_bool (x = Some g))(f := ext f - of_bool (x = Some f) + 1)) (file_ref (Some f) s1)"
      by (rule file_inv_ref[OF i1]) (use al r Some e in auto)
    then show ?thesis unfolding Some by (rule file_inv_eq) auto
  qed
  have "\<forall>i\<in>set fds. i < PROC_MAX_FILES \<and> fst (tables (file_ref (x) s1) child i) = None"
    using Cons.prems(6,7) by (auto simp: s1_def)
  then show ?case using Cons.IH[OF i2 Cons.prems(2-5)] Cons.prems(7) by (simp add: s1_def e)
qed

lemma find_free_fd_spec:
  "(case find_free_fd t n of
      Inl e \<Rightarrow> e = EMFILE \<and> (\<forall>i. n \<le> i \<and> i < PROC_MAX_FILES \<longrightarrow> fst (t i) \<noteq> None)
    | Inr k \<Rightarrow> n \<le> k \<and> k < PROC_MAX_FILES \<and> fst (t k) = None \<and> (\<forall>i. n \<le> i \<and> i < k \<longrightarrow> fst (t i) \<noteq> None))"
proof (induction t n rule: find_free_fd.induct)
  case (1 t fd)
  show ?case
  proof (cases "fd \<ge> PROC_MAX_FILES \<or> fst (t fd) = None")
    case True
    then show ?thesis by (auto simp: find_free_fd.simps[of t fd])
  next
    case False
    then have eq: "find_free_fd t fd = find_free_fd t (fd + 1)" by (subst find_free_fd.simps) auto
    have "i = fd \<or> fd + 1 \<le> i" if "fd \<le> i" for i using that by auto
    then show ?thesis using 1 False unfolding eq
      by (simp split: sum.splits) (metis Suc_eq_plus1 Suc_leD)+
  qed
qed

lemma dup_target_bound:
  assumes "dup_target t newfd = Inr k"
  shows "k < PROC_MAX_FILES"
  using assms find_free_fd_spec[where t = t and n = 0] by (auto simp: dup_target_def split: if_splits)

text \<open>What the tables rely on in a close method: it leaves the file objects and the tables alone.\<close>

locale close_method =
  fixes cl :: "ptr \<Rightarrow> 'a fsys_scheme \<Rightarrow> 'a fsys_scheme"
  assumes cl_fobjs: "g \<noteq> f \<Longrightarrow> fobjs (cl f s) g = fobjs s g"
    and cl_tables: "tables (cl f s) = tables s"
begin

lemma unref_tables [simp]: "tables (file_unref cl file s) = tables s"
  by (auto simp: file_unref_def file_destroy_def Let_def cl_tables split: option.splits)

lemma unref_refs [simp]: "refs P (file_unref cl file s) = refs P s"
  by (rule refs_cong) simp

lemma unref_other: "g \<noteq> f \<Longrightarrow> fobjs (file_unref cl (Some f) s) g = fobjs s g"
  by (auto simp: file_unref_def file_destroy_def Let_def cl_fobjs split: option.splits)

lemma unref_self:
  "fobjs s f = Some ob \<Longrightarrow> fobjs (file_unref cl (Some f) s) f =
     (if s64 (f_refcount ob - 1) = 0 then None else Some (ob\<lparr>f_refcount := s64 (f_refcount ob - 1)\<rparr>))"
  by (auto simp: file_unref_def file_destroy_def Let_def cl_fobjs split: option.splits)

lemma inv_unref:
  assumes "file_inv P ext s" "0 < int (refs P s f) + ext f" "int (refs P s f) + ext f < 2 ^ 63"
  shows "file_inv P (ext(f := ext f - 1)) (file_unref cl (Some f) s)"
proof -
  obtain ob where ob: "fobjs s f = Some ob" "f_refcount ob = int (refs P s f) + ext f"
    using file_inv_alive[OF assms(1,2)] by blast
  have c: "s64 (f_refcount ob - 1) = int (refs P s f) + (ext f - 1)" using assms(2,3) ob(2) by simp
  have "counted (fobjs (file_unref cl (Some f) s) g) (int (refs P s g) + (ext(f := ext f - 1)) g)" for g
    using file_invD[OF assms(1), of g] assms(2) unref_self[OF ob(1)] unref_other[of g f s] c
    by (cases "g = f") (auto simp: counted_def)
  then show ?thesis by (simp add: file_inv_def)
qed

lemma drop_slot_inv:
  assumes "file_inv P ext s" "ext_ok P ext" "p \<in> P" "fd < PROC_MAX_FILES" "fst (tables s p fd) = Some f"
  shows "file_inv P ext (set_slot p fd (None, 0) (file_unref cl (Some f) s))"
proof -
  note al = slot_alive[OF assms(2-5)]
  have "file_inv P (ext(f := ext f - 1)) (file_unref cl (Some f) s)" by (rule inv_unref[OF assms(1)]) (use al in auto)
  from file_inv_slot[OF ext_okD(1)[OF assms(2)] assms(3,4) this, of None 0]
  show ?thesis by (rule file_inv_eq) (use assms(5) in auto)
qed

lemma drop_slots_inv:
  assumes "file_inv P ext s" "ext_ok P ext" "p \<in> P" "\<forall>fd\<in>set fds. fd < PROC_MAX_FILES"
  shows "file_inv P ext (drop_slots cl sel p fds s)"
  using assms
proof (induction fds arbitrary: s)
  case Nil
  then show ?case by simp
next
  case (Cons fd fds)
  then have "file_inv P ext (if fst (tables s p fd) \<noteq> None \<and> sel (snd (tables s p fd))
        then set_slot p fd (None, 0) (file_unref cl (fst (tables s p fd)) s) else s)"
    using drop_slot_inv[of P ext s p fd] by auto
  then show ?case using Cons by simp
qed

lemma close_inv:
  assumes "file_inv P ext s" "ext_ok P ext" "p \<in> P"
  shows "file_inv P ext (snd (proc_file_close cl p fd s))"
proof -
  have "file_inv P ext (file_unref cl (Some f) (set_slot p (nat fd) (None, 0) s))"
    if "\<not> bad_fd fd" "tables s p (nat fd) = (Some f, fl)" for f fl
  proof -
    have fd: "nat fd < PROC_MAX_FILES" using that(1) by (auto simp: bad_fd_def)
    have t: "fst (tables s p (nat fd)) = Some f" using that(2) by simp
    note al = slot_alive[OF assms(2,3) fd t]
    define s1 where "s1 = set_slot p (nat fd) (None, 0) s"
    have i1: "file_inv P (\<lambda>g. ext g + of_bool (Some f = Some g)) s1"
      using file_inv_slot[OF ext_okD(1)[OF assms(2)] assms(3) fd assms(1), of None 0] t by (simp add: s1_def)
    have r: "int (refs P s1 f) = int (refs P s f) - 1"
      using refs_set[OF ext_okD(1)[OF assms(2)] assms(3) fd, of None 0 s f] t by (simp add: s1_def)
    have "file_inv P ((\<lambda>g. ext g + of_bool (Some f = Some g))(f := ext f + of_bool (Some f = Some f) - 1)) (file_unref cl (Some f) s1)"
      by (rule inv_unref[OF i1]) (use al r in auto)
    then show ?thesis unfolding s1_def by (rule file_inv_eq) auto
  qed
  then show ?thesis using assms(1) by (auto simp: proc_file_close_def fail_def split: prod.splits option.splits)
qed

lemma replace_slot_inv:
  assumes "file_inv P ext s" "ext_ok P ext" "p \<in> P" "t < PROC_MAX_FILES" "k < PROC_MAX_FILES" "t \<noteq> k"
    "fst (tables s p k) = Some f"
  shows "file_inv P ext (set_slot p t (Some f, fl)
           (file_ref (Some f) (if fst (tables s p t) \<noteq> None then file_unref cl (fst (tables s p t)) s else s)))"
proof -
  define x where "x = fst (tables s p t)"
  define s1 where "s1 = (if x \<noteq> None then file_unref cl x s else s)"
  have t1: "tables s1 = tables s" by (simp add: s1_def)
  then have r1: "refs P s1 = refs P s" by (rule refs_cong)
  have i1: "file_inv P (\<lambda>g. ext g - of_bool (x = Some g)) s1"
  proof (cases x)
    case None
    then show ?thesis using assms(1) by (simp add: s1_def)
  next
    case (Some g)
    have "file_inv P (ext(g := ext g - 1)) (file_unref cl (Some g) s)"
      by (rule inv_unref[OF assms(1)]) (use slot_alive[OF assms(2,3,4), of s g] Some in \<open>auto simp: x_def\<close>)
    then show ?thesis using Some unfolding s1_def by (simp add: file_inv_eq)
  qed
  note al = slot_alive[OF assms(2,3,5,7)]
  have pos: "0 < int (refs P s f) + (ext f - of_bool (x = Some f))"
  proof (cases "x = Some f")
    case True
    have "card {t, k} \<le> refs P s f"
      by (rule refs_member[OF ext_okD(1)[OF assms(2)] assms(3)]) (use assms(4-7) True in \<open>auto simp: x_def\<close>)
    then show ?thesis using assms(6) ext_okD(2)[OF assms(2), of f] by simp
  qed (use al in simp)
  have i2: "file_inv P ((\<lambda>g. ext g - of_bool (x = Some g))(f := ext f - of_bool (x = Some f) + 1)) (file_ref (Some f) s1)"
    by (rule file_inv_ref[OF i1]) (use pos al r1 in auto)
  have "file_inv P ext (set_slot p t (Some f, fl) (file_ref (Some f) s1))"
    by (rule file_inv_eq[OF file_inv_slot[OF ext_okD(1)[OF assms(2)] assms(3,4) i2, of "Some f" fl]])
       (auto simp: t1 x_def)
  then show ?thesis unfolding s1_def x_def .
qed

lemma dup_inv:
  assumes "file_inv P ext s" "ext_ok P ext" "p \<in> P"
  shows "file_inv P ext (snd (proc_file_dup cl p fd newfd ce s))"
proof -
  have same: "file_inv P ext (set_slot p t (Some f, fl) s)" if "t < PROC_MAX_FILES" "fst (tables s p t) = Some f" for t f fl
    by (rule file_inv_eq[OF file_inv_slot[OF ext_okD(1)[OF assms(2)] assms(3) that(1) assms(1), of "Some f" fl]])
       (simp add: that(2))
  have fd: "nat fd < PROC_MAX_FILES" if "\<not> bad_fd fd" using that by (auto simp: bad_fd_def)
  show ?thesis
    using assms(1) same replace_slot_inv[OF assms, of _ "nat fd"] fd dup_target_bound[of "tables s p" newfd]
    by (auto simp: proc_file_dup_def fail_def Let_def split: option.splits sum.splits)
qed

lemma step_inv:
  assumes "ft_step cl P S S'" "file_inv P (snd S) (fst S)" "ext_ok P (snd S)"
  shows "file_inv P (snd S') (fst S') \<and> ext_ok P (snd S')"
  using assms
proof (induction rule: ft_step.induct)
  case (st_create ops priv md s f s' ext)
  then have "file_inv P (ext(f := 1)) s'" using file_inv_create[of P ext s ops priv md f s'] ext_okD(2)[of P ext f] by simp
  moreover have "ext_ok P (ext(f := 1))" using st_create by (simp add: ext_ok_def)
  ultimately show ?case unfolding fst_conv snd_conv by blast
next
  case (st_nomem ops priv md s s' ext)
  then have "fobjs s' = fobjs s" "tables s' = tables s"
    by (auto simp: file_create_def split: prod.splits option.splits)
  then show ?case using st_nomem refs_cong[of s' s] by (simp add: file_inv_def)
next
  case (st_get p fd s f fl s' ext)
  have t: "tables s p (nat fd) = (Some f, fl)" "\<not> bad_fd fd" "s' = set_err None (file_ref (Some f) s)"
    using st_get(2) by (auto simp: proc_file_get_def split: if_splits prod.splits option.splits)
  have "nat fd < PROC_MAX_FILES" using t(2) by (auto simp: bad_fd_def)
  then have al: "0 < int (refs P s f) + ext f" "int (refs P s f) + ext f < 2 ^ 63 - 1"
    using slot_alive[of P ext p "nat fd" s f] t(1) st_get(1,5) by simp_all
  have "file_inv P (ext(f := ext f + 1)) s'" using file_inv_ref[of P ext s f] al st_get(4) t(3) by simp
  moreover have "ext_ok P (ext(f := ext f + 1))" using st_get(3,5) by (auto simp: ext_ok_def)
  ultimately show ?case unfolding fst_conv snd_conv by blast
next
  case (st_unref ext f s)
  then have "file_inv P (ext(f := ext f - 1)) (file_unref cl (Some f) s)"
    using inv_unref[of P ext s f] held_alive[of P ext f s] by simp
  moreover have "ext f - 1 \<le> 2 ^ 62" using ext_okD(3)[of P ext f] st_unref by simp
  then have "ext_ok P (ext(f := ext f - 1))" using st_unref by (simp add: ext_ok_def)
  ultimately show ?case unfolding fst_conv snd_conv by blast
next
  case (st_clone child parent s ext)
  then show ?case using clone_slots_inv[of P ext s child parent "[0..<PROC_MAX_FILES]"]
    by (auto simp: proc_file_table_clone_def)
qed (auto simp: install_inv install_at_inv close_inv dup_inv flags_inv proc_file_table_cleanup_def
      proc_file_table_prepare_exec_def drop_slots_inv)

lemma steps_inv:
  assumes "(ft_step cl P)\<^sup>*\<^sup>* S S'" "file_inv P (snd S) (fst S)" "ext_ok P (snd S)"
  shows "file_inv P (snd S') (fst S') \<and> ext_ok P (snd S')"
  using assms by (induction rule: rtranclp_induct) (use step_inv in blast)+

end

interpretation console: close_method serial_close_noop
  by unfold_locales (simp_all add: serial_close_noop_def)

section \<open>Properties\<close>

text \<open>
  \<^verbatim>\<open>proc_file_install\<close> hands out the lowest free descriptor and makes it refer to the file with the
  given flags, leaving every other descriptor alone; it fails with \<^verbatim>\<open>EMFILE\<close>, changing no table, exactly
  when all descriptors are in use.
\<close>

theorem proc_file_install_lowest:
  "case proc_file_install p (Some f) fl s of
     (Inr fd, s') \<Rightarrow> fd < PROC_MAX_FILES \<and> fst (tables s p fd) = None \<and> (\<forall>i<fd. fst (tables s p i) \<noteq> None)
        \<and> tables s' = (tables s)(p := (tables s p)(fd := (Some f, fl))) \<and> err_no s' = None
   | (Inl e, s') \<Rightarrow> e = EMFILE \<and> s' = set_err (Some EMFILE) s \<and> (\<forall>i<PROC_MAX_FILES. fst (tables s p i) \<noteq> None)"
proof (cases "find_free_fd (tables s p) 0")
  case (Inl e)
  then show ?thesis using find_free_fd_spec[where t = "tables s p" and n = 0]
    by (simp add: proc_file_install_def fail_def)
next
  case (Inr fd)
  then have "fd < PROC_MAX_FILES" "fst (tables s p fd) = None" "\<forall>i<fd. fst (tables s p i) \<noteq> None"
    using find_free_fd_spec[where t = "tables s p" and n = 0] by simp_all
  then show ?thesis using Inr
    by (simp add: proc_file_install_def proc_file_install_at_def bad_fd_def) (simp add: set_err_def)
qed

definition demo_files :: fsys where
  "demo_files = \<lparr>fobjs = (\<lambda>_. None)(7 \<mapsto> \<lparr>f_ops = Some serial_file_ops, f_private = None, f_refcount = 2, f_mode = 2\<rparr>),
     tables = (\<lambda>_ _. (None, 0))(1 := (\<lambda>_. (None, 0))(0 := (Some 7, 0))), err_no = None, fmem = \<lparr>live = [7], answers = [Some 9]\<rparr>\<rparr>"

theorem proc_file_install_lowest_witness:
  "fst (proc_file_install 1 (Some 7) 0 demo_files) = Inr 1
   \<and> tables (snd (proc_file_install 1 (Some 7) 0 demo_files)) 1 1 = (Some 7, 0)"
proof -
  have "find_free_fd (tables demo_files 1) 0 = Inr 1"
    by (simp add: find_free_fd.simps demo_files_def PROC_MAX_FILES_def)
  then have "fst (proc_file_install 1 (Some 7) 0 demo_files) = Inr 1"
    by (simp add: proc_file_install_def proc_file_install_at_def bad_fd_def PROC_MAX_FILES_def demo_files_def)
  then show ?thesis using proc_file_install_lowest[where p = 1 and f = 7 and fl = 0 and s = demo_files] by (auto split: prod.splits sum.splits)
qed

text \<open>
  The keyboard buffer keeps the latest 255 keys: after any sequence of keys on a buffer, reading
  returns them in the order they were typed, with only the oldest dropped when there were more.
\<close>

theorem stdin_keeps_latest_keys:
  assumes "stdin_ok r"
  shows "stdin_ok (fold stdin_enqueue_char chs r)
       \<and> fst (stdin_drain 255 (fold stdin_enqueue_char chs r)) =
           drop (length (stdin_content r @ chs) - 255) (stdin_content r @ chs)"
proof -
  have "stdin_ok (fold stdin_enqueue_char chs r) \<and> stdin_content (fold stdin_enqueue_char chs r) =
      drop (length (stdin_content r @ chs) - 255) (stdin_content r @ chs)"
    using assms
  proof (induction chs arbitrary: r)
    case Nil
    then show ?case using stdin_count_le[OF Nil] by simp
  next
    case (Cons ch chs)
    let ?r = "stdin_enqueue_char ch r"
    have r: "stdin_ok ?r" "stdin_content ?r = drop (stdin_count r - 254) (stdin_content r) @ [ch]"
      using stdin_push_content[OF Cons.prems, of ch] by (simp_all add: stdin_enqueue_char_def)
    have "stdin_content ?r = drop (stdin_count r - 254) (stdin_content r @ [ch])" using r(2) stdin_count_le[OF Cons.prems] by simp
    moreover have "stdin_count r \<le> 255" by (rule stdin_count_le[OF Cons.prems])
    ultimately have "drop (length (stdin_content ?r @ chs) - 255) (stdin_content ?r @ chs)
        = drop (length (stdin_content r @ ch # chs) - 255) (stdin_content r @ ch # chs)"
      by (cases "stdin_count r = 255") (auto simp: drop_append)
    then show ?case using Cons.IH[OF r(1)] by simp
  qed
  moreover have "length (stdin_content (fold stdin_enqueue_char chs r)) \<le> 255"
    using calculation stdin_count_le by simp
  ultimately show ?thesis by (simp add: stdin_drain_deq_n kbd.deq_n_take)
qed

theorem stdin_keeps_latest_keys_witness:
  "fst (stdin_drain 255 (fold stdin_enqueue_char [104, 105] (stdin_buffer_initialize (\<lambda>_. 0)))) = [104, 105]"
  using stdin_keeps_latest_keys[of "stdin_buffer_initialize (\<lambda>_. 0)" "[104, 105]"]
  by (simp add: stdin_buffer_initialize_def stdin_ok_def STDIN_BUFFER_SIZE_def stdin_content_def stdin_count_def)

lemma user_read_loop_greedy:
  assumes rd: "\<And>n s. rd n s = (Inr (take n (src s)), adv n s)" "\<And>n s. src (adv n s) = drop n (src s)"
    "\<And>n s. dst (adv n s) = dst s"
    and put: "\<And>off bs s. put off bs s = (True, st off bs s)" "\<And>off bs s. src (st off bs s) = src s"
    "\<And>off bs s. dst (st off bs s) = dst s @ bs"
    and "0 < chunk" "tot \<le> len"
  shows "\<exists>res s'. user_read_loop rd put len chunk tot s = (res, tot + min (len - tot) (length (src s)), s')
       \<and> fst (loop_result len (res, tot + min (len - tot) (length (src s)), s')) = Inr (tot + min (len - tot) (length (src s)))
       \<and> dst s' = dst s @ take (len - tot) (src s) \<and> src s' = drop (len - tot) (src s)"
  using \<open>tot \<le> len\<close>
proof (induction "len - tot" arbitrary: tot s rule: less_induct)
  case less
  show ?case
  proof (cases "tot = len")
    case True
    then have "user_read_loop rd put len chunk tot s = (Inr 0, len, s)" by (simp add: user_read_loop.simps)
    then show ?thesis using True by (auto simp: loop_result_def)
  next
    case False
    define q where "q = min (len - tot) chunk"
    have q: "0 < q" "q \<le> len - tot" using False less.prems \<open>0 < chunk\<close> by (auto simp: q_def)
    define s2 where "s2 = st tot (take q (src s)) (adv q s)"
    have s2: "src s2 = drop q (src s)" "dst s2 = dst s @ take q (src s)" by (simp_all add: s2_def rd put)
    have unf: "user_read_loop rd put len chunk tot s =
        (if src s = [] then (Inr tot, tot, adv q s)
         else if length (src s) < q then (Inr (tot + length (src s)), tot + length (src s), s2)
         else user_read_loop rd put len chunk (tot + q) s2)"
      using False less.prems q by (subst user_read_loop.simps) (auto simp: Let_def rd(1) put(1) q_def[symmetric] s2_def)
    consider "src s = []" | "src s \<noteq> []" "length (src s) < q" | "q \<le> length (src s)" by linarith
    then show ?thesis
    proof cases
      case 1
      then show ?thesis using unf rd(2,3)[of q s] by (simp add: loop_result_def)
    next
      case 2
      then show ?thesis using unf s2 q by (simp add: loop_result_def)
    next
      case 3
      then have rec: "user_read_loop rd put len chunk tot s = user_read_loop rd put len chunk (tot + q) s2" using unf q by auto
      have m: "tot + q + min (len - (tot + q)) (length (drop q (src s))) = tot + min (len - tot) (length (src s))"
        using 3 q less.prems by simp
      have tk: "take q (src s) @ take (len - (tot + q)) (drop q (src s)) = take (len - tot) (src s)"
        using take_add[of q "len - (tot + q)" "src s"] q by simp
      have dr: "drop (len - (tot + q)) (drop q (src s)) = drop (len - tot) (src s)" using q by simp
      have pr: "len - (tot + q) < len - tot" "tot + q \<le> len" using q less.prems by auto
      obtain res s' where "user_read_loop rd put len chunk (tot + q) s2 = (res, tot + q + min (len - (tot + q)) (length (src s2)), s')"
        "fst (loop_result len (res, tot + q + min (len - (tot + q)) (length (src s2)), s')) =
           Inr (tot + q + min (len - (tot + q)) (length (src s2)))"
        "dst s' = dst s2 @ take (len - (tot + q)) (src s2)" "src s' = drop (len - (tot + q)) (src s2)"
        using less.hyps[of "tot + q" s2] pr by blast
      then show ?thesis unfolding rec s2 m append_assoc tk dr by blast
    qed
  qed
qed


record demo_io = fsys +
  io_src :: "byte list"
  io_dst :: "byte list"


end
