(* ===== verification/Pipe.thy ===== *)
theory Pipe
  imports File_Table
begin

text \<open>
  Pipes: \<^verbatim>\<open>src/kernel/fs/core/pipe.c\<close>.

  The shared part of a pipe is a ring buffer of \<^verbatim>\<open>PIPE_BUFFER_SIZE\<close> bytes with the numbers of open ends.
  \<^verbatim>\<open>pipe_read_impl\<close> and \<^verbatim>\<open>pipe_write_impl\<close> run with \<^verbatim>\<open>shared->lock\<close> held except while they wait on a
  condition variable; a \<^emph>\<open>turn\<close> is what they do from taking the lock, or from waking up, to the next wait
  or the return. The signals and broadcasts they send are listed in \<open>pipe_event\<close>s. The heap objects of
  the pipes (\<open>pshared\<close>, \<open>pends\<close>) extend the state of the file layer, and \<open>pipe_close_impl\<close> is an instance
  of its contract for close methods.
\<close>

definition PIPE_BUFFER_SIZE :: nat where
  "PIPE_BUFFER_SIZE = 4096"

record pipe_shared =
  pb_buffer :: "nat \<Rightarrow> byte"
  pb_head :: nat
  pb_tail :: nat
  pb_count :: nat
  pb_readers :: nat
  pb_writers :: nat
  pb_atime :: timespec
  pb_mtime :: timespec
  pb_ctime :: timespec

record pipe_endpoint =
  pe_shared :: ptr
  pe_is_reader :: bool

datatype pipe_event = SignalReadable | SignalWritable | BroadcastReadable | BroadcastWritable

definition pipe_shared_init :: "nat \<Rightarrow> (nat \<Rightarrow> byte) \<Rightarrow> pipe_shared" where
  "pipe_shared_init now old =
     \<lparr>pb_buffer = old, pb_head = 0, pb_tail = 0, pb_count = 0, pb_readers = 1, pb_writers = 1,
      pb_atime = timespec_of_us now, pb_mtime = timespec_of_us now, pb_ctime = timespec_of_us now\<rparr>"

definition pipe_put :: "byte \<Rightarrow> pipe_shared \<Rightarrow> pipe_shared" where
  "pipe_put b sh = sh\<lparr>pb_buffer := (pb_buffer sh)(pb_tail sh := b), pb_tail := (pb_tail sh + 1) mod PIPE_BUFFER_SIZE\<rparr>"

definition pipe_shared_write :: "byte list \<Rightarrow> pipe_shared \<Rightarrow> pipe_shared" where
  "pipe_shared_write bs sh = (let sh1 = fold pipe_put bs sh in sh1\<lparr>pb_count := u64 (pb_count sh1 + length bs)\<rparr>)"

fun pipe_shared_read :: "nat \<Rightarrow> pipe_shared \<Rightarrow> byte list \<times> pipe_shared" where
  "pipe_shared_read 0 sh = ([], sh)"
| "pipe_shared_read (Suc n) sh =
     (if pb_count sh > 0
      then (case pipe_shared_read n (sh\<lparr>pb_head := (pb_head sh + 1) mod PIPE_BUFFER_SIZE, pb_count := pb_count sh - 1\<rparr>) of
              (bs, sh') \<Rightarrow> (pb_buffer sh (pb_head sh) # bs, sh'))
      else ([], sh))"

section \<open>Reading and writing\<close>

datatype pipe_out = PReturn "errno + nat" | PWait

text \<open>The loop of \<^verbatim>\<open>pipe_read_impl\<close>: \<open>tot\<close> is \<^verbatim>\<open>total\<close>, \<open>out\<close> the bytes stored so far.\<close>

partial_function (option) pipe_read_turn ::
    "nat \<Rightarrow> nat \<Rightarrow> nat \<Rightarrow> byte list \<Rightarrow> pipe_event list \<Rightarrow> pipe_shared \<Rightarrow>
     (pipe_out \<times> byte list \<times> pipe_event list \<times> pipe_shared) option" where
  "pipe_read_turn now len tot out ev sh =
     (if pb_count sh = 0
      then Some (if pb_writers sh = 0 then PReturn (Inr tot) else PWait, out, ev, sh)
      else let chunk = min (pb_count sh) (len - tot);
               bs = fst (pipe_shared_read chunk sh);
               sh1 = snd (pipe_shared_read chunk sh);
               sh2 = (if length bs > 0 then sh1\<lparr>pb_atime := timespec_of_us now\<rparr> else sh1);
               tot' = tot + length bs
           in if tot' > 0 then Some (PReturn (Inr tot'), out @ bs, ev @ [SignalWritable], sh2)
              else pipe_read_turn now len tot' (out @ bs) (ev @ [SignalWritable]) sh2)"

definition pipe_read_impl ::
    "nat \<Rightarrow> pipe_endpoint option \<Rightarrow> nat \<Rightarrow> pipe_shared \<Rightarrow> (pipe_out \<times> byte list \<times> pipe_event list \<times> pipe_shared) option" where
  "pipe_read_impl now e len sh =
     (if len = 0 then Some (PReturn (Inr 0), [], [], sh)
      else case e of
        None \<Rightarrow> Some (PReturn (Inl EBADF), [], [], sh)
      | Some ep \<Rightarrow>
          if \<not> pe_is_reader ep then Some (PReturn (Inl EBADF), [], [], sh)
          else pipe_read_turn now len 0 [] [] sh)"

text \<open>
  The loop of \<^verbatim>\<open>pipe_write_impl\<close> after \<open>tot\<close> bytes of \<open>data\<close>. \<open>woken\<close> says that it resumes inside the
  inner loop, after a wait, where the number of readers has already been tested.
\<close>

function pipe_write_turn ::
    "nat \<Rightarrow> bool \<Rightarrow> byte list \<Rightarrow> nat \<Rightarrow> pipe_event list \<Rightarrow> pipe_shared \<Rightarrow> pipe_out \<times> nat \<times> pipe_event list \<times> pipe_shared" where
  "pipe_write_turn now woken data tot ev sh =
     (if tot \<ge> length data then (PReturn (Inr tot), tot, ev, sh)
      else if \<not> woken \<and> pb_readers sh = 0
      then (PReturn (if tot > 0 then Inr tot else Inl EPIPE), tot, ev, sh)
      else if pb_count sh = PIPE_BUFFER_SIZE
      then (if pb_readers sh = 0 then PReturn (Inl EPIPE) else PWait, tot, ev, sh)
      else let space = u64 (PIPE_BUFFER_SIZE + 2 ^ 64 - pb_count sh);
               chunk = min space (length data - tot);
               sh1 = pipe_shared_write (take chunk (drop tot data)) sh;
               sh2 = (if chunk > 0 then sh1\<lparr>pb_mtime := timespec_of_us now, pb_ctime := timespec_of_us now\<rparr> else sh1)
           in if chunk = 0 then (PReturn (Inr tot), tot, ev @ [SignalReadable], sh2)
              else pipe_write_turn now False data (tot + chunk) (ev @ [SignalReadable]) sh2)"
  by pat_completeness auto
termination
  by (relation "measure (\<lambda>(now, woken, data, tot, ev, sh). length data - tot)") (auto simp: Let_def)

declare pipe_write_turn.simps [simp del]

definition pipe_write_impl ::
    "nat \<Rightarrow> pipe_endpoint option \<Rightarrow> byte list \<Rightarrow> pipe_shared \<Rightarrow> pipe_out \<times> nat \<times> pipe_event list \<times> pipe_shared" where
  "pipe_write_impl now e data sh =
     (if data = [] then (PReturn (Inr 0), 0, [], sh)
      else case e of
        None \<Rightarrow> (PReturn (Inl EBADF), 0, [], sh)
      | Some ep \<Rightarrow>
          if pe_is_reader ep then (PReturn (Inl EBADF), 0, [], sh)
          else pipe_write_turn now False data 0 [] sh)"

section \<open>Opening and closing\<close>

record pipe_sys = fsys +
  pshared :: "ptr \<Rightarrow> pipe_shared option"
  pends :: "ptr \<Rightarrow> pipe_endpoint option"
  pevents :: "(ptr \<times> pipe_event) list"

text \<open>The part of \<^verbatim>\<open>pipe_close_impl\<close> under the lock: the new shared state, the broadcasts, and \<^verbatim>\<open>cleanup\<close>.\<close>

definition pipe_detach :: "nat \<Rightarrow> bool \<Rightarrow> pipe_shared \<Rightarrow> pipe_shared \<times> pipe_event list \<times> bool" where
  "pipe_detach now is_reader sh =
     (let sh1 = (if is_reader then sh\<lparr>pb_readers := pb_readers sh - 1\<rparr> else sh\<lparr>pb_writers := pb_writers sh - 1\<rparr>);
          ev = (if is_reader then (if pb_readers sh1 = 0 then [BroadcastWritable] else [])
                else (if pb_writers sh1 = 0 then [BroadcastReadable] else []))
      in (sh1\<lparr>pb_ctime := timespec_of_us now\<rparr>, ev, pb_readers sh1 = 0 \<and> pb_writers sh1 = 0))"

definition pipe_close_impl :: "nat \<Rightarrow> ptr option \<Rightarrow> pipe_sys \<Rightarrow> (errno + nat) \<times> pipe_sys" where
  "pipe_close_impl now priv s =
     (case priv of
        None \<Rightarrow> (Inl EINVAL, s)
      | Some ea \<Rightarrow>
          (case pends s ea of
             None \<Rightarrow> (Inl EINVAL, s)
           | Some ep \<Rightarrow>
               (case pshared s (pe_shared ep) of
                  None \<Rightarrow> (Inl EINVAL, s)
                | Some sh \<Rightarrow>
                    (let d = pipe_detach now (pe_is_reader ep) sh;
                         s1 = s\<lparr>pshared := (pshared s)(pe_shared ep \<mapsto> fst d),
                                pevents := pevents s @ map (Pair (pe_shared ep)) (fst (snd d))\<rparr>;
                         s2 = s1\<lparr>pends := (pends s1)(ea := None), fmem := kfree_obj ea (fmem s1)\<rparr>
                     in (Inr 0, if snd (snd d)
                                then s2\<lparr>pshared := (pshared s2)(pe_shared ep := None),
                                        fmem := kfree_obj (pe_shared ep) (fmem s2)\<rparr>
                                else s2)))))"

definition pipe_file_ops :: file_ops where
  "pipe_file_ops = \<lparr>op_table = ''pipe_file'', op_read = True, op_write = True, op_close = True, op_seek = False, op_ioctl = False,
     op_mmap = False, op_stat = True, op_chmod = False, op_utimens = False\<rparr>"

text \<open>The close method of an open file: pipes have their own, console files do nothing.\<close>

definition close_any :: "nat \<Rightarrow> ptr \<Rightarrow> pipe_sys \<Rightarrow> pipe_sys" where
  "close_any now f s =
     (case fobjs s f of
        None \<Rightarrow> s
      | Some ob \<Rightarrow> if f_ops ob = Some pipe_file_ops then snd (pipe_close_impl now (f_private ob) s)
                   else serial_close_noop f s)"

definition pipe_free :: "ptr \<Rightarrow> pipe_sys \<Rightarrow> pipe_sys" where
  "pipe_free a s = s\<lparr>fmem := kfree_obj a (fmem s), pends := (pends s)(a := None), pshared := (pshared s)(a := None)\<rparr>"

definition pipe_alloc :: "pipe_sys \<Rightarrow> ptr option \<times> pipe_sys" where
  "pipe_alloc s = (case kmalloc_obj (fmem s) of (r, m) \<Rightarrow> (r, s\<lparr>fmem := m\<rparr>))"

definition pipe_open_files :: "nat \<Rightarrow> ptr \<Rightarrow> ptr \<Rightarrow> ptr \<Rightarrow> pipe_sys \<Rightarrow> (errno + ptr \<times> ptr) \<times> pipe_sys" where
  "pipe_open_files now shared reader writer s =
     (case file_create (Some pipe_file_ops) (Some reader) FILE_MODE_READ s of
        (None, s1) \<Rightarrow> (Inl ENOMEM, pipe_free shared (pipe_free reader (pipe_free writer s1)))
      | (Some rf, s1) \<Rightarrow>
          (case file_create (Some pipe_file_ops) (Some writer) FILE_MODE_WRITE s1 of
             (None, s2) \<Rightarrow>
               (Inl ENOMEM, pipe_free shared (pipe_free writer (file_unref (close_any now) (Some rf) s2)))
           | (Some wr, s2) \<Rightarrow> (Inr (rf, wr), s2)))"

definition pipe_create :: "nat \<Rightarrow> (nat \<Rightarrow> byte) \<Rightarrow> pipe_sys \<Rightarrow> (errno + ptr \<times> ptr) \<times> pipe_sys" where
  "pipe_create now old s =
     (case pipe_alloc s of
        (None, s1) \<Rightarrow> (Inl ENOMEM, s1)
      | (Some shared, s1) \<Rightarrow>
          (let s2 = s1\<lparr>pshared := (pshared s1)(shared \<mapsto> pipe_shared_init now old)\<rparr> in
           case pipe_alloc s2 of
             (None, s3) \<Rightarrow> (Inl ENOMEM, pipe_free shared s3)
           | (Some reader, s3) \<Rightarrow>
               (case pipe_alloc s3 of
                  (None, s4) \<Rightarrow> (Inl ENOMEM, pipe_free shared (pipe_free reader s4))
                | (Some writer, s4) \<Rightarrow>
                    pipe_open_files now shared reader writer
                      (s4\<lparr>pends := (pends s4)(reader \<mapsto> \<lparr>pe_shared = shared, pe_is_reader = True\<rparr>,
                                            writer \<mapsto> \<lparr>pe_shared = shared, pe_is_reader = False\<rparr>)\<rparr>))))"

record pipe_stat =
  ps_size :: nat
  ps_inode :: ptr
  ps_read_only :: bool
  ps_perms :: nat
  ps_times :: "timespec \<times> timespec \<times> timespec"

definition pipe_stat_impl :: "ptr option \<Rightarrow> pipe_sys \<Rightarrow> errno + pipe_stat" where
  "pipe_stat_impl file s =
     (case file of
        None \<Rightarrow> Inl EINVAL
      | Some f \<Rightarrow>
          (case Option.bind (fobjs s f) (\<lambda>ob. Option.bind (f_private ob) (\<lambda>ea. Option.bind (pends s ea)
                   (\<lambda>ep. map_option (Pair (pe_shared ep)) (pshared s (pe_shared ep))))) of
             None \<Rightarrow> Inl EINVAL
           | Some (a, sh) \<Rightarrow>
               (let rd = mode_of s f AND FILE_MODE_READ \<noteq> 0; wr = mode_of s f AND FILE_MODE_WRITE \<noteq> 0;
                    perms = (if rd then 292 else 0) + (if wr then 146 else 0)
                in Inr \<lparr>ps_size = pb_count sh, ps_inode = a, ps_read_only = \<not> wr,
                        ps_perms = (if perms = 0 then 384 else perms),
                        ps_times = (pb_atime sh, pb_mtime sh, pb_ctime sh)\<rparr>)))"

section \<open>The pipe as a queue of bytes\<close>

definition pipe_content :: "pipe_shared \<Rightarrow> byte list" where
  "pipe_content sh = ring PIPE_BUFFER_SIZE (pb_buffer sh) (pb_head sh) (pb_count sh)"

definition pipe_ok :: "pipe_shared \<Rightarrow> bool" where
  "pipe_ok sh \<longleftrightarrow> pb_head sh < PIPE_BUFFER_SIZE \<and> pb_count sh \<le> PIPE_BUFFER_SIZE
     \<and> pb_tail sh = (pb_head sh + pb_count sh) mod PIPE_BUFFER_SIZE"

definition pipe_room :: "byte \<Rightarrow> pipe_shared \<Rightarrow> bool" where
  "pipe_room b sh \<longleftrightarrow> pb_count sh < PIPE_BUFFER_SIZE"

definition pipe_get :: "pipe_shared \<Rightarrow> byte option \<times> pipe_shared" where
  "pipe_get sh = (case pipe_shared_read 1 sh of ([], sh') \<Rightarrow> (None, sh') | (b # bs, sh') \<Rightarrow> (Some b, sh'))"

text \<open>
  Processes that use the pipe in any interleaving of turns; \<open>w\<close> and \<open>r\<close> are the bytes written and read
  so far, in the order of the turns.
\<close>

inductive pipe_step :: "pipe_shared \<times> byte list \<times> byte list \<Rightarrow> pipe_shared \<times> byte list \<times> byte list \<Rightarrow> bool" where
  ps_read: "pipe_read_turn now len 0 [] [] sh = Some (o', bs, ev, sh') \<Longrightarrow> 0 < len \<Longrightarrow>
     pipe_step (sh, w, r) (sh', w, r @ bs)"
| ps_write: "pipe_write_turn now woken data tot [] sh = (o', tot', ev, sh') \<Longrightarrow>
     pipe_step (sh, w, r) (sh', w @ take (tot' - tot) (drop tot data), r)"
| ps_close: "pipe_step (sh, w, r) (fst (pipe_detach now is_reader sh), w, r)"

lemma pipe_content_length [simp]: "length (pipe_content sh) = pb_count sh"
  by (simp add: pipe_content_def)

lemma pipe_shared_write_Nil [simp]: "pb_count sh < 2 ^ 64 \<Longrightarrow> pipe_shared_write [] sh = sh"
  by (simp add: pipe_shared_write_def Let_def)

lemma pipe_shared_write_Cons:
  "pb_count sh + length (b # bs) < 2 ^ 64 \<Longrightarrow>
     pipe_shared_write (b # bs) sh = pipe_shared_write bs (pipe_shared_write [b] sh)"
proof -
  assume a: "pb_count sh + length (b # bs) < 2 ^ 64"
  have f: "pb_count (fold pipe_put bs t) = pb_count t" for bs and t :: pipe_shared
    by (induction bs arbitrary: t) (simp_all add: pipe_put_def)
  have "pipe_put c (t\<lparr>pb_count := n\<rparr>) = (pipe_put c t)\<lparr>pb_count := n\<rparr>" for c t n by (simp add: pipe_put_def)
  then have g: "fold pipe_put bs (t\<lparr>pb_count := n\<rparr>) = (fold pipe_put bs t)\<lparr>pb_count := n\<rparr>" for t n
    by (induction bs arbitrary: t) simp_all
  show ?thesis using a by (simp add: pipe_shared_write_def Let_def f g pipe_put_def)
qed

lemma pipe_put_content:
  assumes "pipe_ok sh" "pb_count sh < PIPE_BUFFER_SIZE"
  shows "pipe_content (pipe_shared_write [b] sh) = pipe_content sh @ [b]" "pipe_ok (pipe_shared_write [b] sh)"
    "pb_count (pipe_shared_write [b] sh) = Suc (pb_count sh)"
    "pb_readers (pipe_shared_write [b] sh) = pb_readers sh" "pb_writers (pipe_shared_write [b] sh) = pb_writers sh"
proof -
  have c: "u64 (Suc (pb_count sh)) = Suc (pb_count sh)" using assms(2) by (simp add: PIPE_BUFFER_SIZE_def)
  have w: "pipe_shared_write [b] sh = sh\<lparr>pb_buffer := (pb_buffer sh)((pb_head sh + pb_count sh) mod PIPE_BUFFER_SIZE := b),
      pb_tail := ((pb_head sh + pb_count sh) mod PIPE_BUFFER_SIZE + 1) mod PIPE_BUFFER_SIZE, pb_count := Suc (pb_count sh)\<rparr>"
    using assms(1) c by (simp add: pipe_shared_write_def Let_def pipe_put_def pipe_ok_def)
  show "pipe_content (pipe_shared_write [b] sh) = pipe_content sh @ [b]"
    unfolding w pipe_content_def using ring_put[OF assms(2)] by simp
  show "pipe_ok (pipe_shared_write [b] sh)"
    using assms unfolding w pipe_ok_def by (simp add: mod_Suc_eq)
  show "pb_count (pipe_shared_write [b] sh) = Suc (pb_count sh)"
    "pb_readers (pipe_shared_write [b] sh) = pb_readers sh" "pb_writers (pipe_shared_write [b] sh) = pb_writers sh"
    by (simp_all add: w)
qed

lemma pipe_get_content:
  assumes "pipe_ok sh" "pb_count sh = Suc n"
  defines "sh' \<equiv> sh\<lparr>pb_head := (pb_head sh + 1) mod PIPE_BUFFER_SIZE, pb_count := pb_count sh - 1\<rparr>"
  shows "pipe_content sh = pb_buffer sh (pb_head sh) # pipe_content sh'" "pipe_ok sh'"
proof -
  have h: "pb_head sh mod PIPE_BUFFER_SIZE = pb_head sh" using assms(1) by (simp add: pipe_ok_def)
  show "pipe_content sh = pb_buffer sh (pb_head sh) # pipe_content sh'"
    using ring_Suc[of PIPE_BUFFER_SIZE "pb_buffer sh" "pb_head sh" n] assms(2) h
    by (simp add: pipe_content_def sh'_def)
  show "pipe_ok sh'"
    using assms(1,2) by (simp add: pipe_ok_def sh'_def PIPE_BUFFER_SIZE_def mod_add_left_eq)
qed

interpretation bytes: fifo_queue pipe_content pipe_room "\<lambda>b. pipe_shared_write [b]" pipe_get pipe_ok
proof (unfold_locales, goal_cases)
  case (1 sh b)
  then show ?case by (simp add: pipe_put_content pipe_room_def)
next
  case (2 sh b)
  then show ?case by (simp add: pipe_put_content pipe_room_def)
next
  case (3 sh)
  then have "pb_count sh = 0" using pipe_content_length[of sh] unfolding 3(2) by simp
  then show ?case by (simp add: pipe_get_def)
next
  case (4 sh b bs)
  then have "pb_count sh = Suc (length bs)" using pipe_content_length[of sh] unfolding 4(2) by simp
  then show ?case using pipe_get_content[OF 4(1)] 4(2) by (simp add: pipe_get_def)
next
  case (5 sh)
  then show ?case using pipe_get_content[OF 5] by (cases "pb_count sh") (simp_all add: pipe_get_def)
qed

lemma pipe_get_pos:
  "0 < pb_count sh \<Longrightarrow> pipe_get sh =
     (Some (pb_buffer sh (pb_head sh)), sh\<lparr>pb_head := (pb_head sh + 1) mod PIPE_BUFFER_SIZE, pb_count := pb_count sh - 1\<rparr>)"
  by (simp add: pipe_get_def)

lemma pipe_get_0: "pb_count sh = 0 \<Longrightarrow> pipe_get sh = (None, sh)"
  by (simp add: pipe_get_def)

lemma pipe_shared_read_deq_n: "pipe_shared_read n sh = bytes.deq_n n sh"
  by (induction n sh rule: pipe_shared_read.induct) (auto simp: pipe_get_pos pipe_get_0 split: prod.splits)

lemma pipe_shared_read_content:
  "pipe_ok sh \<Longrightarrow> fst (pipe_shared_read n sh) = take n (pipe_content sh)
     \<and> pipe_content (snd (pipe_shared_read n sh)) = drop n (pipe_content sh) \<and> pipe_ok (snd (pipe_shared_read n sh))"
  unfolding pipe_shared_read_deq_n by (rule bytes.deq_n_take)

lemma pipe_shared_write_content:
  assumes "pipe_ok sh" "pb_count sh + length bs \<le> PIPE_BUFFER_SIZE"
  shows "pipe_content (pipe_shared_write bs sh) = pipe_content sh @ bs \<and> pipe_ok (pipe_shared_write bs sh)
    \<and> pb_readers (pipe_shared_write bs sh) = pb_readers sh \<and> pb_writers (pipe_shared_write bs sh) = pb_writers sh"
  using assms
proof (induction bs arbitrary: sh)
  case Nil
  then show ?case by (simp add: PIPE_BUFFER_SIZE_def)
next
  case (Cons b bs)
  then have c: "pb_count sh < PIPE_BUFFER_SIZE" "pb_count sh + length (b # bs) < 2 ^ 64"
    by (simp_all add: PIPE_BUFFER_SIZE_def)
  note p = pipe_put_content[OF Cons.prems(1) c(1), of b]
  show ?case unfolding pipe_shared_write_Cons[OF c(2)]
    using Cons.IH[OF p(2)] p Cons.prems(2) by simp
qed

lemma pipe_ok_times [simp]:
  "pipe_ok (sh\<lparr>pb_atime := t\<rparr>) = pipe_ok sh" "pipe_ok (sh\<lparr>pb_mtime := t, pb_ctime := t'\<rparr>) = pipe_ok sh"
  "pipe_content (sh\<lparr>pb_atime := t\<rparr>) = pipe_content sh" "pipe_content (sh\<lparr>pb_mtime := t, pb_ctime := t'\<rparr>) = pipe_content sh"
  by (simp_all add: pipe_ok_def pipe_content_def)

lemma pipe_read_turn_spec:
  assumes "pipe_ok sh" "0 < len"
  shows "\<exists>o' bs ev sh'. pipe_read_turn now len 0 [] [] sh = Some (o', bs, ev, sh') \<and> pipe_ok sh'
      \<and> pipe_content sh = bs @ pipe_content sh' \<and> bs = take len (pipe_content sh)
      \<and> o' = (if bs \<noteq> [] \<or> pb_writers sh = 0 then PReturn (Inr (length bs)) else PWait)"
proof (cases "pb_count sh = 0")
  case True
  then have "pipe_content sh = []" by (simp add: pipe_content_def)
  then show ?thesis using True assms(1) by (subst pipe_read_turn.simps) simp
next
  case False
  let ?n = "min (pb_count sh) len"
  have r: "fst (pipe_shared_read ?n sh) = take len (pipe_content sh)"
    "pipe_content (snd (pipe_shared_read ?n sh)) = drop len (pipe_content sh)" "pipe_ok (snd (pipe_shared_read ?n sh))"
    using pipe_shared_read_content[OF assms(1), of ?n] by (simp_all add: min_def)
  have "pipe_content sh \<noteq> []" using False pipe_content_length[of sh] by (metis list.size(3))
  then have ne: "take len (pipe_content sh) \<noteq> []" using assms(2) by simp
  show ?thesis using False r ne
    by (subst pipe_read_turn.simps) (simp add: Let_def)
qed

lemma pipe_space: "pb_count sh \<le> PIPE_BUFFER_SIZE \<Longrightarrow> u64 (PIPE_BUFFER_SIZE + 2 ^ 64 - pb_count sh) = PIPE_BUFFER_SIZE - pb_count sh"
proof -
  assume a: "pb_count sh \<le> PIPE_BUFFER_SIZE"
  then have "PIPE_BUFFER_SIZE + 2 ^ 64 - pb_count sh = (PIPE_BUFFER_SIZE - pb_count sh) + 2 ^ 64" by simp
  then show ?thesis by (simp only: u64_def mod_add_self2) (simp add: PIPE_BUFFER_SIZE_def less_imp_diff_less)
qed

lemma pipe_write_turn_spec:
  assumes "pipe_ok sh" "pipe_write_turn now woken data tot ev sh = (o', tot', ev', sh')"
  shows "tot \<le> tot' \<and> pipe_ok sh' \<and> pipe_content sh' = pipe_content sh @ take (tot' - tot) (drop tot data)
      \<and> pb_readers sh' = pb_readers sh
      \<and> (tot \<le> length data \<longrightarrow> tot' \<le> length data) \<and> (\<forall>n. o' = PReturn (Inr n) \<longrightarrow> n = tot')"
  using assms
proof (induction now woken data tot ev sh rule: pipe_write_turn.induct)
  case (1 now woken data tot ev sh)
  define chunk where "chunk = min (PIPE_BUFFER_SIZE - pb_count sh) (length data - tot)"
  define sh1 where "sh1 = pipe_shared_write (take chunk (drop tot data)) sh"
  define sh2 where "sh2 = (if 0 < chunk then sh1\<lparr>pb_mtime := timespec_of_us now, pb_ctime := timespec_of_us now\<rparr> else sh1)"
  have le: "pb_count sh \<le> PIPE_BUFFER_SIZE" using 1(2) by (simp add: pipe_ok_def)
  show ?case
  proof (cases "tot \<ge> length data \<or> \<not> woken \<and> pb_readers sh = 0 \<or> pb_count sh = PIPE_BUFFER_SIZE")
    case True
    then have "sh' = sh \<and> tot' = tot \<and> (\<forall>n. o' = PReturn (Inr n) \<longrightarrow> n = tot)"
      using 1(3) by (subst (asm) pipe_write_turn.simps) (auto split: if_splits)
    then show ?thesis using 1(2) by simp
  next
    case False
    then have n: "\<not> length data \<le> tot" "\<not> (\<not> woken \<and> pb_readers sh = 0)" "pb_count sh \<noteq> PIPE_BUFFER_SIZE" by auto
    then have c: "0 < chunk" using le by (auto simp: chunk_def)
    have w: "pipe_content sh2 = pipe_content sh @ take chunk (drop tot data)" "pipe_ok sh2" "pb_readers sh2 = pb_readers sh"
      using pipe_shared_write_content[OF 1(2), of "take chunk (drop tot data)"] le
      by (auto simp: sh2_def sh1_def chunk_def)
    note ih = 1(1)[OF n refl refl refl refl, unfolded pipe_space[OF le], folded chunk_def, folded sh1_def, folded sh2_def]
    have "pipe_write_turn now woken data tot ev sh = pipe_write_turn now False data (tot + chunk) (ev @ [SignalReadable]) sh2"
      by (subst pipe_write_turn.simps, unfold Let_def pipe_space[OF le], fold chunk_def, fold sh1_def, fold sh2_def)
         (use n c in auto)
    then have rec: "pipe_write_turn now False data (tot + chunk) (ev @ [SignalReadable]) sh2 = (o', tot', ev', sh')"
      using 1(3) by simp
    have "tot + chunk \<le> tot' \<and> pipe_ok sh' \<and> pipe_content sh' = pipe_content sh2 @ take (tot' - (tot + chunk)) (drop (tot + chunk) data)
      \<and> pb_readers sh' = pb_readers sh2
      \<and> (tot + chunk \<le> length data \<longrightarrow> tot' \<le> length data) \<and> (\<forall>n. o' = PReturn (Inr n) \<longrightarrow> n = tot')"
      by (rule ih[OF _ w(2) rec]) (use c in simp)
    moreover have "take chunk (drop tot data) @ take (tot' - (tot + chunk)) (drop (tot + chunk) data) = take (tot' - tot) (drop tot data)"
      if "tot + chunk \<le> tot'"
      using take_add[of chunk "tot' - (tot + chunk)" "drop tot data"] that by (simp add: add.commute)
    moreover have "tot + chunk \<le> length data" using False by (auto simp: chunk_def)
    ultimately show ?thesis using w(1,3) by simp
  qed
qed

lemma pipe_step_inv:
  "pipe_step S S' \<Longrightarrow> pipe_ok (fst S) \<and> fst (snd S) = snd (snd S) @ pipe_content (fst S) \<Longrightarrow>
     pipe_ok (fst S') \<and> fst (snd S') = snd (snd S') @ pipe_content (fst S')"
proof (induction rule: pipe_step.induct)
  case (ps_read now len sh o' bs ev sh' w r)
  have "pipe_ok sh" using ps_read(3) by simp
  then obtain o2 bs2 ev2 sh2 where t: "pipe_read_turn now len 0 [] [] sh = Some (o2, bs2, ev2, sh2)" "pipe_ok sh2"
    "pipe_content sh = bs2 @ pipe_content sh2"
    using pipe_read_turn_spec[OF _ ps_read(2), of sh now] by blast
  then have "bs2 = bs" "sh2 = sh'" using ps_read(1) by simp_all
  then show ?case using t(2,3) ps_read(3) by simp
next
  case (ps_write now woken data tot sh o' tot' ev sh' w r)
  then have "pipe_ok sh'" "pipe_content sh' = pipe_content sh @ take (tot' - tot) (drop tot data)"
    using pipe_write_turn_spec[of sh now woken data tot "[]" o' tot' ev sh'] by auto
  then show ?case using ps_write(2) by simp
next
  case (ps_close sh w r now is_reader)
  then show ?case by (auto simp: pipe_detach_def Let_def pipe_ok_def pipe_content_def)
qed

section \<open>The file layer over pipes\<close>

interpretation any: close_method "close_any now" for now
  by unfold_locales
     (simp_all add: close_any_def pipe_close_impl_def serial_close_noop_def Let_def split: option.splits)

text \<open>Allocating: the answer of the heap is new, and the object is live.\<close>

lemma alloc_step:
  assumes "kmem_ok m" "kmalloc_obj m = (Some a, m')"
  shows "kmem_ok m'" "live m' = a # live m" "a \<notin> set (live m)"
  using kmalloc_obj_ok[OF assms] kmalloc_obj_Some[OF assms(2)] kmalloc_obj_fresh[OF assms] by auto

lemma alloc_None: "kmalloc_obj m = (None, m') \<Longrightarrow> live m' = live m"
  by (rule kmalloc_obj_None)

lemma pipe_alloc_Some: "pipe_alloc s = (Some a, s') \<longleftrightarrow> (\<exists>m. kmalloc_obj (fmem s) = (Some a, m) \<and> s' = s\<lparr>fmem := m\<rparr>)"
  by (auto simp: pipe_alloc_def split: prod.splits)

lemma pipe_alloc_None: "pipe_alloc s = (None, s') \<longleftrightarrow> (\<exists>m. kmalloc_obj (fmem s) = (None, m) \<and> s' = s\<lparr>fmem := m\<rparr>)"
  by (auto simp: pipe_alloc_def split: prod.splits)

lemma pipe_free_live [simp]: "live (fmem (pipe_free a s)) = remove1 a (live (fmem s))"
  by (simp add: pipe_free_def)

text \<open>A pipe end that has just been opened: its file, its endpoint and the shared part.\<close>

definition pipe_end :: "pipe_sys \<Rightarrow> ptr \<Rightarrow> ptr \<Rightarrow> ptr \<Rightarrow> bool \<Rightarrow> bool" where
  "pipe_end s f e a is_reader \<longleftrightarrow>
     (\<exists>md. fobjs s f = Some \<lparr>f_ops = Some pipe_file_ops, f_private = Some e, f_refcount = 1, f_mode = md\<rparr>)
     \<and> pends s e = Some \<lparr>pe_shared = a, pe_is_reader = is_reader\<rparr>"

lemma pipe_end_unref:
  fixes now :: nat
  assumes "pipe_end s f e a is_reader" "pshared s a = Some sh"
  defines "d \<equiv> pipe_detach now is_reader sh"
  shows "live (fmem (file_unref (close_any now) (Some f) s)) =
           remove1 f (if snd (snd d) then remove1 a (remove1 e (live (fmem s))) else remove1 e (live (fmem s)))"
    and "\<not> snd (snd d) \<Longrightarrow> pshared (file_unref (close_any now) (Some f) s) a = Some (fst d)"
    and "g \<noteq> f \<Longrightarrow> e' \<noteq> e \<Longrightarrow> pipe_end (file_unref (close_any now) (Some f) s) g e' a b = pipe_end s g e' a b"
proof -
  obtain md where ob: "fobjs s f = Some \<lparr>f_ops = Some pipe_file_ops, f_private = Some e, f_refcount = 1, f_mode = md\<rparr>"
    and en: "pends s e = Some \<lparr>pe_shared = a, pe_is_reader = is_reader\<rparr>"
    using assms(1) by (auto simp: pipe_end_def)
  have u: "file_unref (close_any now) (Some f) s = file_destroy (close_any now) f
      \<lparr>f_ops = Some pipe_file_ops, f_private = Some e, f_refcount = 0, f_mode = md\<rparr>
      (s\<lparr>fobjs := (fobjs s)(f \<mapsto> \<lparr>f_ops = Some pipe_file_ops, f_private = Some e, f_refcount = 0, f_mode = md\<rparr>)\<rparr>)"
    by (simp add: file_unref_def ob Let_def)
  have c: "op_close pipe_file_ops" by (simp add: pipe_file_ops_def)
  show "live (fmem (file_unref (close_any now) (Some f) s)) =
           remove1 f (if snd (snd d) then remove1 a (remove1 e (live (fmem s))) else remove1 e (live (fmem s)))"
    and "\<not> snd (snd d) \<Longrightarrow> pshared (file_unref (close_any now) (Some f) s) a = Some (fst d)"
    unfolding u d_def using en assms(2) c
    by (simp_all add: file_destroy_def Let_def close_any_def pipe_close_impl_def)
  show "pipe_end (file_unref (close_any now) (Some f) s) g e' a b = pipe_end s g e' a b" if "g \<noteq> f" "e' \<noteq> e"
    unfolding u pipe_end_def using en assms(2) c that
    by (simp add: file_destroy_def Let_def close_any_def pipe_close_impl_def)
qed

lemma file_create_None:
  "file_create ops priv md s = (None, s') \<Longrightarrow> live (fmem s') = live (fmem s) \<and> fobjs s' = fobjs s
     \<and> pipe_sys.pends s' = pends s \<and> pshared s' = pshared s"
  by (auto simp: file_create_def set_err_def dest: alloc_None split: prod.splits option.splits)

lemma file_create_Some:
  assumes "file_create ops priv md s = (Some f, s')" "kmem_ok (fmem s)"
  shows "kmem_ok (fmem s')" "live (fmem s') = f # live (fmem s)" "f \<notin> set (live (fmem s))"
    "fobjs s' = (fobjs s)(f \<mapsto> \<lparr>f_ops = ops, f_private = priv, f_refcount = 1, f_mode = md\<rparr>)"
    "pipe_sys.pends s' = pends s" "pshared s' = pshared s"
proof -
  obtain m where m: "kmalloc_obj (fmem s) = (Some f, m)"
    "s' = s\<lparr>fmem := m, fobjs := (fobjs s)(f \<mapsto> \<lparr>f_ops = ops, f_private = priv, f_refcount = 1, f_mode = md\<rparr>)\<rparr>"
    using assms(1) by (auto simp: file_create_def split: prod.splits option.splits)
  show "kmem_ok (fmem s')" "live (fmem s') = f # live (fmem s)" "f \<notin> set (live (fmem s))"
    "fobjs s' = (fobjs s)(f \<mapsto> \<lparr>f_ops = ops, f_private = priv, f_refcount = 1, f_mode = md\<rparr>)"
    "pipe_sys.pends s' = pends s" "pshared s' = pshared s"
    using alloc_step[OF assms(2) m(1)] by (simp_all add: m(2))
qed

definition pipe_opened :: "ptr list \<Rightarrow> pipe_shared \<Rightarrow> pipe_sys \<Rightarrow> ptr \<Rightarrow> ptr \<Rightarrow> ptr \<Rightarrow> ptr \<Rightarrow> ptr \<Rightarrow> bool" where
  "pipe_opened L sh s rf wr w r a \<longleftrightarrow> live (fmem s) = wr # rf # w # r # a # L \<and> distinct (wr # rf # w # r # a # L)
     \<and> pipe_end s rf r a True \<and> pipe_end s wr w a False \<and> pshared s a = Some sh"

lemma pipe_open_files_spec:
  assumes "kmem_ok (fmem s)" "live (fmem s) = w # r # a # L" "distinct (w # r # a # L)"
    and "pends s r = Some \<lparr>pe_shared = a, pe_is_reader = True\<rparr>" "pends s w = Some \<lparr>pe_shared = a, pe_is_reader = False\<rparr>"
    and "pshared s a = Some (pipe_shared_init now old)"
  shows "case pipe_open_files now a r w s of
      (Inl e, s') \<Rightarrow> e = ENOMEM \<and> live (fmem s') = L
    | (Inr (rf, wr), s') \<Rightarrow> pipe_opened L (pipe_shared_init now old) s' rf wr w r a"
proof -
  obtain x s1 where f1: "file_create (Some pipe_file_ops) (Some r) FILE_MODE_READ s = (x, s1)" by fastforce
  show ?thesis
  proof (cases x)
    case None
    then show ?thesis using f1 file_create_None[of _ _ _ s s1] assms(2,3) by (simp add: pipe_open_files_def)
  next
    case (Some rf)
    note c1 = file_create_Some[OF f1[unfolded Some] assms(1)]
    obtain y s2 where f2: "file_create (Some pipe_file_ops) (Some w) FILE_MODE_WRITE s1 = (y, s2)" by fastforce
    show ?thesis
    proof (cases y)
      case None
      note n = file_create_None[OF f2[unfolded None]]
      have e: "pipe_end s2 rf r a True" using n c1 assms(4) by (simp add: pipe_end_def)
      have p: "pshared s2 a = Some (pipe_shared_init now old)" using n c1 assms(6) by simp
      have d: "\<not> snd (snd (pipe_detach now True (pipe_shared_init now old)))"
        by (simp add: pipe_detach_def pipe_shared_init_def Let_def)
      have "live (fmem s2) = rf # w # r # a # L" using n c1(2) assms(2) by simp
      moreover have "rf \<noteq> r" "rf \<noteq> w" "rf \<noteq> a" using c1(3) assms(2) by auto
      ultimately show ?thesis using f1 f2 Some None pipe_end_unref(1)[OF e p, of now] d assms(3)
        by (simp add: pipe_open_files_def)
    next
      case (Some wr)
      note c2 = file_create_Some[OF f2[unfolded Some] c1(1)]
      have l: "live (fmem s2) = wr # rf # w # r # a # L" using c1(2) c2(2) assms(2) by simp
      moreover have "distinct (wr # rf # w # r # a # L)" using c1(2,3) c2(3) assms(2,3) by simp
      moreover have "pipe_end s2 rf r a True" "pipe_end s2 wr w a False"
        using c1 c2 assms(4,5) by (auto simp: pipe_end_def)
      moreover have "pshared s2 a = Some (pipe_shared_init now old)" using c1 c2 assms(6) by simp
      ultimately show ?thesis using f1 f2 \<open>x = Some rf\<close> Some by (simp add: pipe_open_files_def pipe_opened_def)
    qed
  qed
qed

lemma pipe_create_spec:
  assumes "kmem_ok (fmem s)"
  shows "case pipe_create now old s of
      (Inl e, s') \<Rightarrow> e = ENOMEM \<and> live (fmem s') = live (fmem s)
    | (Inr (rf, wr), s') \<Rightarrow> (\<exists>w r a. pipe_opened (live (fmem s)) (pipe_shared_init now old) s' rf wr w r a)"
proof -
  obtain x m1 where k1: "kmalloc_obj (fmem s) = (x, m1)" by fastforce
  show ?thesis
  proof (cases x)
    case None
    then show ?thesis using k1 alloc_None by (simp add: pipe_create_def pipe_alloc_def)
  next
    case (Some a)
    note a1 = alloc_step[OF assms k1[unfolded Some]]
    obtain y m2 where k2: "kmalloc_obj m1 = (y, m2)" by fastforce
    show ?thesis
    proof (cases y)
      case None
      then show ?thesis using k1 k2 \<open>x = Some a\<close> alloc_None[of m1 m2] a1 by (simp add: pipe_create_def pipe_alloc_def Let_def)
    next
      case (Some r)
      note a2 = alloc_step[OF a1(1) k2[unfolded Some]]
      obtain z m3 where k3: "kmalloc_obj m2 = (z, m3)" by fastforce
      show ?thesis
      proof (cases z)
        case None
        then show ?thesis using k1 k2 k3 \<open>x = Some a\<close> \<open>y = Some r\<close> alloc_None[of m2 m3] a1 a2
          by (simp add: pipe_create_def pipe_alloc_def Let_def)
      next
        case (Some w)
        note a3 = alloc_step[OF a2(1) k3[unfolded Some]]
        define s5 where "s5 = s\<lparr>pshared := (pshared s)(a \<mapsto> pipe_shared_init now old), fmem := m3,
            pends := (pends s)(r \<mapsto> \<lparr>pe_shared = a, pe_is_reader = True\<rparr>, w \<mapsto> \<lparr>pe_shared = a, pe_is_reader = False\<rparr>)\<rparr>"
        have eq: "pipe_create now old s = pipe_open_files now a r w s5"
          using k1 k2 k3 \<open>x = Some a\<close> \<open>y = Some r\<close> Some by (simp add: pipe_create_def pipe_alloc_def Let_def s5_def)
        have kd: "distinct (live (fmem s))" using assms by (simp add: kmem_ok_def)
        have "case pipe_open_files now a r w s5 of
            (Inl e, s') \<Rightarrow> e = ENOMEM \<and> live (fmem s') = live (fmem s)
          | (Inr (rf, wr), s') \<Rightarrow> pipe_opened (live (fmem s)) (pipe_shared_init now old) s' rf wr w r a"
          by (rule pipe_open_files_spec) (use a1 a2 a3 kd in \<open>auto simp: s5_def\<close>)
        then show ?thesis unfolding eq by (auto split: prod.splits sum.splits) (rule exI, rule exI, rule exI, assumption)
      qed
    qed
  qed
qed

section \<open>Properties\<close>



text \<open>
  C22. A read from a pipe makes progress whenever it can: it returns at once with as many of the
  oldest bytes as fit when there are any, reports end of file (0) exactly when the pipe is empty and
  has no writer, and waits only on an empty pipe that still has one.
\<close>

theorem pipe_read_progress:
  assumes "pipe_ok sh" "0 < len" "pe_is_reader e"
  shows "\<exists>o' bs ev sh'. pipe_read_impl now (Some e) len sh = Some (o', bs, ev, sh')
       \<and> bs = take len (pipe_content sh) \<and> pipe_content sh' = drop len (pipe_content sh)
       \<and> (o' = PWait \<longleftrightarrow> pb_count sh = 0 \<and> pb_writers sh \<noteq> 0) \<and> (o' \<noteq> PWait \<longrightarrow> o' = PReturn (Inr (length bs)))"
proof -
  obtain o' bs ev sh' where t: "pipe_read_turn now len 0 [] [] sh = Some (o', bs, ev, sh')"
    "pipe_content sh = bs @ pipe_content sh'" "bs = take len (pipe_content sh)"
    "o' = (if bs \<noteq> [] \<or> pb_writers sh = 0 then PReturn (Inr (length bs)) else PWait)"
    using pipe_read_turn_spec[OF assms(1,2), of now] by blast
  have "pipe_content sh' = drop len (pipe_content sh)"
    using t(2,3) by (metis append_take_drop_id same_append_eq)
  moreover have "bs = [] \<longleftrightarrow> pb_count sh = 0"
    using t(3) assms(2) pipe_content_length[of sh] by (metis length_0_conv less_not_refl take_eq_Nil)
  ultimately show ?thesis using t(1,3,4) assms(2,3) by (auto simp: pipe_read_impl_def)
qed

theorem pipe_read_progress_witness:
  "\<exists>bs ev sh'. pipe_read_impl 0 (Some \<lparr>pe_shared = 1, pe_is_reader = True\<rparr>) 10 (pipe_shared_init 0 (\<lambda>_. 0)) = Some (PWait, bs, ev, sh')"
  using pipe_read_progress[of "pipe_shared_init 0 (\<lambda>_. 0)" 10 "\<lparr>pe_shared = 1, pe_is_reader = True\<rparr>" 0]
  by (auto simp: pipe_shared_init_def pipe_ok_def PIPE_BUFFER_SIZE_def)

text \<open>
  C21. \<^verbatim>\<open>pipe_create\<close> is all or nothing with respect to memory, whichever of its five allocations fails,
  and closing both ends gives everything back: on failure it returns \<^verbatim>\<open>ENOMEM\<close> and the heap holds the
  objects it held before; on success, dropping the two files frees all five objects.
\<close>

theorem pipe_create_frees_all:
  assumes "kmem_ok (fmem s)"
  shows "case pipe_create now old s of
      (Inl e, s') \<Rightarrow> e = ENOMEM \<and> live (fmem s') = live (fmem s)
    | (Inr (rf, wr), s') \<Rightarrow> length (live (fmem s')) = length (live (fmem s)) + 5
        \<and> live (fmem (file_unref (close_any t2) (Some wr) (file_unref (close_any t1) (Some rf) s'))) = live (fmem s)"
proof (cases "pipe_create now old s")
  case (Pair res s')
  show ?thesis
  proof (cases res)
    case (Inl e)
    then show ?thesis using Pair pipe_create_spec[OF assms, of now old] by simp
  next
    case (Inr ff)
    obtain rf wr where ff: "ff = (rf, wr)" by (cases ff)
    obtain w r a where c: "live (fmem s') = wr # rf # w # r # a # live (fmem s)"
      "distinct (wr # rf # w # r # a # live (fmem s))" "pipe_end s' rf r a True" "pipe_end s' wr w a False"
      "pshared s' a = Some (pipe_shared_init now old)"
      using Pair Inr ff pipe_create_spec[OF assms, of now old] by (auto simp: pipe_opened_def)
    define s1 where "s1 = file_unref (close_any t1) (Some rf) s'"
    define sh1 where "sh1 = fst (pipe_detach t1 True (pipe_shared_init now old))"
    have d1: "\<not> snd (snd (pipe_detach t1 True (pipe_shared_init now old)))"
      by (simp add: pipe_detach_def pipe_shared_init_def Let_def)
    have l1: "live (fmem s1) = wr # w # a # live (fmem s)"
      using pipe_end_unref(1)[OF c(3,5), of t1] d1 c(1,2) by (auto simp: s1_def)
    have p1: "pshared s1 a = Some sh1" using pipe_end_unref(2)[OF c(3,5), of t1] d1 by (simp add: s1_def sh1_def)
    have e1: "pipe_end s1 wr w a False"
      using pipe_end_unref(3)[OF c(3,5), of wr w t1 False] c(2,4) by (simp add: s1_def)
    have d2: "snd (snd (pipe_detach t2 False sh1))"
      by (simp add: pipe_detach_def sh1_def pipe_shared_init_def Let_def)
    have "live (fmem (file_unref (close_any t2) (Some wr) s1)) = live (fmem s)"
      using pipe_end_unref(1)[OF e1 p1, of t2] d2 l1 c(2) by auto
    then show ?thesis using Pair Inr ff c(1) by (simp add: s1_def)
  qed
qed

definition demo_pipes :: pipe_sys where
  "demo_pipes = \<lparr>fobjs = (\<lambda>_. None), tables = (\<lambda>_ _. (None, 0)), err_no = None,
     fmem = \<lparr>live = [], answers = [Some 10, Some 11, Some 12, Some 13, None]\<rparr>,
     pshared = (\<lambda>_. None), pends = (\<lambda>_. None), pevents = []\<rparr>"

theorem pipe_create_frees_all_witness:
  "case pipe_create 0 (\<lambda>_. 0) demo_pipes of
     (Inl e, s') \<Rightarrow> e = ENOMEM \<and> live (fmem s') = []
   | (Inr (rf, wr), s') \<Rightarrow> live (fmem (file_unref (close_any 1) (Some wr) (file_unref (close_any 1) (Some rf) s'))) = []"
  using pipe_create_frees_all[where s = demo_pipes and now = 0 and old = "\<lambda>_. 0" and ?t1.0 = 1 and ?t2.0 = 1]
  by (auto simp: demo_pipes_def kmem_ok_def map_filter_simps split: prod.splits sum.splits)

text \<open>
  C19. Reference counts of open files are exact under any sequence of descriptor operations (create,
  get, put back, install, close, dup, fork, exec and exit) of any processes, with pipes and console
  files: the count of an allocated file is the number of descriptors that refer to it plus the
  references held by running kernel code and is positive, and no descriptor refers to a freed file.
\<close>

theorem file_refcounts_exact:
  assumes "(\<lambda>S S'. \<exists>now. ft_step (close_any now) P S S')\<^sup>*\<^sup>* (s0, \<lambda>_. 0) (s, ext)"
    and "finite P" "PROC_MAX_FILES * card P \<le> 2 ^ 61"
    and "fobjs s0 = (\<lambda>_. None)" "\<forall>p\<in>P. \<forall>fd<PROC_MAX_FILES. fst (tables s0 p fd) = None"
  shows "(\<forall>f ob. fobjs s f = Some ob \<longrightarrow> f_refcount ob = int (refs P s f) + ext f \<and> 0 < f_refcount ob)
       \<and> (\<forall>p\<in>P. \<forall>fd<PROC_MAX_FILES. \<forall>f. fst (tables s p fd) = Some f \<longrightarrow> fobjs s f \<noteq> None)"
proof -
  have "slots s0 p f = 0" if "p \<in> P" for p f using assms(5) that by (auto simp: slots_def)
  then have r0: "refs P s0 f = 0" for f by (simp add: refs_def)
  have "file_inv P (snd S) (fst S) \<and> ext_ok P (snd S)"
    if "(\<lambda>S S'. \<exists>now. ft_step (close_any now) P S S')\<^sup>*\<^sup>* (s0, \<lambda>_. 0) S" for S
    using that
  proof (induction rule: rtranclp_induct)
    case base
    then show ?case using assms(2-4) r0 by (simp add: file_inv_def counted_def ext_ok_def)
  next
    case (step S S')
    then show ?case using any.step_inv by blast
  qed
  from this[OF assms(1)] have inv: "file_inv P ext s" and ok: "ext_ok P ext" by simp_all
  have "f_refcount ob = int (refs P s f) + ext f \<and> 0 < f_refcount ob" if "fobjs s f = Some ob" for f ob
    using file_invD[OF inv, of f] that by (simp add: counted_def)
  moreover have "fobjs s f \<noteq> None" if "p \<in> P" "fd < PROC_MAX_FILES" "fst (tables s p fd) = Some f" for p fd f
    using file_inv_alive[OF inv slot_alive(1)[OF ok that]] by auto
  ultimately show ?thesis by blast
qed

theorem file_refcounts_exact_witness:
  "\<exists>s ob. file_create (Some serial_file_ops) None 2 demo_pipes = (Some 10, s) \<and> fobjs s 10 = Some ob \<and> f_refcount ob = 1"
proof -
  obtain s where s: "file_create (Some serial_file_ops) None 2 demo_pipes = (Some 10, s)"
    "fobjs s 10 = Some \<lparr>f_ops = Some serial_file_ops, f_private = None, f_refcount = 1, f_mode = 2\<rparr>"
    by (simp add: file_create_def demo_pipes_def kmalloc_obj_def)
  have "ft_step (close_any 0) {1} (demo_pipes, \<lambda>_. 0) (s, (\<lambda>_. 0)(10 := 1))"
    by (rule ft_step.st_create[OF s(1)]) (simp add: demo_pipes_def)
  then have st: "(\<lambda>S S'. \<exists>now. ft_step (close_any now) {1} S S')\<^sup>*\<^sup>* (demo_pipes, \<lambda>_. 0) (s, (\<lambda>_. 0)(10 := 1))"
    by (intro r_into_rtranclp exI)
  have "finite {1::ptr}" "PROC_MAX_FILES * card {1::ptr} \<le> 2 ^ 61" "fobjs demo_pipes = (\<lambda>_. None)"
    "\<forall>p\<in>{1}. \<forall>fd<PROC_MAX_FILES. fst (tables demo_pipes p fd) = None"
    by (simp_all add: demo_pipes_def PROC_MAX_FILES_def)
  note file_refcounts_exact[OF st this]
  then have "0 < f_refcount \<lparr>f_ops = Some serial_file_ops, f_private = None, f_refcount = 1, f_mode = 2\<rparr>"
    using s(2) by blast
  then show ?thesis using s by auto
qed

text \<open>
  A write that has already transferred bytes can report \<^verbatim>\<open>EPIPE\<close>: a writer with more than a
  buffer's worth of data fills the pipe and waits; when the last reader then closes, the write returns
  \<^verbatim>\<open>EPIPE\<close> and not the number of bytes it had put into the pipe.
\<close>

theorem pipe_write_hides_partial_count:
  assumes "pipe_ok sh" "pb_count sh = 0" "pb_readers sh = 1" "PIPE_BUFFER_SIZE < length data"
  shows "\<exists>ev sh1. pipe_write_turn now False data 0 [] sh = (PWait, PIPE_BUFFER_SIZE, ev, sh1)
       \<and> pipe_content sh1 = take PIPE_BUFFER_SIZE data
       \<and> fst (pipe_write_turn now True data PIPE_BUFFER_SIZE ev (fst (pipe_detach now True sh1))) = PReturn (Inl EPIPE)"
proof -
  define sh1 where "sh1 = (pipe_shared_write (take PIPE_BUFFER_SIZE data) sh)
      \<lparr>pb_mtime := timespec_of_us now, pb_ctime := timespec_of_us now\<rparr>"
  have w: "pipe_content sh1 = take PIPE_BUFFER_SIZE data" "pb_readers sh1 = 1"
    using pipe_shared_write_content[OF assms(1), of "take PIPE_BUFFER_SIZE data"] assms(2-4)
    by (simp_all add: sh1_def pipe_content_def)
  have c1: "pb_count sh1 = PIPE_BUFFER_SIZE"
    using arg_cong[OF w(1), of length] assms(4) by (simp only: pipe_content_length) simp
  have p: "u64 (PIPE_BUFFER_SIZE + 2 ^ 64 - pb_count sh) = PIPE_BUFFER_SIZE" using pipe_space[of sh] assms(2) by simp
  have mn: "min PIPE_BUFFER_SIZE (length data - 0) = PIPE_BUFFER_SIZE" using assms(4) by simp
  have pos: "0 < PIPE_BUFFER_SIZE" by (simp add: PIPE_BUFFER_SIZE_def)
  have "pipe_write_turn now False data 0 [] sh = pipe_write_turn now False data PIPE_BUFFER_SIZE [SignalReadable] sh1"
    by (subst pipe_write_turn.simps, unfold Let_def p mn)
       (use assms(2-4) pos in \<open>auto simp: sh1_def\<close>)
  also have "\<dots> = (PWait, PIPE_BUFFER_SIZE, [SignalReadable], sh1)"
    using assms(4) c1 w(2) by (subst pipe_write_turn.simps) simp
  finally have t: "pipe_write_turn now False data 0 [] sh = (PWait, PIPE_BUFFER_SIZE, [SignalReadable], sh1)" .
  have "fst (pipe_write_turn now True data PIPE_BUFFER_SIZE [SignalReadable] (fst (pipe_detach now True sh1))) = PReturn (Inl EPIPE)"
    using assms(4) c1 w(2) by (subst pipe_write_turn.simps) (simp add: pipe_detach_def Let_def)
  then show ?thesis using t w(1) by blast
qed

theorem pipe_write_hides_partial_count_witness:
  "\<exists>ev sh1. pipe_write_turn 0 False (replicate 5000 0) 0 [] (pipe_shared_init 0 (\<lambda>_. 0)) = (PWait, 4096, ev, sh1)
     \<and> fst (pipe_write_turn 0 True (replicate 5000 0) 4096 ev (fst (pipe_detach 0 True sh1))) = PReturn (Inl EPIPE)"
proof -
  have "pipe_ok (pipe_shared_init 0 (\<lambda>_. 0))" "pb_count (pipe_shared_init 0 (\<lambda>_. 0)) = 0"
    "pb_readers (pipe_shared_init 0 (\<lambda>_. 0)) = 1" "PIPE_BUFFER_SIZE < length (replicate 5000 (0 :: byte))"
    by (simp_all add: pipe_shared_init_def pipe_ok_def PIPE_BUFFER_SIZE_def)
  from pipe_write_hides_partial_count[OF this, of 0] show ?thesis unfolding PIPE_BUFFER_SIZE_def by blast
qed

end
