(* ===== verification/Pmm.thy ===== *)
theory Pmm
  imports Menios_Prelude
begin

text \<open>
  The physical page allocator: the bitmap half of \<^verbatim>\<open>src/kernel/mem/pmm.c\<close>.

  One bit per 4 KiB page, 64 to a row, set when the page is in use. \<open>bitmap\<close> is total: rows from
  \<^verbatim>\<open>PAGE_BITMAP_SIZE\<close> on stand for the memory behind the array, which \<^verbatim>\<open>set_page_free\<close> and
  \<^verbatim>\<open>set_page_used\<close> reach for addresses of 16 GiB and more, as they do not check the index.
\<close>

definition PAGE_BITMAP_SIZE :: nat where
  "PAGE_BITMAP_SIZE = 0x10000"

definition PAGE_BITMAP_FULL :: "64 word" where
  "PAGE_BITMAP_FULL = - 1"

definition PAGE_ROW_SIZE :: nat where
  "PAGE_ROW_SIZE = 64 * PAGE_SIZE"

record pmm =
  bitmap :: "nat \<Rightarrow> 64 word"
  free_page_count :: nat
  total_usable_pages :: nat

section \<open>Single pages\<close>

definition set_page_free :: "nat \<Rightarrow> pmm \<Rightarrow> pmm" where
  "set_page_free addr m =
     (let pg = addr div PAGE_SIZE; index = pg div 64; msk = push_bit (pg mod 64) (1 :: 64 word)
      in if bitmap m index AND msk \<noteq> 0
         then m\<lparr>bitmap := (bitmap m)(index := bitmap m index AND NOT msk), free_page_count := u64 (free_page_count m + 1)\<rparr>
         else m)"

definition set_page_used :: "nat \<Rightarrow> pmm \<Rightarrow> pmm" where
  "set_page_used addr m =
     (let pg = addr div PAGE_SIZE; index = pg div 64; msk = push_bit (pg mod 64) (1 :: 64 word)
      in if bitmap m index AND msk = 0
         then m\<lparr>bitmap := (bitmap m)(index := bitmap m index OR msk),
                free_page_count := (if free_page_count m > 0 then free_page_count m - 1 else free_page_count m)\<rparr>
         else m)"

definition set_page_row_free :: "nat \<Rightarrow> pmm \<Rightarrow> pmm" where
  "set_page_row_free addr m =
     (let index = addr div PAGE_SIZE div 64; previous = bitmap m index
      in if previous \<noteq> 0
         then (let used = card {b. bit previous b}
               in m\<lparr>bitmap := (bitmap m)(index := 0),
                    free_page_count := (if used < 64 then u64 (free_page_count m + (64 - used)) else free_page_count m)\<rparr>)
         else m)"

definition get_page_status :: "nat \<Rightarrow> pmm \<Rightarrow> bool" where
  "get_page_status addr m =
     (let pg = addr div PAGE_SIZE in bitmap m (pg div 64) AND push_bit (pg mod 64) 1 \<noteq> 0)"

section \<open>Runs of pages\<close>

text \<open>
  The state of the search in \<^verbatim>\<open>pmm_alloc_internal\<close>: still scanning with \<^verbatim>\<open>run_length\<close> and
  \<^verbatim>\<open>run_start\<close>, a base address chosen, or the early return on an empty span.
\<close>

datatype scan = Scanning nat nat | Chosen nat | EmptySpan

text \<open>Whether the run from \<open>start\<close> to \<open>run_end\<close> can be used; \<open>None\<close> is \<^verbatim>\<open>continue\<close>.\<close>

definition pick_candidate :: "nat \<Rightarrow> nat \<Rightarrow> nat \<Rightarrow> nat \<Rightarrow> nat \<Rightarrow> scan option" where
  "pick_candidate page_count al max_phys start run_end =
     (let aligned = (start + al - 1) div al * al
      in if al > 1 \<and> \<not> aligned + page_count \<le> run_end then None
         else let base = (if al > 1 then aligned else start) * PAGE_SIZE;
                  span = u64 (page_count * PAGE_SIZE)
              in if span = 0 then Some EmptySpan
                 else if base > max_phys \<or> span - 1 > max_phys - base then None
                 else Some (Chosen base))"

definition scan_page :: "nat \<Rightarrow> nat \<Rightarrow> nat \<Rightarrow> bool \<Rightarrow> nat \<Rightarrow> nat \<Rightarrow> nat \<Rightarrow> scan" where
  "scan_page page_count al max_phys used pn len start =
     (if used then Scanning 0 start
      else let start' = (if len = 0 then pn else start); len' = len + 1
           in if len' \<ge> page_count
              then (case pick_candidate page_count al max_phys start' (pn + 1) of
                      None \<Rightarrow> Scanning len' start' | Some r \<Rightarrow> r)
              else Scanning len' start')"

fun scan_bits :: "nat \<Rightarrow> nat \<Rightarrow> nat \<Rightarrow> 64 word \<Rightarrow> nat \<Rightarrow> nat list \<Rightarrow> scan \<Rightarrow> scan" where
  "scan_bits page_count al max_phys row index (b # bs) (Scanning len start) =
     scan_bits page_count al max_phys row index bs
       (scan_page page_count al max_phys (row AND push_bit b 1 \<noteq> 0) (index * 64 + b) len start)"
| "scan_bits page_count al max_phys row index bs st = st"

fun scan_rows :: "nat \<Rightarrow> nat \<Rightarrow> nat \<Rightarrow> (nat \<Rightarrow> 64 word) \<Rightarrow> nat list \<Rightarrow> scan \<Rightarrow> scan" where
  "scan_rows page_count al max_phys bm (index # is) (Scanning len start) =
     scan_rows page_count al max_phys bm is
       (if bm index = PAGE_BITMAP_FULL then Scanning 0 start
        else scan_bits page_count al max_phys (bm index) index [0..<64] (Scanning len start))"
| "scan_rows page_count al max_phys bm is st = st"

definition alignment_pages :: "nat \<Rightarrow> nat" where
  "alignment_pages alignment =
     (let al = u64 ((if alignment < PAGE_SIZE then PAGE_SIZE else alignment) + PAGE_SIZE - 1) div PAGE_SIZE
      in if al = 0 then 1 else al)"

definition pmm_alloc_internal :: "nat \<Rightarrow> nat \<Rightarrow> nat \<Rightarrow> pmm \<Rightarrow> nat \<times> pmm" where
  "pmm_alloc_internal page_count alignment max_phys m =
     (if page_count = 0 then (0, m)
      else case scan_rows page_count (alignment_pages alignment) max_phys (bitmap m) [0..<PAGE_BITMAP_SIZE] (Scanning 0 0) of
             Chosen base \<Rightarrow> (base, fold (\<lambda>page. set_page_used (base + page * PAGE_SIZE)) [0..<page_count] m)
           | _ \<Rightarrow> (0, m))"

definition pmm_alloc_pages :: "nat \<Rightarrow> pmm \<Rightarrow> nat \<times> pmm" where
  "pmm_alloc_pages page_count m = pmm_alloc_internal page_count PAGE_SIZE (2 ^ 64 - 1) m"

definition pmm_alloc_aligned_pages :: "nat \<Rightarrow> nat \<Rightarrow> nat \<Rightarrow> pmm \<Rightarrow> nat \<times> pmm" where
  "pmm_alloc_aligned_pages page_count alignment max_phys m = pmm_alloc_internal page_count alignment max_phys m"

definition pmm_free_pages :: "nat \<Rightarrow> nat \<Rightarrow> pmm \<Rightarrow> pmm" where
  "pmm_free_pages base page_count m = fold (\<lambda>page. set_page_free (u64 (base + page * PAGE_SIZE))) [0..<page_count] m"

section \<open>Boot\<close>

definition pmm_page_bitmap_initialize :: "pmm \<Rightarrow> pmm" where
  "pmm_page_bitmap_initialize m =
     m\<lparr>bitmap := (\<lambda>i. if i < PAGE_BITMAP_SIZE then PAGE_BITMAP_FULL else bitmap m i)\<rparr>"

function bulk_free_loop :: "nat \<Rightarrow> nat \<Rightarrow> nat \<Rightarrow> pmm \<Rightarrow> pmm" where
  "bulk_free_loop base sz p m =
     (if p < u64 (base + sz)
      then let r = sz - (p - base);
               whole = (p mod PAGE_ROW_SIZE = 0 \<and> r > PAGE_ROW_SIZE);
               m1 = (if whole then set_page_row_free p m else m);
               p1 = (if whole then p + (PAGE_ROW_SIZE - PAGE_SIZE) else p)
           in bulk_free_loop base sz (p1 + PAGE_SIZE) (set_page_free p1 m1)
      else m)"
  by pat_completeness auto
termination
  by (relation "measure (\<lambda>(base, sz, p, m). u64 (base + sz) - p)") (auto simp: Let_def PAGE_SIZE_def)

declare bulk_free_loop.simps [simp del]

definition bulk_page_bitmap_as_free :: "nat \<Rightarrow> nat \<Rightarrow> pmm \<Rightarrow> pmm" where
  "bulk_page_bitmap_as_free base sz m =
     (if sz = 0 then m
      else if base mod PAGE_SIZE = 0 \<and> sz mod PAGE_SIZE = 0
      then bulk_free_loop base sz base (m\<lparr>total_usable_pages := total_usable_pages m + sz div PAGE_SIZE\<rparr>)
      else m)"

definition get_first_free_page :: "pmm \<Rightarrow> nat" where
  "get_first_free_page m =
     (case find (\<lambda>i. bitmap m i \<noteq> PAGE_BITMAP_FULL) [0..<PAGE_BITMAP_SIZE] of
        None \<Rightarrow> 0
      | Some i \<Rightarrow>
          (case find (\<lambda>b. bitmap m i AND push_bit b 1 = 0) [0..<64] of
             None \<Rightarrow> 0 | Some b \<Rightarrow> i * PAGE_ROW_SIZE + b * PAGE_SIZE))"

text \<open>Each usable entry of the boot loader's memory map is freed.\<close>

definition list_memory_areas :: "(nat \<times> nat \<times> bool) list \<Rightarrow> pmm \<Rightarrow> pmm" where
  "list_memory_areas es m =
     fold (\<lambda>(base, len, usable). if usable then bulk_page_bitmap_as_free base len else id) es m"

definition pmm_get_stats :: "pmm \<Rightarrow> nat \<times> nat" where
  "pmm_get_stats m = (total_usable_pages m, free_page_count m)"

section \<open>The bitmap as a set of pages\<close>

definition used :: "(nat \<Rightarrow> 64 word) \<Rightarrow> nat \<Rightarrow> bool" where
  "used bm pg \<longleftrightarrow> bit (bm (pg div 64)) (pg mod 64)"

definition npages :: nat where
  "npages = 64 * PAGE_BITMAP_SIZE"

definition free_set :: "pmm \<Rightarrow> nat set" where
  "free_set m = {pg. pg < npages \<and> \<not> used (bitmap m) pg}"

text \<open>The pages \<open>c, ..., c + n - 1\<close> are free, in range, aligned and below the limit.\<close>

definition suitable :: "(nat \<Rightarrow> 64 word) \<Rightarrow> nat \<Rightarrow> nat \<Rightarrow> nat \<Rightarrow> nat \<Rightarrow> bool" where
  "suitable bm n al max_phys c \<longleftrightarrow>
     al dvd c \<and> c + n \<le> npages \<and> (\<forall>pg. c \<le> pg \<and> pg < c + n \<longrightarrow> \<not> used bm pg) \<and> (c + n) * PAGE_SIZE - 1 \<le> max_phys"

text \<open>The allocator in use: allocations of any size, alignment and limit, and frees of pages in range.\<close>

inductive pmm_step :: "pmm \<Rightarrow> pmm \<Rightarrow> bool" where
  alloc: "pmm_step m (snd (pmm_alloc_internal n alignment mx m))"
| release: "base + n * PAGE_SIZE \<le> npages * PAGE_SIZE \<Longrightarrow> pmm_step m (pmm_free_pages base n m)"

definition demo_pmm :: pmm where
  "demo_pmm = \<lparr>bitmap = (\<lambda>i. if i = 1 then NOT 0b110 else - 1), free_page_count = 2, total_usable_pages = 2\<rparr>"

lemma PAGE_SIZE_nz [simp]: "PAGE_SIZE \<noteq> 0"
  by (simp add: PAGE_SIZE_def)

lemma test_bit: "n < 64 \<Longrightarrow> ((w :: 64 word) AND push_bit n 1 \<noteq> 0) = bit w n"
  by (simp add: push_bit_of_1 and_exp_eq_0_iff_not_bit)

lemma page_bit [simp]: "(bm (pg div 64) AND 2 ^ (pg mod 64) = (0 :: 64 word)) = (\<not> used bm pg)"
  by (simp add: and_exp_eq_0_iff_not_bit used_def)

lemma page_eq: "(q div 64 = p div 64 \<and> q mod 64 = p mod 64) \<longleftrightarrow> q = (p::nat)"
  by (metis div_mod_decomp)

lemma used_set_page_free [simp]:
  "used (bitmap (set_page_free addr m)) q \<longleftrightarrow> used (bitmap m) q \<and> q \<noteq> addr div PAGE_SIZE"
proof -
  let ?p = "addr div PAGE_SIZE"
  have "bit (bitmap m (?p div 64) AND NOT (push_bit (?p mod 64) 1)) (q mod 64) \<longleftrightarrow>
      bit (bitmap m (?p div 64)) (q mod 64) \<and> q mod 64 \<noteq> ?p mod 64"
    by (auto simp: bit_simps)
  then show ?thesis using page_eq[of q ?p]
    by (cases "q = ?p") (auto simp: set_page_free_def Let_def used_def)
qed

lemma used_set_page_used [simp]:
  "used (bitmap (set_page_used addr m)) q \<longleftrightarrow> used (bitmap m) q \<or> q = addr div PAGE_SIZE"
proof -
  let ?p = "addr div PAGE_SIZE"
  have "bit (bitmap m (?p div 64) OR push_bit (?p mod 64) 1) (q mod 64) \<longleftrightarrow>
      bit (bitmap m (?p div 64)) (q mod 64) \<or> q mod 64 = ?p mod 64"
    by (auto simp: bit_simps)
  then show ?thesis using page_eq[of q ?p]
    by (cases "q = ?p") (auto simp: set_page_used_def Let_def used_def)
qed

lemma free_set_finite [simp]: "finite (free_set m)"
  by (rule finite_subset[of _ "{..<npages}"]) (auto simp: free_set_def)

lemma free_set_card: "card (free_set m) \<le> npages"
  using card_mono[of "{..<npages}" "free_set m"] by (auto simp: free_set_def)

lemma free_set_ops:
  "free_set (set_page_free addr m) = free_set m \<union> ({addr div PAGE_SIZE} \<inter> {..<npages})"
  "free_set (set_page_used addr m) = free_set m - {addr div PAGE_SIZE}"
  by (auto simp: free_set_def)

lemma count_ops:
  "free_page_count (set_page_free addr m) =
     (if used (bitmap m) (addr div PAGE_SIZE) then u64 (free_page_count m + 1) else free_page_count m)"
  "free_page_count (set_page_used addr m) =
     (if used (bitmap m) (addr div PAGE_SIZE) then free_page_count m else free_page_count m - 1)"
  by (simp_all add: set_page_free_def set_page_used_def Let_def)

definition count_ok :: "pmm \<Rightarrow> bool" where
  "count_ok m \<longleftrightarrow> free_page_count m = card (free_set m)"

lemma count_ok_free:
  assumes "count_ok m" "addr div PAGE_SIZE < npages"
  shows "count_ok (set_page_free addr m)"
proof -
  let ?p = "addr div PAGE_SIZE"
  have b: "u64 (free_page_count m + 1) = card (free_set m) + 1"
    using assms(1) free_set_card[of m] by (simp add: count_ok_def npages_def PAGE_BITMAP_SIZE_def)
  have "?p \<in> free_set m \<longleftrightarrow> \<not> used (bitmap m) ?p" using assms(2) by (simp add: free_set_def)
  then show ?thesis using assms b
    by (cases "used (bitmap m) ?p") (simp_all add: count_ok_def free_set_ops count_ops insert_absorb)
qed

lemma count_ok_used:
  assumes "count_ok m" "addr div PAGE_SIZE < npages"
  shows "count_ok (set_page_used addr m)"
proof -
  let ?p = "addr div PAGE_SIZE"
  have "?p \<in> free_set m \<longleftrightarrow> \<not> used (bitmap m) ?p" using assms(2) by (simp add: free_set_def)
  then show ?thesis using assms
    by (cases "used (bitmap m) ?p") (simp_all add: count_ok_def free_set_ops count_ops)
qed

section \<open>The search\<close>

text \<open>The search page by page; the code's loop over rows, with its shortcut for full rows, is the same.\<close>

fun scan_from :: "nat \<Rightarrow> nat \<Rightarrow> nat \<Rightarrow> (nat \<Rightarrow> 64 word) \<Rightarrow> nat \<Rightarrow> nat \<Rightarrow> scan \<Rightarrow> scan" where
  "scan_from n al mx bm (Suc k) p (Scanning len start) =
     scan_from n al mx bm k (Suc p) (scan_page n al mx (used bm p) p len start)"
| "scan_from n al mx bm k p st = st"

lemma scan_from_stop [simp]:
  "scan_from n al mx bm k p (Chosen b) = Chosen b" "scan_from n al mx bm k p EmptySpan = EmptySpan"
  by (cases k; simp)+

lemma scan_from_add:
  "scan_from n al mx bm (j + k) p st = scan_from n al mx bm k (p + j) (scan_from n al mx bm j p st)"
proof (induction j arbitrary: p st)
  case 0
  then show ?case by (cases st) simp_all
next
  case (Suc j)
  then show ?case by (cases st) simp_all
qed

lemma scan_from_used:
  "(\<And>q. p \<le> q \<Longrightarrow> q < p + Suc k \<Longrightarrow> used bm q) \<Longrightarrow> scan_from n al mx bm (Suc k) p (Scanning len start) = Scanning 0 start"
proof (induction k arbitrary: p len)
  case 0
  then show ?case by (simp add: scan_page_def)
next
  case (Suc k)
  have u: "used bm p" using Suc.prems[of p] by simp
  have "scan_from n al mx bm (Suc (Suc k)) p (Scanning len start) = scan_from n al mx bm (Suc k) (Suc p) (Scanning 0 start)"
    by (simp add: scan_page_def u)
  also have "\<dots> = Scanning 0 start" by (rule Suc.IH) (use Suc.prems in auto)
  finally show ?case .
qed

lemma scan_bits_from:
  "b \<le> 64 \<Longrightarrow> scan_bits n al mx (bm index) index [b..<64] st = scan_from n al mx bm (64 - b) (index * 64 + b) st"
proof (induction "64 - b" arbitrary: b st)
  case 0
  then show ?case by (cases st) simp_all
next
  case (Suc k)
  then have b: "b < 64" "64 - b = Suc (64 - Suc b)" by simp_all
  then have l: "[b..<64] = b # [Suc b..<64]" by (simp add: upt_conv_Cons)
  have "(index * 64 + b) div 64 = index" "(index * 64 + b) mod 64 = b" using b(1) by simp_all
  then have u: "(bm index AND push_bit b 1 \<noteq> 0) = used bm (index * 64 + b)"
    using test_bit[OF b(1), of "bm index"] by (simp add: used_def)
  show ?case
  proof (cases st)
    case (Scanning len start)
    then show ?thesis unfolding l b(2) using Suc.hyps(1)[of "Suc b"] Suc.hyps(2) b(1) u by simp
  qed simp_all
qed

lemma scan_row:
  "(if bm index = PAGE_BITMAP_FULL then Scanning 0 start else scan_bits n al mx (bm index) index [0..<64] (Scanning len start))
     = scan_from n al mx bm 64 (index * 64) (Scanning len start)"
proof (cases "bm index = PAGE_BITMAP_FULL")
  case True
  have "used bm q" if "index * 64 \<le> q" "q < index * 64 + 64" for q
  proof -
    have "q div 64 = index" using that by (intro div_nat_eqI) simp_all
    then show ?thesis using True by (simp add: used_def PAGE_BITMAP_FULL_def)
  qed
  then have "scan_from n al mx bm (Suc 63) (index * 64) (Scanning len start) = Scanning 0 start"
    by (intro scan_from_used) simp_all
  then show ?thesis using True by simp
next
  case False
  then show ?thesis using scan_bits_from[of 0 n al mx bm index "Scanning len start"] by simp
qed

lemma scan_rows_from:
  "i \<le> m \<Longrightarrow> scan_rows n al mx bm [i..<m] st = scan_from n al mx bm (64 * (m - i)) (i * 64) st"
proof (induction "m - i" arbitrary: i st)
  case 0
  then show ?case by (cases st) simp_all
next
  case (Suc k)
  then have i: "i < m" "64 * (m - i) = 64 + 64 * (m - Suc i)" by simp_all
  then have l: "[i..<m] = i # [Suc i..<m]" by (simp add: upt_conv_Cons)
  show ?case
  proof (cases st)
    case (Scanning len start)
    have "scan_rows n al mx bm [i..<m] st = scan_rows n al mx bm [Suc i..<m] (scan_from n al mx bm 64 (i * 64) st)"
      unfolding l Scanning using scan_row[of bm i start n al mx len] by simp
    also have "\<dots> = scan_from n al mx bm (64 * (m - Suc i)) (i * 64 + 64) (scan_from n al mx bm 64 (i * 64) st)"
      using Suc.hyps(1)[of "Suc i"] Suc.hyps(2) i(1) by (simp add: add.commute)
    finally show ?thesis unfolding i(2) scan_from_add .
  qed simp_all
qed

lemma align_up:
  fixes al s d :: nat
  assumes "0 < al"
  defines "c \<equiv> (s + al - 1) div al * al"
  shows "s \<le> c" "al dvd c" "al dvd d \<Longrightarrow> s \<le> d \<Longrightarrow> c \<le> d"
proof -
  have "(s + al - 1) div al * al + (s + al - 1) mod al = s + al - 1" by (rule div_mult_mod_eq)
  moreover have "(s + al - 1) mod al < al" using assms(1) by simp
  ultimately show "s \<le> c" unfolding c_def using assms(1) by linarith
  show "al dvd c" by (simp add: c_def)
  show "c \<le> d" if "al dvd d" "s \<le> d"
  proof -
    obtain k where k: "d = al * k" using \<open>al dvd d\<close> by blast
    have "(s + al - 1) div al \<le> (al * k + (al - 1)) div al" using that(2) k assms(1) by (intro div_le_mono) simp
    also have "\<dots> = k" by (subst div_mult_self4) (use assms(1) in simp_all)
    finally show ?thesis unfolding c_def k by (simp add: mult.commute)
  qed
qed

text \<open>
  Before page \<open>p\<close>: the current run is the longest free one that ends there, and every suitable
  block reaches beyond \<open>p\<close>.
\<close>

definition scan_inv :: "nat \<Rightarrow> nat \<Rightarrow> nat \<Rightarrow> (nat \<Rightarrow> 64 word) \<Rightarrow> nat \<Rightarrow> nat \<Rightarrow> nat \<Rightarrow> bool" where
  "scan_inv n al mx bm p len start \<longleftrightarrow>
     len \<le> p \<and> (0 < len \<longrightarrow> start = p - len) \<and> (\<forall>q. p - len \<le> q \<and> q < p \<longrightarrow> \<not> used bm q)
     \<and> (len < p \<longrightarrow> used bm (p - len - 1)) \<and> (\<forall>c. suitable bm n al mx c \<longrightarrow> p < c + n)"

lemma scan_inv_start:
  "0 < n \<Longrightarrow> scan_inv n al mx bm 0 0 0"
  by (auto simp: scan_inv_def suitable_def)

lemma scan_inv_next:
  assumes "scan_inv n al mx bm p len start" "0 < n" "suitable bm n al mx c" "\<not> Suc p < c + n"
  shows "c + n = Suc p" "p - len \<le> c" "\<not> used bm p"
proof -
  show e: "c + n = Suc p" using assms(1,3,4) by (auto simp: scan_inv_def)
  have fr: "\<not> used bm q" if "c \<le> q" "q < c + n" for q using assms(3) that by (simp add: suitable_def)
  show "\<not> used bm p" by (rule fr) (use e assms(2) in auto)
  show "p - len \<le> c"
  proof (rule ccontr)
    assume "\<not> p - len \<le> c"
    then have "len < p" "c \<le> p - len - 1" "p - len - 1 < c + n" using e by auto
    then show False using fr[of "p - len - 1"] assms(1) by (auto simp: scan_inv_def)
  qed
qed

lemma over_limit:
  assumes "u64 (n * PAGE_SIZE) = n * PAGE_SIZE" "0 < n"
  shows "(b * PAGE_SIZE > mx \<or> u64 (n * PAGE_SIZE) - 1 > mx - b * PAGE_SIZE) \<longleftrightarrow> \<not> (b + n) * PAGE_SIZE - 1 \<le> mx"
proof -
  have "(x > mx \<or> y - 1 > mx - x) \<longleftrightarrow> \<not> x + y - 1 \<le> mx" if "0 < y" for x y :: nat using that by arith
  from this[of "n * PAGE_SIZE" "b * PAGE_SIZE"] show ?thesis using assms by (simp add: add_mult_distrib)
qed

lemma pick_candidate_spec:
  assumes inv: "scan_inv n al mx bm p len start" and n: "0 < n" "n \<le> len + 1" "0 < al" "p < npages" "\<not> used bm p"
    and st: "start' = p - len"
  shows "case pick_candidate n al mx start' (p + 1) of
      None \<Rightarrow> \<forall>c. suitable bm n al mx c \<longrightarrow> Suc p < c + n
    | Some (Chosen base) \<Rightarrow> \<exists>c. base = c * PAGE_SIZE \<and> suitable bm n al mx c \<and> (\<forall>d. suitable bm n al mx d \<longrightarrow> c \<le> d)
    | Some _ \<Rightarrow> False"
proof -
  define cand where "cand = (start' + al - 1) div al * al"
  note a = align_up[OF n(3), where s = start', folded cand_def]
  have len: "len \<le> p" using inv by (simp add: scan_inv_def)
  have c1: "(if al > 1 then cand else start') = cand" using n(3) by (auto simp: cand_def)
  have nb: "n \<le> npages" using n(2,4) len by simp
  have u: "u64 (n * PAGE_SIZE) = n * PAGE_SIZE"
    using nb by (simp add: npages_def PAGE_BITMAP_SIZE_def PAGE_SIZE_def)
  have pos: "0 < n * PAGE_SIZE" using n(1) by simp
  have late: "c + n = Suc p" "cand \<le> c" if "suitable bm n al mx c" "\<not> Suc p < c + n" for c
    using scan_inv_next[OF inv n(1) that] a(3)[of c] that(1) st by (auto simp: suitable_def)
  have unf: "pick_candidate n al mx start' (p + 1) =
      (if al > 1 \<and> \<not> cand + n \<le> p + 1 then None
       else if \<not> (cand + n) * PAGE_SIZE - 1 \<le> mx then None else Some (Chosen (cand * PAGE_SIZE)))"
    unfolding pick_candidate_def Let_def cand_def[symmetric] c1
    using over_limit[OF u n(1), of mx cand] pos u by simp
  show ?thesis
  proof (cases "(al > 1 \<and> \<not> cand + n \<le> p + 1) \<or> \<not> (cand + n) * PAGE_SIZE - 1 \<le> mx")
    case True
    have "Suc p < c + n" if s: "suitable bm n al mx c" for c
    proof (rule ccontr)
      assume "\<not> Suc p < c + n"
      note l = late[OF s this]
      have "(cand + n) * PAGE_SIZE \<le> (c + n) * PAGE_SIZE" using l(2) by simp
      then show False using True l s by (auto simp: suitable_def)
    qed
    then show ?thesis using True unf by auto
  next
    case False
    have al1: "cand + n \<le> p + 1" using False c1 n(2,3) st len by (cases "al > 1") auto
    have su: "suitable bm n al mx cand"
    proof -
      have "\<not> used bm q" if "cand \<le> q" "q < cand + n" for q
        using that a(1) al1 inv n(5) st by (cases "q = p") (auto simp: scan_inv_def)
      then show ?thesis using a(2) al1 n(4) False by (auto simp: suitable_def)
    qed
    have "cand \<le> d" if s: "suitable bm n al mx d" for d
    proof (rule ccontr)
      assume "\<not> cand \<le> d"
      then have "\<not> Suc p < d + n" using al1 by simp
      from late(2)[OF s this] show False using \<open>\<not> cand \<le> d\<close> by simp
    qed
    then show ?thesis using False unf su by auto
  qed
qed

lemma scan_page_spec:
  assumes inv: "scan_inv n al mx bm p len start" and n: "0 < n" "0 < al" "p < npages"
  shows "case scan_page n al mx (used bm p) p len start of
      Scanning len' start' \<Rightarrow> scan_inv n al mx bm (Suc p) len' start'
    | Chosen base \<Rightarrow> \<exists>c. base = c * PAGE_SIZE \<and> suitable bm n al mx c \<and> (\<forall>d. suitable bm n al mx d \<longrightarrow> c \<le> d)
    | EmptySpan \<Rightarrow> False"
proof (cases "used bm p")
  case True
  then have "\<forall>c. suitable bm n al mx c \<longrightarrow> Suc p < c + n" using scan_inv_next(3)[OF inv n(1)] by blast
  then show ?thesis using True by (auto simp: scan_page_def scan_inv_def)
next
  case False
  define start' where "start' = (if len = 0 then p else start)"
  have st: "start' = p - len" "len \<le> p" using inv by (auto simp: scan_inv_def start'_def)
  have keep: "scan_inv n al mx bm (Suc p) (len + 1) start'" if "\<forall>c. suitable bm n al mx c \<longrightarrow> Suc p < c + n"
    using that inv False st unfolding scan_inv_def by (auto simp: less_Suc_eq)
  show ?thesis
  proof (cases "n \<le> len + 1")
    case True
    note pc = pick_candidate_spec[OF inv n(1) True n(2,3) False st(1)]
    have unf: "scan_page n al mx (used bm p) p len start =
        (case pick_candidate n al mx start' (p + 1) of None \<Rightarrow> Scanning (len + 1) start' | Some r \<Rightarrow> r)"
      using False True by (simp add: scan_page_def start'_def[symmetric] Let_def split: option.splits)
    show ?thesis
    proof (cases "pick_candidate n al mx start' (p + 1)")
      case None
      then show ?thesis using pc keep unf by simp
    next
      case (Some r)
      then show ?thesis using pc unf by (cases r) simp_all
    qed
  next
    case small: False
    have "Suc p < c + n" if s: "suitable bm n al mx c" for c
    proof (rule ccontr)
      assume "\<not> Suc p < c + n"
      from scan_inv_next(1,2)[OF inv n(1) s this] show False using small st by linarith
    qed
    then have "scan_inv n al mx bm (Suc p) (len + 1) start'" using keep by blast
    then show ?thesis using False small by (simp add: scan_page_def start'_def[symmetric] Let_def)
  qed
qed

lemma scan_from_spec:
  assumes "scan_inv n al mx bm p len start" "0 < n" "0 < al" "p + k = npages"
  shows "case scan_from n al mx bm k p (Scanning len start) of
      Scanning len' start' \<Rightarrow> (\<nexists>c. suitable bm n al mx c)
    | Chosen base \<Rightarrow> \<exists>c. base = c * PAGE_SIZE \<and> suitable bm n al mx c \<and> (\<forall>d. suitable bm n al mx d \<longrightarrow> c \<le> d)
    | EmptySpan \<Rightarrow> False"
  using assms
proof (induction k arbitrary: p len start)
  case 0
  then have "\<not> suitable bm n al mx c" for c by (auto simp: scan_inv_def suitable_def)
  then show ?case by simp
next
  case (Suc k)
  note sp = scan_page_spec[OF Suc.prems(1-3)]
  show ?case
  proof (cases "scan_page n al mx (used bm p) p len start")
    case (Scanning len' start')
    then have "scan_inv n al mx bm (Suc p) len' start'" using sp Suc.prems(4) by simp
    then show ?thesis using Scanning Suc.IH[of "Suc p" len' start'] Suc.prems(2-4) by simp
  next
    case (Chosen base)
    then show ?thesis using sp Suc.prems(4) by simp
  next
    case EmptySpan
    then show ?thesis using sp Suc.prems(4) by simp
  qed
qed

lemma mark_used:
  "used (bitmap (fold (\<lambda>page. set_page_used (c * PAGE_SIZE + page * PAGE_SIZE)) [0..<n] m)) q
     \<longleftrightarrow> used (bitmap m) q \<or> c \<le> q \<and> q < c + n"
proof (induction n arbitrary: q)
  case 0
  then show ?case by auto
next
  case (Suc n)
  have "(c * PAGE_SIZE + n * PAGE_SIZE) div PAGE_SIZE = c + n"
    unfolding add_mult_distrib[symmetric] by simp
  then have "used (bitmap (fold (\<lambda>page. set_page_used (c * PAGE_SIZE + page * PAGE_SIZE)) [0..<Suc n] m)) q
      \<longleftrightarrow> used (bitmap (fold (\<lambda>page. set_page_used (c * PAGE_SIZE + page * PAGE_SIZE)) [0..<n] m)) q \<or> q = c + n"
    by simp
  then show ?case unfolding Suc.IH by auto
qed

lemma mark_used_count:
  assumes "count_ok m" "c + n \<le> npages"
  shows "count_ok (fold (\<lambda>page. set_page_used (c * PAGE_SIZE + page * PAGE_SIZE)) [0..<n] m)"
  using assms(2)
proof (induction n)
  case 0
  then show ?case using assms(1) by simp
next
  case (Suc n)
  have "(c * PAGE_SIZE + n * PAGE_SIZE) div PAGE_SIZE = c + n"
    unfolding add_mult_distrib[symmetric] by simp
  then show ?case using Suc by (simp add: count_ok_used)
qed

lemma pmm_free_pages_count:
  assumes "count_ok m" "base + n * PAGE_SIZE \<le> npages * PAGE_SIZE"
  shows "count_ok (pmm_free_pages base n m)"
proof -
  have "count_ok (fold (\<lambda>page. set_page_free (u64 (base + page * PAGE_SIZE))) [0..<k] m)" if "k \<le> n" for k
    using that
  proof (induction k)
    case 0
    then show ?case using assms(1) by simp
  next
    case (Suc k)
    have "Suc k * PAGE_SIZE \<le> n * PAGE_SIZE" using Suc.prems by (rule mult_le_mono1)
    then have "k * PAGE_SIZE + PAGE_SIZE \<le> n * PAGE_SIZE" by simp
    then have lt: "base + k * PAGE_SIZE < npages * PAGE_SIZE" using assms(2) PAGE_SIZE_pos by linarith
    have "npages * PAGE_SIZE < 2 ^ 64" by (simp add: npages_def PAGE_BITMAP_SIZE_def PAGE_SIZE_def)
    then have "u64 (base + k * PAGE_SIZE) = base + k * PAGE_SIZE"
      by (intro u64_small less_trans[OF lt])
    moreover have "(base + k * PAGE_SIZE) div PAGE_SIZE < npages" by (rule less_mult_imp_div_less[OF lt])
    ultimately show ?case using Suc by (simp add: count_ok_free)
  qed
  then show ?thesis by (simp add: pmm_free_pages_def)
qed

lemma alloc_spec:
  assumes "0 < n"
  shows "case pmm_alloc_internal n alignment mx m of (base, m') \<Rightarrow>
      (\<nexists>c. suitable (bitmap m) n (alignment_pages alignment) mx c) \<and> base = 0 \<and> m' = m
    \<or> (\<exists>c. suitable (bitmap m) n (alignment_pages alignment) mx c \<and> (\<forall>d. suitable (bitmap m) n (alignment_pages alignment) mx d \<longrightarrow> c \<le> d)
         \<and> base = c * PAGE_SIZE \<and> m' = fold (\<lambda>page. set_page_used (c * PAGE_SIZE + page * PAGE_SIZE)) [0..<n] m)"
proof -
  define al where "al = alignment_pages alignment"
  have al: "0 < al" by (simp add: al_def alignment_pages_def Let_def)
  have sc: "scan_rows n al mx (bitmap m) [0..<PAGE_BITMAP_SIZE] (Scanning 0 0) = scan_from n al mx (bitmap m) npages 0 (Scanning 0 0)"
    using scan_rows_from[of 0 PAGE_BITMAP_SIZE n al mx "bitmap m"] by (simp add: npages_def)
  note sp = scan_from_spec[OF scan_inv_start[OF assms] assms al, where k = npages and mx = mx and bm = "bitmap m"]
  show ?thesis
  proof (cases "scan_from n al mx (bitmap m) npages 0 (Scanning 0 0)")
    case (Scanning len start)
    then show ?thesis using sp assms sc by (simp add: pmm_alloc_internal_def al_def)
  next
    case (Chosen base)
    then show ?thesis using sp assms sc by (auto simp: pmm_alloc_internal_def al_def)
  next
    case EmptySpan
    then show ?thesis using sp by simp
  qed
qed

section \<open>Properties\<close>

text \<open>
  C24. \<^verbatim>\<open>pmm_alloc_internal\<close> is an exact first fit. If some block of free pages is aligned and lies below
  the limit, it returns the address of the lowest one, which is a multiple of a page-multiple alignment,
  and marks exactly its pages as used; otherwise it returns 0 and changes nothing. The search over
  rows, with its shortcut for full rows, misses no block.
\<close>

theorem pmm_alloc_first_fit:
  assumes "0 < n" "alignment + PAGE_SIZE - 1 < 2 ^ 64"
  shows "case pmm_alloc_internal n alignment mx m of (base, m') \<Rightarrow>
      if \<exists>c. suitable (bitmap m) n (alignment_pages alignment) mx c
      then let c = (LEAST c. suitable (bitmap m) n (alignment_pages alignment) mx c)
           in base = c * PAGE_SIZE \<and> (\<forall>q. used (bitmap m') q \<longleftrightarrow> used (bitmap m) q \<or> c \<le> q \<and> q < c + n)
              \<and> (0 < alignment \<and> PAGE_SIZE dvd alignment \<longrightarrow> alignment dvd base)
      else base = 0 \<and> m' = m"
proof -
  define al where "al = alignment_pages alignment"
  obtain base m' where r: "pmm_alloc_internal n alignment mx m = (base, m')" by fastforce
  consider "\<nexists>c. suitable (bitmap m) n al mx c" "base = 0" "m' = m"
    | c where "suitable (bitmap m) n al mx c" "\<forall>d. suitable (bitmap m) n al mx d \<longrightarrow> c \<le> d" "base = c * PAGE_SIZE"
      "m' = fold (\<lambda>page. set_page_used (c * PAGE_SIZE + page * PAGE_SIZE)) [0..<n] m"
    using alloc_spec[OF assms(1), where alignment = alignment and mx = mx and m = m] r by (auto simp: al_def)
  then show ?thesis
  proof cases
    case 1
    then show ?thesis using r by (simp add: al_def)
  next
    case 2
    have l: "(LEAST c. suitable (bitmap m) n al mx c) = c" by (rule Least_equality) (use 2 in auto)
    have "alignment dvd base" if "0 < alignment" and dv: "PAGE_SIZE dvd alignment"
    proof -
      have False: "\<not> alignment < PAGE_SIZE" using nat_dvd_not_less[OF that(1)] dv by blast
      obtain k where k: "alignment = PAGE_SIZE * k" using dv by blast
      have "(alignment + PAGE_SIZE - 1) div PAGE_SIZE = k"
        using div_mult_self4[of PAGE_SIZE k "PAGE_SIZE - 1"] unfolding k by (simp add: PAGE_SIZE_def)
      moreover have "0 < k" using False k by (cases k) simp_all
      ultimately have "al = k" using assms(2) False by (simp add: al_def alignment_pages_def Let_def)
      then show ?thesis using 2(1,3) k by (simp add: suitable_def mult.commute)
    qed
    then show ?thesis using r 2 l mark_used[of c n m] by (auto simp: al_def[symmetric] Let_def)
  qed
qed

lemma demo_used: "used (bitmap demo_pmm) q \<longleftrightarrow> q \<noteq> 65 \<and> q \<noteq> 66"
proof -
  have b: "bit (NOT 0b110 :: 64 word) k \<longleftrightarrow> k \<noteq> 1 \<and> k \<noteq> 2" if "k < 64" for k
  proof -
    have "(0b110 :: 64 word) = push_bit 1 1 OR push_bit 2 1" by simp
    then show ?thesis using that by (simp only: bit_not_iff bit_or_iff bit_push_bit_iff) (auto simp: bit_simps)
  qed
  have "q = 65 \<longleftrightarrow> q div 64 = 1 \<and> q mod 64 = 1" "q = 66 \<longleftrightarrow> q div 64 = 1 \<and> q mod 64 = 2"
    using page_eq[of q 65] page_eq[of q 66] by auto
  then show ?thesis using b[of "q mod 64"] by (auto simp: used_def demo_pmm_def)
qed

lemma demo_suitable:
  assumes "67 * PAGE_SIZE - 1 \<le> mx"
  shows "suitable (bitmap demo_pmm) 2 1 mx d \<longleftrightarrow> d = 65"
proof
  assume s: "suitable (bitmap demo_pmm) 2 1 mx d"
  have "\<not> used (bitmap demo_pmm) d" "\<not> used (bitmap demo_pmm) (d + 1)" using s unfolding suitable_def by auto
  then show "d = 65" by (auto simp: demo_used)
next
  assume d: "d = 65"
  have "\<not> used (bitmap demo_pmm) q" if "65 \<le> q" "q < 67" for q using that by (auto simp: demo_used)
  moreover have "67 \<le> npages" by (simp add: npages_def PAGE_BITMAP_SIZE_def)
  ultimately show "suitable (bitmap demo_pmm) 2 1 mx d" using assms d by (simp add: suitable_def)
qed

theorem pmm_alloc_first_fit_witness:
  "fst (pmm_alloc_internal 2 4096 (2 ^ 64 - 1) demo_pmm) = 65 * 4096"
proof -
  define mx :: nat where "mx = 2 ^ 64 - 1"
  have al: "alignment_pages 4096 = 1" by (simp add: alignment_pages_def PAGE_SIZE_def u64_def)
  have mx: "67 * PAGE_SIZE - 1 \<le> mx" by (simp add: mx_def PAGE_SIZE_def)
  have ex: "\<exists>c. suitable (bitmap demo_pmm) 2 1 mx c" and l: "(LEAST c. suitable (bitmap demo_pmm) 2 1 mx c) = 65"
    unfolding demo_suitable[OF mx] by (simp, rule Least_equality) simp_all
  obtain base m' where r: "pmm_alloc_internal 2 4096 mx demo_pmm = (base, m')" by fastforce
  have "(0::nat) < 2" "4096 + PAGE_SIZE - 1 < 2 ^ 64" by (simp_all add: PAGE_SIZE_def)
  note f = pmm_alloc_first_fit[OF this, where mx = mx and m = demo_pmm, unfolded r prod.case al l Let_def if_P[OF ex]]
  then have "base = 65 * PAGE_SIZE" by blast
  then show ?thesis using r by (simp add: mx_def PAGE_SIZE_def)
qed



text \<open>
  At boot the count goes wrong: freeing a whole row of used pages makes 64 pages available but does
  not add them to the count of free pages, since \<^verbatim>\<open>set_page_row_free\<close> adds the pages of the row that
  were already free.
\<close>

theorem set_page_row_free_miscounts:
  assumes "bitmap m i = PAGE_BITMAP_FULL" "i < PAGE_BITMAP_SIZE"
  defines "m' \<equiv> set_page_row_free (i * PAGE_ROW_SIZE) m"
  shows "free_page_count m' = free_page_count m \<and> card (free_set m') = card (free_set m) + 64"
proof -
  have ix: "i * PAGE_ROW_SIZE div PAGE_SIZE div 64 = i" by (simp add: PAGE_ROW_SIZE_def)
  have "Collect (bit (- 1 :: 64 word)) = {..<64}" by auto
  then have all: "card (Collect (bit (- 1 :: 64 word))) = 64" by simp
  have m': "m' = m\<lparr>bitmap := (bitmap m)(i := 0)\<rparr>"
    using assms(1) all by (simp add: m'_def set_page_row_free_def Let_def ix PAGE_BITMAP_FULL_def)
  let ?R = "{i * 64..<i * 64 + 64}"
  have dv: "q div 64 = i \<longleftrightarrow> q \<in> ?R" for q by (simp only: atLeastLessThan_iff) arith
  have np: "q < npages" if "q \<in> ?R" for q using assms(2) that by (simp add: npages_def)
  have "used (bitmap m') q \<longleftrightarrow> used (bitmap m) q \<and> q \<notin> ?R" for q
    unfolding dv[symmetric] by (simp add: used_def m')
  then have "free_set m' = free_set m \<union> ?R" using np by (auto simp only: free_set_def mem_Collect_eq Un_iff)
  moreover have "used (bitmap m) q" if "q \<in> ?R" for q
    using that dv[of q] assms(1) by (simp add: used_def PAGE_BITMAP_FULL_def)
  then have "free_set m \<inter> ?R = {}" by (auto simp only: free_set_def)
  ultimately have "card (free_set m') = card (free_set m) + 64" by (simp add: card_Un_disjoint)
  then show ?thesis by (simp add: m')
qed

theorem set_page_row_free_miscounts_witness:
  "free_page_count (set_page_row_free 0 demo_pmm) = 2 \<and> card (free_set (set_page_row_free 0 demo_pmm)) = card (free_set demo_pmm) + 64"
  using set_page_row_free_miscounts[of demo_pmm 0]
  by (simp add: demo_pmm_def PAGE_BITMAP_FULL_def PAGE_BITMAP_SIZE_def)

end
