(* ===== verification/Paging.thy ===== *)
theory Paging
  imports Pmm
begin

text \<open>
  Page tables: the paging half of \<^verbatim>\<open>src/kernel/mem/pmm.c\<close>.

  The four table types of \<^verbatim>\<open>pmm.h\<close> have one layout, which \<open>entry\<close> gives by its bit fields (bit 7 is
  \<^verbatim>\<open>large_page\<close>, and reserved in a page-table entry). \<open>tabs\<close> holds the tables by physical page number:
  the code reaches them through \<^verbatim>\<open>physical_to_virtual\<close>, a constant offset, which is left implicit.
  \<open>frames\<close> is the page allocator the tables come from. Addresses are natural numbers below $2^{64}$; a
  pointer to an entry is a pair of a table's page number and an index. \<^verbatim>\<open>invlpg\<close> has no effect on
  the model.
\<close>

record entry =
  e_present :: bool
  e_writable :: bool
  e_user :: bool
  e_write_through :: bool
  e_cache_disable :: bool
  e_large :: bool
  e_global :: bool
  e_available :: nat
  e_base :: nat
  e_no_execute :: bool

definition zero_entry :: entry where
  "zero_entry = \<lparr>e_present = False, e_writable = False, e_user = False, e_write_through = False,
     e_cache_disable = False, e_large = False, e_global = False, e_available = 0, e_base = 0, e_no_execute = False\<rparr>"

type_synonym tables = "nat \<Rightarrow> nat \<Rightarrow> entry"
type_synonym entry_ptr = "nat \<times> nat"

record paging =
  tabs :: tables
  frames :: pmm
  cr3_root :: nat
  kernel_cr3_phys :: nat

definition PHYS_ADDR_INVALID :: nat where
  "PHYS_ADDR_INVALID = 2 ^ 64 - 1"

definition VADDR_UNUSED :: nat where
  "VADDR_UNUSED = 0xffff000000000000"

definition pml4_index :: "nat \<Rightarrow> nat" where
  "pml4_index v = v div 2 ^ 39 mod 512"

definition pdpt_index :: "nat \<Rightarrow> nat" where
  "pdpt_index v = v div 2 ^ 30 mod 512"

definition pd_index :: "nat \<Rightarrow> nat" where
  "pd_index v = v div 2 ^ 21 mod 512"

definition pt_index :: "nat \<Rightarrow> nat" where
  "pt_index v = v div 2 ^ 12 mod 512"

record pml4_map_rec =
  map_pml4 :: nat
  map_pdpt :: nat
  map_pd :: nat
  map_pt :: nat
  map_offset :: nat

definition pml4_map :: "nat \<Rightarrow> pml4_map_rec" where
  "pml4_map v = \<lparr>map_pml4 = pml4_index v, map_pdpt = pdpt_index v, map_pd = pd_index v, map_pt = pt_index v,
     map_offset = v mod 4096\<rparr>"

definition ent :: "paging \<Rightarrow> entry_ptr \<Rightarrow> entry" where
  "ent k pi = tabs k (fst pi) (snd pi)"

definition set_ent :: "entry_ptr \<Rightarrow> entry \<Rightarrow> paging \<Rightarrow> paging" where
  "set_ent pi e k = k\<lparr>tabs := (tabs k)(fst pi := (tabs k (fst pi))(snd pi := e))\<rparr>"

section \<open>Looking up\<close>

definition virtual_to_physical :: "nat \<Rightarrow> nat \<Rightarrow> paging \<Rightarrow> nat" where
  "virtual_to_physical kernel_offset v k =
     (if cr3_root k = 0
      then (if kernel_offset \<noteq> 0 \<and> v \<ge> kernel_offset then v - kernel_offset else PHYS_ADDR_INVALID)
      else let e4 = tabs k (cr3_root k div PAGE_SIZE) (pml4_index v) in
        if \<not> e_present e4 \<or> e_large e4 then PHYS_ADDR_INVALID
        else let e3 = tabs k (e_base e4) (pdpt_index v) in
          if \<not> e_present e3 then PHYS_ADDR_INVALID
          else if e_large e3 then e_base e3 * PAGE_SIZE div 2 ^ 30 * 2 ^ 30 + v mod 2 ^ 30
          else let e2 = tabs k (e_base e3) (pd_index v) in
            if \<not> e_present e2 then PHYS_ADDR_INVALID
            else if e_large e2 then e_base e2 * PAGE_SIZE div 2 ^ 21 * 2 ^ 21 + v mod 2 ^ 21
            else let e1 = tabs k (e_base e2) (pt_index v) in
              if \<not> e_present e1 then PHYS_ADDR_INVALID
              else e_base e1 * PAGE_SIZE + v mod PAGE_SIZE)"

record walk_result =
  w_pml4 :: "entry_ptr option"
  w_pdpt :: "entry_ptr option"
  w_pd :: "entry_ptr option"
  w_pt :: "entry_ptr option"

definition pmm_walk_address :: "nat \<Rightarrow> nat \<Rightarrow> paging \<Rightarrow> walk_result" where
  "pmm_walk_address root v k =
     (let none = \<lparr>w_pml4 = None, w_pdpt = None, w_pd = None, w_pt = None\<rparr> in
      if root = 0 then none
      else let a4 = (root div PAGE_SIZE, pml4_index v); r4 = none\<lparr>w_pml4 := Some a4\<rparr> in
        if \<not> e_present (ent k a4) then r4
        else let a3 = (e_base (ent k a4), pdpt_index v); r3 = r4\<lparr>w_pdpt := Some a3\<rparr> in
          if \<not> e_present (ent k a3) \<or> e_large (ent k a3) then r3
          else let a2 = (e_base (ent k a3), pd_index v); r2 = r3\<lparr>w_pd := Some a2\<rparr> in
            if \<not> e_present (ent k a2) \<or> e_large (ent k a2) then r2
            else r2\<lparr>w_pt := Some (e_base (ent k a2), pt_index v)\<rparr>)"

definition pmm_get_mapping :: "nat \<Rightarrow> nat \<Rightarrow> paging \<Rightarrow> (nat \<times> bool \<times> bool) option" where
  "pmm_get_mapping root v k =
     (if root = 0 then None
      else case w_pt (pmm_walk_address root v k) of
             None \<Rightarrow> None
           | Some a \<Rightarrow> if e_present (ent k a)
                       then Some (e_base (ent k a) * PAGE_SIZE, e_writable (ent k a), e_user (ent k a)) else None)"

section \<open>Mapping\<close>

text \<open>
  One level of \<^verbatim>\<open>pmm_map_page_in_root\<close>: the entry at \<open>a\<close> is given a new, zeroed table if it is not present
  (\<open>keep\<close>: the top level keeps the old user bit), and is made user accessible if asked. \<open>None\<close> is the
  failure to allocate. The result is the page number of the table below.
\<close>

definition ensure_table :: "bool \<Rightarrow> bool \<Rightarrow> entry_ptr \<Rightarrow> paging \<Rightarrow> nat option \<times> paging" where
  "ensure_table keep user a k =
     (let grown = (if e_present (ent k a) then Some k
                   else case pmm_alloc_pages 1 (frames k) of (addr, m) \<Rightarrow>
                          if addr = 0 then None
                          else let k1 = k\<lparr>frames := m, tabs := (tabs k)(addr div PAGE_SIZE := (\<lambda>_. zero_entry))\<rparr>;
                                   e = ent k1 a
                               in Some (set_ent a (e\<lparr>e_present := True, e_writable := True,
                                          e_user := (if user then True else if keep then e_user e else False),
                                          e_base := addr div PAGE_SIZE\<rparr>) k1))
      in case grown of
           None \<Rightarrow> (None, k\<lparr>frames := snd (pmm_alloc_pages 1 (frames k))\<rparr>)
         | Some k2 \<Rightarrow>
             (let k3 = (if user then set_ent a ((ent k2 a)\<lparr>e_user := True\<rparr>) k2 else k2)
              in (Some (e_base (ent k3 a)), k3)))"

definition pmm_map_page_in_root :: "nat \<Rightarrow> nat \<Rightarrow> nat \<Rightarrow> bool \<Rightarrow> bool \<Rightarrow> paging \<Rightarrow> bool \<times> paging" where
  "pmm_map_page_in_root root v pa writable user k =
     (if pa mod PAGE_SIZE \<noteq> 0 \<or> root = 0 then (False, k)
      else case ensure_table True user (root div PAGE_SIZE, pml4_index v) k of
        (None, k1) \<Rightarrow> (False, k1)
      | (Some p3, k1) \<Rightarrow>
          (case ensure_table False user (p3, pdpt_index v) k1 of
             (None, k2) \<Rightarrow> (False, k2)
           | (Some p2, k2) \<Rightarrow>
               if e_large (ent k2 (p3, pdpt_index v)) then (False, k2)
               else (case ensure_table False user (p2, pd_index v) k2 of
                       (None, k3) \<Rightarrow> (False, k3)
                     | (Some p1, k3) \<Rightarrow>
                         if e_large (ent k3 (p2, pd_index v)) then (False, k3)
                         else (True, set_ent (p1, pt_index v)
                                ((ent k3 (p1, pt_index v))\<lparr>e_present := True, e_writable := writable, e_user := user,
                                   e_write_through := False, e_cache_disable := False, e_global := False,
                                   e_available := 0, e_base := pa div PAGE_SIZE, e_no_execute := False\<rparr>) k3))))"

definition pmm_map_page :: "nat \<Rightarrow> nat \<Rightarrow> bool \<Rightarrow> bool \<Rightarrow> paging \<Rightarrow> bool \<times> paging" where
  "pmm_map_page v pa writable user k = pmm_map_page_in_root (cr3_root k) v pa writable user k"

section \<open>Unmapping\<close>

definition table_has_present_entries :: "paging \<Rightarrow> nat \<Rightarrow> bool" where
  "table_has_present_entries k p \<longleftrightarrow> (\<exists>i\<in>set [0..<512]. e_present (tabs k p i))"

definition free_frame :: "nat \<Rightarrow> paging \<Rightarrow> paging" where
  "free_frame addr k = k\<lparr>frames := pmm_free_pages addr 1 (frames k)\<rparr>"

text \<open>Gives the table below the entry at \<open>a\<close> back when it has become empty.\<close>

definition prune :: "entry_ptr \<Rightarrow> paging \<Rightarrow> paging" where
  "prune a k =
     (let p = e_base (ent k a)
      in if table_has_present_entries k p then k
         else free_frame (p * PAGE_SIZE) (set_ent a ((ent k a)\<lparr>e_present := False, e_base := 0\<rparr>) k))"

definition pmm_unmap_page_internal :: "nat \<Rightarrow> nat \<Rightarrow> bool \<Rightarrow> paging \<Rightarrow> bool \<times> paging" where
  "pmm_unmap_page_internal root v free_it k =
     (if root = 0 then (False, k)
      else let w = pmm_walk_address root v k in
        case w_pt w of
          None \<Rightarrow> (False, k)
        | Some a \<Rightarrow>
            if \<not> e_present (ent k a) then (False, k)
            else let frame = e_base (ent k a) * PAGE_SIZE;
                     k1 = set_ent a ((ent k a)\<lparr>e_present := False, e_base := 0\<rparr>) k;
                     k2 = (case w_pd w of None \<Rightarrow> k1 | Some a2 \<Rightarrow> prune a2 k1);
                     k3 = (case w_pdpt w of None \<Rightarrow> k2 | Some a3 \<Rightarrow> prune a3 k2);
                     k4 = (case w_pml4 w of None \<Rightarrow> k3 | Some a4 \<Rightarrow> prune a4 k3)
                 in (True, if free_it then free_frame frame k4 else k4))"

definition pmm_unmap_page_in_root :: "nat \<Rightarrow> nat \<Rightarrow> paging \<Rightarrow> bool \<times> paging" where
  "pmm_unmap_page_in_root root v k = pmm_unmap_page_internal root v True k"

definition pmm_remove_mapping_in_root :: "nat \<Rightarrow> nat \<Rightarrow> paging \<Rightarrow> bool \<times> paging" where
  "pmm_remove_mapping_in_root root v k = pmm_unmap_page_internal root v False k"

section \<open>User access\<close>

definition set_user :: "bool \<Rightarrow> entry_ptr \<Rightarrow> paging \<Rightarrow> paging" where
  "set_user u a k = set_ent a ((ent k a)\<lparr>e_user := u\<rparr>) k"

text \<open>\<^verbatim>\<open>mark_intermediate_user\<close>: success, the page-table entry found (\<open>None\<close> under a large page), and the tables.\<close>

definition mark_intermediate_user :: "nat \<Rightarrow> paging \<Rightarrow> bool \<times> entry_ptr option \<times> paging" where
  "mark_intermediate_user v k =
     (if cr3_root k = 0 then (False, None, k)
      else let a4 = (cr3_root k div PAGE_SIZE, pml4_index v) in
        if \<not> e_present (ent k a4) then (False, None, k)
        else let k4 = set_user True a4 k; a3 = (e_base (ent k4 a4), pdpt_index v) in
          if \<not> e_present (ent k4 a3) then (False, None, k4)
          else let k3 = set_user True a3 k4 in
            if e_large (ent k3 a3) then (True, None, k3)
            else let a2 = (e_base (ent k3 a3), pd_index v) in
              if \<not> e_present (ent k3 a2) then (False, None, k3)
              else let k2 = set_user True a2 k3 in
                if e_large (ent k2 a2) then (True, None, k2)
                else let a1 = (e_base (ent k2 a2), pt_index v) in
                  if \<not> e_present (ent k2 a1) then (False, None, k2) else (True, Some a1, k2))"

definition pmm_mark_page_user :: "nat \<Rightarrow> paging \<Rightarrow> bool \<times> paging" where
  "pmm_mark_page_user v k =
     (case mark_intermediate_user v k of
        (False, _, k1) \<Rightarrow> (False, k1)
      | (True, None, k1) \<Rightarrow> (True, k1)
      | (True, Some a, k1) \<Rightarrow> (True, set_user True a k1))"

text \<open>The loop of \<^verbatim>\<open>pmm_mark_range_user\<close>; its address wraps, so near the top of the address space it may not end.\<close>

partial_function (option) mark_range_loop :: "nat \<Rightarrow> nat \<Rightarrow> paging \<Rightarrow> (bool \<times> paging) option" where
  "mark_range_loop addr fin k =
     (if addr < fin
      then (if fst (pmm_mark_page_user addr k)
            then mark_range_loop (u64 (addr + PAGE_SIZE)) fin (snd (pmm_mark_page_user addr k))
            else Some (False, snd (pmm_mark_page_user addr k)))
      else Some (True, k))"

definition pmm_mark_range_user :: "nat \<Rightarrow> nat \<Rightarrow> paging \<Rightarrow> (bool \<times> paging) option" where
  "pmm_mark_range_user start sz k =
     (if sz = 0 then Some (True, k) else mark_range_loop (start div PAGE_SIZE * PAGE_SIZE) (u64 (start + sz)) k)"

text \<open>The nested loops of \<^verbatim>\<open>clear_kernel_user_permissions\<close>, one function per level.\<close>

definition clear_user_pt :: "nat \<Rightarrow> paging \<Rightarrow> paging" where
  "clear_user_pt p k = fold (\<lambda>i k. if e_present (ent k (p, i)) then set_user False (p, i) k else k) [0..<512] k"

definition clear_user_pd :: "nat \<Rightarrow> paging \<Rightarrow> paging" where
  "clear_user_pd p k =
     fold (\<lambda>i k. if \<not> e_present (ent k (p, i)) then k
                 else let k1 = set_user False (p, i) k
                      in if e_large (ent k1 (p, i)) then k1 else clear_user_pt (e_base (ent k1 (p, i))) k1) [0..<512] k"

definition clear_user_pdpt :: "nat \<Rightarrow> paging \<Rightarrow> paging" where
  "clear_user_pdpt p k =
     fold (\<lambda>i k. if \<not> e_present (ent k (p, i)) then k
                 else let k1 = set_user False (p, i) k
                      in if e_large (ent k1 (p, i)) then k1 else clear_user_pd (e_base (ent k1 (p, i))) k1) [0..<512] k"

definition clear_kernel_user_permissions :: "nat \<Rightarrow> paging \<Rightarrow> paging" where
  "clear_kernel_user_permissions root k =
     (if root = 0 then k
      else fold (\<lambda>i k. let p = root div PAGE_SIZE in
                   if \<not> e_present (ent k (p, i)) then k
                   else let k1 = set_user False (p, i) k in clear_user_pdpt (e_base (ent k1 (p, i))) k1) [256..<512] k)"

section \<open>Address spaces\<close>

definition pmm_clone_kernel_address_space :: "paging \<Rightarrow> nat \<times> paging" where
  "pmm_clone_kernel_address_space k =
     (let root = (if kernel_cr3_phys k \<noteq> 0 then kernel_cr3_phys k else cr3_root k) in
      case pmm_alloc_pages 1 (frames k) of
        (new_root, m) \<Rightarrow>
          if new_root = 0 then (0, k\<lparr>frames := m\<rparr>)
          else let k1 = k\<lparr>frames := m, tabs := (tabs k)(new_root div PAGE_SIZE :=
                            (\<lambda>i. if i < 256 then zero_entry else tabs k (root div PAGE_SIZE) i))\<rparr>
               in (new_root, clear_kernel_user_permissions new_root k1))"

definition write_cr3 :: "nat \<Rightarrow> paging \<Rightarrow> paging" where
  "write_cr3 val k = k\<lparr>cr3_root := val\<rparr>"

definition pmm_cr3_initialize :: "paging \<Rightarrow> paging" where
  "pmm_cr3_initialize k = clear_kernel_user_permissions (cr3_root k) (k\<lparr>kernel_cr3_phys := cr3_root k\<rparr>)"

text \<open>
  \<^verbatim>\<open>get_first_free_virtual_address\<close>: the first entry that is not present, searching each level from the
  offset's own index on.
\<close>

fun first_free_pt :: "paging \<Rightarrow> nat \<Rightarrow> nat \<Rightarrow> nat list \<Rightarrow> nat option" where
  "first_free_pt k p prefix [] = None"
| "first_free_pt k p prefix (i # is) =
     (if \<not> e_present (tabs k p i) then Some (prefix + i * 2 ^ 12) else first_free_pt k p prefix is)"

fun first_free_pd :: "paging \<Rightarrow> nat \<Rightarrow> nat \<Rightarrow> nat \<Rightarrow> nat list \<Rightarrow> nat option" where
  "first_free_pd k off p prefix [] = None"
| "first_free_pd k off p prefix (i # is) =
     (if \<not> e_present (tabs k p i) then Some (prefix + i * 2 ^ 21)
      else case first_free_pt k (e_base (tabs k p i)) (prefix + i * 2 ^ 21) [pt_index off..<512] of
             Some a \<Rightarrow> Some a | None \<Rightarrow> first_free_pd k off p prefix is)"

fun first_free_pdpt :: "paging \<Rightarrow> nat \<Rightarrow> nat \<Rightarrow> nat \<Rightarrow> nat list \<Rightarrow> nat option" where
  "first_free_pdpt k off p prefix [] = None"
| "first_free_pdpt k off p prefix (i # is) =
     (if \<not> e_present (tabs k p i) then Some (prefix + i * 2 ^ 30)
      else case first_free_pd k off (e_base (tabs k p i)) (prefix + i * 2 ^ 30) [pd_index off..<512] of
             Some a \<Rightarrow> Some a | None \<Rightarrow> first_free_pdpt k off p prefix is)"

fun first_free_pml4 :: "paging \<Rightarrow> nat \<Rightarrow> nat \<Rightarrow> nat list \<Rightarrow> nat option" where
  "first_free_pml4 k off p [] = None"
| "first_free_pml4 k off p (i # is) =
     (if \<not> e_present (tabs k p i) then Some (i * 2 ^ 39)
      else case first_free_pdpt k off (e_base (tabs k p i)) (i * 2 ^ 39) [pdpt_index off..<512] of
             Some a \<Rightarrow> Some a | None \<Rightarrow> first_free_pml4 k off p is)"

definition get_first_free_virtual_address :: "nat \<Rightarrow> paging \<Rightarrow> nat" where
  "get_first_free_virtual_address off k =
     (case first_free_pml4 k off (cr3_root k div PAGE_SIZE) [pml4_index off..<512] of
        None \<Rightarrow> 0 | Some a \<Rightarrow> a OR VADDR_UNUSED)"

section \<open>Tables as a tree\<close>

text \<open>Following a list of indices from a table; the top level ignores the large-page bit, which is reserved there.\<close>

fun walk :: "tables \<Rightarrow> nat \<Rightarrow> nat list \<Rightarrow> nat option" where
  "walk t p [] = Some p"
| "walk t p (i # is) = (if e_present (t p i) \<and> \<not> e_large (t p i) then walk t (e_base (t p i)) is else None)"

definition indices :: "nat \<Rightarrow> nat list" where
  "indices v = [pml4_index v, pdpt_index v, pd_index v]"

definition leaf :: "tables \<Rightarrow> nat \<Rightarrow> nat list \<Rightarrow> nat \<Rightarrow> (nat \<times> bool \<times> bool) option" where
  "leaf t p is i =
     (case walk t p is of
        None \<Rightarrow> None
      | Some q \<Rightarrow> if e_present (t q i) then Some (e_base (t q i) * PAGE_SIZE, e_writable (t q i), e_user (t q i)) else None)"

text \<open>
  The tables of an address space form a tree: no table is reached in two ways, top-level entries are
  never large pages, and every table is a used page of the allocator.
\<close>

definition tree :: "tables \<Rightarrow> nat \<Rightarrow> bool" where
  "tree t p \<longleftrightarrow> (\<forall>xs ys q. length xs \<le> 3 \<and> length ys \<le> 3 \<and> walk t p xs = Some q \<and> walk t p ys = Some q \<longrightarrow> xs = ys)
     \<and> (\<forall>i. \<not> e_large (t p i))"

definition table_pages :: "tables \<Rightarrow> nat \<Rightarrow> nat set" where
  "table_pages t p = {q. \<exists>xs. length xs \<le> 3 \<and> walk t p xs = Some q}"

definition paging_inv :: "nat \<Rightarrow> paging \<Rightarrow> bool" where
  "paging_inv root k \<longleftrightarrow> tree (tabs k) (root div PAGE_SIZE)
     \<and> (\<forall>q\<in>table_pages (tabs k) (root div PAGE_SIZE). used (bitmap (frames k)) q)"

lemma walk_append: "walk t p (xs @ ys) = (case walk t p xs of None \<Rightarrow> None | Some q \<Rightarrow> walk t q ys)"
  by (induction xs arbitrary: p) auto

lemma walk_prefix: "walk t p (xs @ ys) = Some q \<Longrightarrow> \<exists>r. walk t p xs = Some r"
  by (auto simp: walk_append split: option.splits)

text \<open>A change to one entry is seen only by the walks that go through it.\<close>

lemma walk_unchanged:
  assumes "\<And>zs j rest q. ys = zs @ j # rest \<Longrightarrow> walk t p zs = Some q \<Longrightarrow> t' q j = t q j"
  shows "walk t' p ys = walk t p ys"
  using assms
proof (induction ys arbitrary: p)
  case Nil
  then show ?case by simp
next
  case (Cons y ys)
  have e: "t' p y = t p y" using Cons.prems[of "[]" y ys p] by simp
  show ?case
  proof (cases "e_present (t p y) \<and> \<not> e_large (t p y)")
    case True
    have "walk t' (e_base (t p y)) ys = walk t (e_base (t p y)) ys"
    proof (rule Cons.IH)
      fix zs j rest q
      assume "ys = zs @ j # rest" "walk t (e_base (t p y)) zs = Some q"
      then show "t' q j = t q j" using Cons.prems[of "y # zs" j rest q] True by simp
    qed
    then show ?thesis using e True by simp
  next
    case False
    then show ?thesis using e by auto
  qed
qed

lemma get_mapping_leaf:
  assumes "root \<noteq> 0" "tree (tabs k) (root div PAGE_SIZE)"
  shows "pmm_get_mapping root v k = leaf (tabs k) (root div PAGE_SIZE) (indices v) (pt_index v)"
proof -
  have "\<not> e_large (tabs k (root div PAGE_SIZE) (pml4_index v))" using assms(2) by (simp add: tree_def)
  then show ?thesis using assms(1)
    by (simp add: pmm_get_mapping_def pmm_walk_address_def leaf_def indices_def Let_def ent_def)
qed

lemma treeD: "tree t p \<Longrightarrow> length xs \<le> 3 \<Longrightarrow> length ys \<le> 3 \<Longrightarrow> walk t p xs = Some q \<Longrightarrow> walk t p ys = Some q \<Longrightarrow> xs = ys"
  unfolding tree_def by blast

lemma walk_same_shape:
  assumes "\<And>q j. e_present (t' q j) = e_present (t q j) \<and> e_large (t' q j) = e_large (t q j) \<and> e_base (t' q j) = e_base (t q j)"
  shows "walk t' p ys = walk t p ys"
  using assms by (induction ys arbitrary: p) auto

text \<open>Changing only the access bits of an entry above the last level.\<close>

lemma upper_bits_inv:
  assumes inv: "paging_inv root k" and w: "walk (tabs k) (root div PAGE_SIZE) xs = Some p" "length xs \<le> 2"
    and e: "e_present e = e_present (tabs k p i)" "e_large e = e_large (tabs k p i)" "e_base e = e_base (tabs k p i)"
  shows "paging_inv root (set_ent (p, i) e k)"
    and "length ys = 3 \<Longrightarrow> leaf (tabs (set_ent (p, i) e k)) (root div PAGE_SIZE) ys j = leaf (tabs k) (root div PAGE_SIZE) ys j"
    and "walk (tabs (set_ent (p, i) e k)) (root div PAGE_SIZE) ys = walk (tabs k) (root div PAGE_SIZE) ys"
proof -
  let ?r = "root div PAGE_SIZE" and ?t = "tabs (set_ent (p, i) e k)"
  have sh: "walk ?t q ys = walk (tabs k) q ys" for q ys
    by (rule walk_same_shape) (use e in \<open>auto simp: set_ent_def\<close>)
  show "walk ?t ?r ys = walk (tabs k) ?r ys" by (rule sh)
  have lg: "e_large (?t q j) = e_large (tabs k q j)" for q j using e by (simp add: set_ent_def)
  show "paging_inv root (set_ent (p, i) e k)"
    using inv unfolding paging_inv_def tree_def table_pages_def sh lg by (simp add: set_ent_def)
  have tr: "tree (tabs k) ?r" using inv by (simp add: paging_inv_def)
  show "leaf ?t ?r ys j = leaf (tabs k) ?r ys j" if l: "length ys = 3"
  proof (cases "walk (tabs k) ?r ys")
    case None
    then show ?thesis by (simp add: leaf_def sh)
  next
    case (Some q)
    have "q \<noteq> p" using treeD[OF tr _ _ Some, of xs] w l by auto
    then have "?t q = tabs k q" by (simp add: set_ent_def)
    then show ?thesis using Some by (simp add: leaf_def sh)
  qed
qed

text \<open>Hanging a new, empty table below an entry that was not present.\<close>

lemma grow_inv:
  assumes inv: "paging_inv root k" and w: "walk (tabs k) (root div PAGE_SIZE) xs = Some p" "length xs \<le> 2"
    and np: "\<not> e_present (tabs k p i)" and fresh: "\<not> used (bitmap (frames k)) c"
    and us: "\<And>q. used (bitmap m) q \<longleftrightarrow> used (bitmap (frames k)) q \<or> q = c"
    and e: "e_large e = e_large (tabs k p i)" "e_present e" "e_base e = c"
  defines "k' \<equiv> set_ent (p, i) e (k\<lparr>frames := m, tabs := (tabs k)(c := (\<lambda>_. zero_entry))\<rparr>)"
  shows "paging_inv root k'"
    and "length ys = 3 \<Longrightarrow> leaf (tabs k') (root div PAGE_SIZE) ys j = leaf (tabs k) (root div PAGE_SIZE) ys j"
    and "walk (tabs k') (root div PAGE_SIZE) (xs @ [i]) = (if e_large (tabs k p i) then None else Some c)"
    and "walk (tabs k') (root div PAGE_SIZE) xs = Some p"
proof -
  let ?r = "root div PAGE_SIZE" and ?t = "tabs k" and ?t' = "tabs k'"
  have tr: "tree ?t ?r" and us0: "\<And>q. q \<in> table_pages ?t ?r \<Longrightarrow> used (bitmap (frames k)) q"
    using inv by (auto simp: paging_inv_def)
  have nc: "q \<noteq> c" if "walk ?t ?r zs = Some q" "length zs \<le> 3" for q zs
    using us0[of q] that fresh by (auto simp: table_pages_def)
  have pc: "p \<noteq> c" using nc[OF w(1)] w(2) by simp
  have t': "?t' = ?t(c := (\<lambda>_. zero_entry), p := (?t p)(i := e))" using pc by (simp add: k'_def set_ent_def)
  have off: "walk ?t' ?r ys = walk ?t ?r ys" if l: "length ys \<le> 3" and n: "\<nexists>rest. ys = xs @ i # rest" for ys
  proof (rule walk_unchanged)
    fix zs j rest q
    assume ys: "ys = zs @ j # rest" and wq: "walk ?t ?r zs = Some q"
    have "q = p \<Longrightarrow> zs = xs" using treeD[OF tr _ _ wq, of xs] w ys l by auto
    then show "?t' q j = ?t q j" using n ys nc[OF wq] l by (auto simp: t')
  qed
  show wx: "walk ?t' ?r xs = Some p" using off[of xs] w by auto
  have on: "walk ?t' ?r (xs @ i # rest) = (if e_large (?t p i) then None else if rest = [] then Some c else None)" for rest
    using wx pc e by (cases rest) (auto simp: walk_append t' zero_entry_def)
  show "walk ?t' ?r (xs @ [i]) = (if e_large (?t p i) then None else Some c)" using on[of "[]"] by simp
  have old: "walk ?t ?r (xs @ i # rest) = None" for rest using w np by (simp add: walk_append)
  have val: "walk ?t' ?r ys = Some q \<Longrightarrow> length ys \<le> 3 \<Longrightarrow> walk ?t ?r ys = Some q \<and> q \<noteq> c \<or> ys = xs @ [i] \<and> q = c" for ys q
    using off[of ys] on nc[of ys q] by (cases "\<exists>rest. ys = xs @ i # rest") (auto split: if_splits)
  have "tree ?t' ?r"
    unfolding tree_def
  proof (intro conjI allI impI)
    fix ys zs q
    assume "length ys \<le> 3 \<and> length zs \<le> 3 \<and> walk ?t' ?r ys = Some q \<and> walk ?t' ?r zs = Some q"
    then show "ys = zs" using val[of ys q] val[of zs q] treeD[OF tr, of ys zs q] by auto
  next
    fix j
    have "?r \<noteq> c" using nc[of "[]" ?r] by simp
    moreover have "\<not> e_large (?t ?r j)" for j using tr by (simp add: tree_def)
    ultimately show "\<not> e_large (?t' ?r j)" using e(1) by (auto simp: t')
  qed
  moreover have "used (bitmap m) q" if "q \<in> table_pages ?t' ?r" for q
    using that val us us0 unfolding table_pages_def by blast
  moreover have "frames k' = m" by (simp add: k'_def set_ent_def)
  ultimately show "paging_inv root k'" by (simp add: paging_inv_def)
  show "leaf ?t' ?r ys j = leaf ?t ?r ys j" if l: "length ys = 3"
  proof (cases "\<exists>rest. ys = xs @ i # rest")
    case True
    then obtain rest where ys: "ys = xs @ i # rest" by blast
    show ?thesis using on[of rest] old[of rest] pc unfolding ys leaf_def
      by (auto simp: t' zero_entry_def)
  next
    case False
    then have o: "walk ?t' ?r ys = walk ?t ?r ys" using off l by auto
    show ?thesis
    proof (cases "walk ?t ?r ys")
      case (Some q)
      have "q \<noteq> p" using treeD[OF tr _ _ Some, of xs] w l by auto
      then have "?t' q = ?t q" using nc[OF Some] l by (auto simp: t')
      then show ?thesis using o Some by (simp add: leaf_def)
    qed (simp add: leaf_def o)
  qed
qed

lemma alloc_one:
  assumes "pmm_alloc_pages 1 m = (addr, m')"
  shows "addr = 0 \<Longrightarrow> used (bitmap m) q \<Longrightarrow> used (bitmap m') q"
    and "addr \<noteq> 0 \<Longrightarrow> \<exists>c. addr = c * PAGE_SIZE \<and> \<not> used (bitmap m) c \<and> (\<forall>q. used (bitmap m') q \<longleftrightarrow> used (bitmap m) q \<or> q = c)"
proof -
  have r: "pmm_alloc_internal 1 PAGE_SIZE (2 ^ 64 - 1) m = (addr, m')" using assms by (simp add: pmm_alloc_pages_def)
  let ?al = "alignment_pages PAGE_SIZE"
  have "addr = 0 \<and> m' = m \<or> (\<exists>c. suitable (bitmap m) 1 ?al (2 ^ 64 - 1) c \<and> addr = c * PAGE_SIZE
      \<and> m' = fold (\<lambda>page. set_page_used (c * PAGE_SIZE + page * PAGE_SIZE)) [0..<1] m)"
    using alloc_spec[OF zero_less_one, where alignment = PAGE_SIZE and mx = "2 ^ 64 - 1" and m = m]
    unfolding r prod.case by blast
  then consider "addr = 0" "m' = m" | c where "\<not> used (bitmap m) c" "addr = c * PAGE_SIZE"
      "\<forall>q. used (bitmap m') q \<longleftrightarrow> used (bitmap m) q \<or> q = c"
    using mark_used[of _ 1 m] by (auto simp: suitable_def)
  note cs = this
  show "used (bitmap m') q" if "addr = 0" "used (bitmap m) q" using cs that by cases auto
  show "\<exists>c. addr = c * PAGE_SIZE \<and> \<not> used (bitmap m) c \<and> (\<forall>q. used (bitmap m') q \<longleftrightarrow> used (bitmap m) q \<or> q = c)"
    if "addr \<noteq> 0" using cs that by cases auto
qed

lemma paging_inv_frames:
  "paging_inv root k \<Longrightarrow> (\<And>q. used (bitmap (frames k)) q \<Longrightarrow> used (bitmap m) q) \<Longrightarrow> paging_inv root (k\<lparr>frames := m\<rparr>)"
  by (auto simp: paging_inv_def)

lemma base_user_order: "(x :: entry)\<lparr>e_base := b, e_user := u\<rparr> = x\<lparr>e_user := u, e_base := b\<rparr>"
  by simp

text \<open>What one level of the descent does: the invariant and all mappings stay, and the table is reached.\<close>

lemma ensure_table_inv:
  assumes inv: "paging_inv root k" and w: "walk (tabs k) (root div PAGE_SIZE) xs = Some p" "length xs \<le> 2"
    and r: "ensure_table keep user (p, i) k = (res, k')"
  shows "paging_inv root k'"
    and "length ys = 3 \<Longrightarrow> leaf (tabs k') (root div PAGE_SIZE) ys j = leaf (tabs k) (root div PAGE_SIZE) ys j"
    and "res = Some q \<Longrightarrow> \<not> e_large (ent k' (p, i)) \<Longrightarrow> walk (tabs k') (root div PAGE_SIZE) (xs @ [i]) = Some q"
proof -
  let ?r = "root div PAGE_SIZE"
  have main: "paging_inv root k' \<and> (length ys = 3 \<longrightarrow> leaf (tabs k') ?r ys j = leaf (tabs k) ?r ys j)
      \<and> (res = Some q \<longrightarrow> \<not> e_large (ent k' (p, i)) \<longrightarrow> walk (tabs k') ?r (xs @ [i]) = Some q)" for ys j q
  proof (cases "e_present (tabs k p i)")
    case True
    have k': "k' = (if user then set_ent (p, i) ((ent k (p, i))\<lparr>e_user := True\<rparr>) k else k)" "res = Some (e_base (tabs k p i))"
      using r True by (auto simp: ensure_table_def Let_def ent_def set_ent_def)
    have wi: "walk (tabs k) ?r (xs @ [i]) = Some q" if "\<not> e_large (tabs k p i)" "res = Some q"
      using w True that k'(2) by (simp add: walk_append)
    show ?thesis
    proof (cases user)
      case u: True
      then have ku: "k' = set_ent (p, i) ((ent k (p, i))\<lparr>e_user := True\<rparr>) k" using k'(1) by simp
      note ub = upper_bits_inv[OF inv w, of "(ent k (p, i))\<lparr>e_user := True\<rparr>" i]
      show ?thesis unfolding ku using ub wi by (simp add: ent_def) (simp add: set_ent_def)
    next
      case False
      then show ?thesis using k'(1) inv wi by (simp add: ent_def)
    qed
  next
    case False
    obtain addr m where al: "pmm_alloc_pages 1 (frames k) = (addr, m)" by fastforce
    show ?thesis
    proof (cases "addr = 0")
      case True
      then have "k' = k\<lparr>frames := m\<rparr>" "res = None" using r False al by (auto simp: ensure_table_def Let_def ent_def)
      then show ?thesis using paging_inv_frames[OF inv alloc_one(1)[OF al True]] by simp
    next
      case nz: False
      obtain c where c: "addr = c * PAGE_SIZE" "\<not> used (bitmap (frames k)) c"
        "\<And>q. used (bitmap m) q \<longleftrightarrow> used (bitmap (frames k)) q \<or> q = c"
        using alloc_one(2)[OF al nz] by blast
      define k1 where "k1 = k\<lparr>frames := m, tabs := (tabs k)(c := (\<lambda>_. zero_entry))\<rparr>"
      have "p \<in> table_pages (tabs k) ?r" using w by (auto simp: table_pages_def intro!: exI[of _ xs])
      then have pc: "p \<noteq> c" using inv c(2) by (auto simp: paging_inv_def)
      define e where "e = (tabs k p i)\<lparr>e_present := True, e_writable := True,
          e_user := (if user then True else if keep then e_user (tabs k p i) else False), e_base := c\<rparr>"
      have k': "k' = set_ent (p, i) e k1" "res = Some c"
        using r False al nz c(1) pc by (auto simp: ensure_table_def Let_def ent_def set_ent_def k1_def e_def base_user_order)
      have el: "e_large e = e_large (tabs k p i)" "e_present e" "e_base e = c" by (simp_all add: e_def)
      note g = grow_inv[OF inv w False c(2,3) el]
      have "ent k' (p, i) = e" by (simp add: k' ent_def set_ent_def)
      then show ?thesis using g(1-3) el k' unfolding k1_def by auto
    qed
  qed
  show "paging_inv root k'" using main by blast
  show "length ys = 3 \<Longrightarrow> leaf (tabs k') (root div PAGE_SIZE) ys j = leaf (tabs k) (root div PAGE_SIZE) ys j"
    using main by blast
  show "res = Some q \<Longrightarrow> \<not> e_large (ent k' (p, i)) \<Longrightarrow> walk (tabs k') (root div PAGE_SIZE) (xs @ [i]) = Some q"
    using main by blast
qed

text \<open>Writing an entry of a last-level table.\<close>

lemma leaf_write:
  assumes inv: "paging_inv root k" and w: "walk (tabs k) (root div PAGE_SIZE) xs = Some p" "length xs = 3"
  shows "paging_inv root (set_ent (p, i) e k)"
    and "length ys = 3 \<Longrightarrow> leaf (tabs (set_ent (p, i) e k)) (root div PAGE_SIZE) ys j =
           (if ys = xs \<and> j = i then (if e_present e then Some (e_base e * PAGE_SIZE, e_writable e, e_user e) else None)
            else leaf (tabs k) (root div PAGE_SIZE) ys j)"
    and "length ys \<le> 3 \<Longrightarrow> walk (tabs (set_ent (p, i) e k)) (root div PAGE_SIZE) ys = walk (tabs k) (root div PAGE_SIZE) ys"
proof -
  let ?r = "root div PAGE_SIZE" and ?t = "tabs k" and ?t' = "tabs (set_ent (p, i) e k)"
  have tr: "tree ?t ?r" using inv by (simp add: paging_inv_def)
  have t': "?t' = ?t(p := (?t p)(i := e))" by (simp add: set_ent_def)
  have wk: "walk ?t' ?r ys = walk ?t ?r ys" if l: "length ys \<le> 3" for ys
  proof (rule walk_unchanged)
    fix zs j rest q
    assume ys: "ys = zs @ j # rest" and wq: "walk ?t ?r zs = Some q"
    have "q \<noteq> p" using treeD[OF tr _ _ wq, of xs] w ys l by auto
    then show "?t' q j = ?t q j" by (simp add: t')
  qed
  show "length ys \<le> 3 \<Longrightarrow> walk ?t' ?r ys = walk ?t ?r ys" by (rule wk)
  have "?r \<noteq> p" using treeD[OF tr, of "[]" xs p] w by auto
  then have "tree ?t' ?r" using tr wk unfolding tree_def by (auto simp: t')
  moreover have "table_pages ?t' ?r = table_pages ?t ?r" using wk by (auto simp: table_pages_def)
  ultimately show "paging_inv root (set_ent (p, i) e k)" using inv by (simp add: paging_inv_def) (simp add: set_ent_def)
  show "leaf ?t' ?r ys j = (if ys = xs \<and> j = i then (if e_present e then Some (e_base e * PAGE_SIZE, e_writable e, e_user e) else None)
            else leaf ?t ?r ys j)" if l: "length ys = 3"
  proof (cases "walk ?t ?r ys")
    case None
    then show ?thesis using wk[of ys] l w by (auto simp: leaf_def)
  next
    case (Some q)
    have "q = p \<longleftrightarrow> ys = xs" using treeD[OF tr _ _ Some, of xs] w l Some by auto
    then show ?thesis using wk[of ys] l Some by (auto simp: leaf_def t')
  qed
qed

lemma map_page_spec:
  assumes inv: "paging_inv root k" and r: "pmm_map_page_in_root root v pa writable user k = (ok, k')"
  shows "paging_inv root k'"
    and "length ys = 3 \<Longrightarrow> leaf (tabs k') (root div PAGE_SIZE) ys j =
           (if ok \<and> ys = indices v \<and> j = pt_index v then Some (pa, writable, user)
            else leaf (tabs k) (root div PAGE_SIZE) ys j)"
proof -
  let ?r = "root div PAGE_SIZE"
  let ?L = "\<lambda>k ys j. leaf (tabs k) ?r ys j"
  have main: "paging_inv root k' \<and> (\<forall>ys j. length ys = 3 \<longrightarrow> ?L k' ys j =
      (if ok \<and> ys = indices v \<and> j = pt_index v then Some (pa, writable, user) else ?L k ys j))"
  proof (cases "pa mod PAGE_SIZE \<noteq> 0 \<or> root = 0")
    case True
    then show ?thesis using inv r by (auto simp: pmm_map_page_in_root_def)
  next
    case False
    obtain x k1 where e1: "ensure_table True user (?r, pml4_index v) k = (x, k1)" by fastforce
    have i1: "paging_inv root k1" "\<And>ys j. length ys = 3 \<Longrightarrow> ?L k1 ys j = ?L k ys j"
      using ensure_table_inv(1,2)[OF inv _ _ e1, of "[]"] by simp_all
    show ?thesis
    proof (cases x)
      case None
      then show ?thesis using r False e1 i1 by (auto simp: pmm_map_page_in_root_def)
    next
      case (Some p3)
      have "\<not> e_large (ent k1 (?r, pml4_index v))" using i1(1) by (simp add: paging_inv_def tree_def ent_def)
      then have w3: "walk (tabs k1) ?r [pml4_index v] = Some p3" using ensure_table_inv(3)[OF inv _ _ e1, of "[]"] Some by simp
      obtain y k2 where e2: "ensure_table False user (p3, pdpt_index v) k1 = (y, k2)" by fastforce
      have i2: "paging_inv root k2" "\<And>ys j. length ys = 3 \<Longrightarrow> ?L k2 ys j = ?L k1 ys j"
        using ensure_table_inv(1,2)[OF i1(1) w3 _ e2] by simp_all
      show ?thesis
      proof (cases "y = None \<or> e_large (ent k2 (p3, pdpt_index v))")
        case True
        then have "\<not> ok \<and> k' = k2" using r False e1 e2 Some
          by (cases y) (auto simp: pmm_map_page_in_root_def)
        then show ?thesis using i1(2) i2 by simp
      next
        case nl: False
        then obtain p2 where y: "y = Some p2" by auto
        have w2: "walk (tabs k2) ?r [pml4_index v, pdpt_index v] = Some p2"
          using ensure_table_inv(3)[OF i1(1) w3 _ e2, of p2] nl y by simp
        obtain z k3 where e3: "ensure_table False user (p2, pd_index v) k2 = (z, k3)" by fastforce
        have i3: "paging_inv root k3" "\<And>ys j. length ys = 3 \<Longrightarrow> ?L k3 ys j = ?L k2 ys j"
          using ensure_table_inv(1,2)[OF i2(1) w2 _ e3] by simp_all
        show ?thesis
        proof (cases "z = None \<or> e_large (ent k3 (p2, pd_index v))")
          case True
          then have "\<not> ok \<and> k' = k3" using r False e1 e2 e3 Some y nl
            by (cases z) (auto simp: pmm_map_page_in_root_def)
          then show ?thesis using i1(2) i2(2) i3 by simp
        next
          case nl3: False
          then obtain p1 where z: "z = Some p1" by auto
          have w1: "walk (tabs k3) ?r (indices v) = Some p1"
            using ensure_table_inv(3)[OF i2(1) w2 _ e3, of p1] nl3 z by (simp add: indices_def)
          define e where "e = (ent k3 (p1, pt_index v))\<lparr>e_present := True, e_writable := writable, e_user := user,
              e_write_through := False, e_cache_disable := False, e_global := False,
              e_available := 0, e_base := pa div PAGE_SIZE, e_no_execute := False\<rparr>"
          have k': "ok" "k' = set_ent (p1, pt_index v) e k3"
            using r False e1 e2 e3 Some y z nl nl3 by (auto simp: pmm_map_page_in_root_def e_def)
          have pa: "pa div PAGE_SIZE * PAGE_SIZE = pa" using False by (metis dvd_div_mult_self mod_0_imp_dvd)
          have l3: "length (indices v) = 3" by (simp add: indices_def)
          note lw = leaf_write[OF i3(1) w1 l3, where i = "pt_index v" and e = e]
          show ?thesis unfolding k'(2) using lw(1,2) k'(1) i1(2) i2(2) i3(2) pa by (simp add: e_def)
        qed
      qed
    qed
  qed
  show "paging_inv root k'" using main by blast
  show "length ys = 3 \<Longrightarrow> ?L k' ys j = (if ok \<and> ys = indices v \<and> j = pt_index v then Some (pa, writable, user) else ?L k ys j)"
    using main by blast
qed

section \<open>Properties\<close>


definition demo_paging :: paging where
  "demo_paging = \<lparr>tabs = (\<lambda>_ _. zero_entry),
     frames = \<lparr>bitmap = (\<lambda>i. if i = 0 then 2 else 0), free_page_count = 0, total_usable_pages = 0\<rparr>,
     cr3_root = 4096, kernel_cr3_phys = 4096\<rparr>"


end
