(* ===== verification/Vm.thy ===== *)
theory Vm
  imports Paging
begin

text \<open>
  The memory of a user process: \<^verbatim>\<open>src/kernel/user/vm_region.c\<close>, \<^verbatim>\<open>src/kernel/user/vm.c\<close>, \<^verbatim>\<open>src/kernel/mem/kmmap.c\<close> and the list of
  physical segments in \<^verbatim>\<open>src/kernel/proc/proc.c\<close>.

  \<open>vm_proc\<close> is the part of \<^verbatim>\<open>proc_info_t\<close> that describes the address space; a pointer into \<^verbatim>\<open>vm_regions\<close> is an index. \<open>vm_sys\<close> adds the
  content of the physical pages, by page number, to the page tables and the allocator. Addresses are natural numbers below
  $2^{64}$; sums wrap (\<open>u64\<close>). Pointers to processes and for results are not \<^verbatim>\<open>NULL\<close>.
\<close>

unbundle bit_operations_syntax

definition VM_REGION_FLAG_READ :: u32w where "VM_REGION_FLAG_READ = 1"
definition VM_REGION_FLAG_WRITE :: u32w where "VM_REGION_FLAG_WRITE = 2"
definition VM_REGION_FLAG_EXEC :: u32w where "VM_REGION_FLAG_EXEC = 4"
definition VM_REGION_FLAG_USER :: u32w where "VM_REGION_FLAG_USER = 8"
definition VM_REGION_FLAG_GROW_DOWN :: u32w where "VM_REGION_FLAG_GROW_DOWN = 16"
definition VM_REGION_FLAG_GROW_UP :: u32w where "VM_REGION_FLAG_GROW_UP = 32"
definition PROC_MAX_VM_REGIONS :: nat where "PROC_MAX_VM_REGIONS = 32"
definition PROC_MAX_USER_SEGMENTS :: nat where "PROC_MAX_USER_SEGMENTS = 4096"

datatype vm_region_type = VM_REGION_TEXT | VM_REGION_RODATA | VM_REGION_DATA | VM_REGION_HEAP | VM_REGION_STACK | VM_REGION_MMAP | VM_REGION_SHARED

record vm_region =
  vr_base :: nat
  vr_length :: nat
  vr_type :: vm_region_type
  vr_flags :: u32w
  vr_committed_base :: nat
  vr_committed_top :: nat

record vm_proc =
  u_root :: nat
  u_segments :: "(nat \<times> nat) list"
  u_regions :: "vm_region list"
  u_mmap_base :: nat
  u_mmap_next :: nat
  u_mmap_limit :: nat
  u_user_mode :: bool
  u_err_no :: "errno option"

record vm_sys =
  vpg :: paging
  vdata :: "nat \<Rightarrow> nat \<Rightarrow> byte"

definition page_down :: "nat \<Rightarrow> nat" where
  "page_down a = a div PAGE_SIZE * PAGE_SIZE"

section \<open>Physical segments of a process\<close>

definition segment_can_extend :: "nat \<times> nat \<Rightarrow> nat \<Rightarrow> bool" where
  "segment_can_extend seg phys \<longleftrightarrow> u64 (fst seg + snd seg * PAGE_SIZE) = phys"

definition proc_register_user_segment :: "nat \<Rightarrow> nat \<Rightarrow> vm_proc \<Rightarrow> bool \<times> vm_proc" where
  "proc_register_user_segment phys pages p =
     (if pages = 0 \<or> phys = 0 then (False, p)
      else if u_segments p \<noteq> [] \<and> segment_can_extend (last (u_segments p)) phys
      then (if snd (last (u_segments p)) > 2 ^ 64 - 1 - pages then (False, p)
            else (True, p\<lparr>u_segments := butlast (u_segments p) @ [(fst (last (u_segments p)), snd (last (u_segments p)) + pages)]\<rparr>))
      else if length (u_segments p) \<ge> PROC_MAX_USER_SEGMENTS then (False, p)
      else (True, p\<lparr>u_segments := u_segments p @ [(phys, pages)]\<rparr>))"

text \<open>The first segment that contains the pages loses them; a part behind them is a segment of its own if there is room.\<close>

fun drop_segment :: "bool \<Rightarrow> nat \<Rightarrow> nat \<Rightarrow> (nat \<times> nat) list \<Rightarrow> (nat \<times> nat) list" where
  "drop_segment room start pages [] = []"
| "drop_segment room start pages ((seg, n) # segs) =
     (let fin = u64 (start + u64 (pages * PAGE_SIZE)); seg_end = u64 (seg + u64 (n * PAGE_SIZE))
      in if start < seg \<or> fin > seg_end then (seg, n) # drop_segment room start pages segs
         else if start = seg \<and> fin = seg_end then segs
         else if start = seg then (fin, n - pages) # segs
         else if fin = seg_end then (seg, n - pages) # segs
         else let prefix = (start - seg) div PAGE_SIZE; suffix = n - prefix - pages
              in if suffix = 0 \<or> \<not> room then (seg, prefix) # segs else (seg, prefix) # (fin, suffix) # segs)"

definition proc_unregister_user_segment :: "nat \<Rightarrow> nat \<Rightarrow> vm_proc \<Rightarrow> vm_proc" where
  "proc_unregister_user_segment phys pages p =
     (if pages = 0 then p
      else p\<lparr>u_segments := drop_segment (length (u_segments p) < PROC_MAX_USER_SEGMENTS) phys pages (u_segments p)\<rparr>)"

section \<open>Regions\<close>

definition region_limit :: "vm_region \<Rightarrow> nat" where
  "region_limit r = u64 (vr_base r + vr_length r)"

definition vm_region_add :: "nat \<Rightarrow> nat \<Rightarrow> vm_region_type \<Rightarrow> u32w \<Rightarrow> vm_proc \<Rightarrow> bool \<times> vm_proc" where
  "vm_region_add base len ty flags p =
     (if len = 0 \<or> length (u_regions p) \<ge> PROC_MAX_VM_REGIONS then (False, p)
      else let c = (if flags AND VM_REGION_FLAG_GROW_DOWN \<noteq> 0 then u64 (base + len) else base)
           in (True, p\<lparr>u_regions := u_regions p @ [\<lparr>vr_base = base, vr_length = len, vr_type = ty, vr_flags = flags,
                 vr_committed_base = c, vr_committed_top = c\<rparr>]\<rparr>))"

definition vm_region_find :: "nat \<Rightarrow> vm_proc \<Rightarrow> nat option" where
  "vm_region_find a p = find (\<lambda>i. vr_base (u_regions p ! i) \<le> a \<and> a < region_limit (u_regions p ! i)) [0..<length (u_regions p)]"

definition upd_region :: "nat \<Rightarrow> (vm_region \<Rightarrow> vm_region) \<Rightarrow> vm_proc \<Rightarrow> vm_proc" where
  "upd_region i f p = p\<lparr>u_regions := (u_regions p)[i := f (u_regions p ! i)]\<rparr>"

definition vm_region_note_mapping :: "nat \<Rightarrow> nat \<Rightarrow> vm_region \<Rightarrow> vm_region" where
  "vm_region_note_mapping base len r =
     (if len = 0 then r
      else r\<lparr>vr_committed_base := min (vr_committed_base r) base, vr_committed_top := max (vr_committed_top r) (u64 (base + len))\<rparr>)"

definition zero_pages :: "nat \<Rightarrow> nat \<Rightarrow> vm_sys \<Rightarrow> vm_sys" where
  "zero_pages phys n s =
     s\<lparr>vdata := (\<lambda>q. if phys div PAGE_SIZE \<le> q \<and> q < phys div PAGE_SIZE + n then (\<lambda>_. 0) else vdata s q)\<rparr>"

definition alloc_frames :: "nat \<Rightarrow> vm_sys \<Rightarrow> nat \<times> vm_sys" where
  "alloc_frames n s = (case pmm_alloc_pages n (frames (vpg s)) of (a, m) \<Rightarrow> (a, s\<lparr>vpg := (vpg s)\<lparr>frames := m\<rparr>\<rparr>))"

definition free_frames :: "nat \<Rightarrow> nat \<Rightarrow> vm_sys \<Rightarrow> vm_sys" where
  "free_frames a n s = s\<lparr>vpg := (vpg s)\<lparr>frames := pmm_free_pages a n (frames (vpg s))\<rparr>\<rparr>"

definition map_in :: "vm_proc \<Rightarrow> nat \<Rightarrow> nat \<Rightarrow> bool \<Rightarrow> bool \<Rightarrow> vm_sys \<Rightarrow> bool \<times> vm_sys" where
  "map_in p v pa w u s = (case pmm_map_page_in_root (u_root p) v pa w u (vpg s) of (ok, k) \<Rightarrow> (ok, s\<lparr>vpg := k\<rparr>))"

definition unmap_in :: "vm_proc \<Rightarrow> nat \<Rightarrow> vm_sys \<Rightarrow> bool \<times> vm_sys" where
  "unmap_in p v s = (case pmm_unmap_page_in_root (u_root p) v (vpg s) of (ok, k) \<Rightarrow> (ok, s\<lparr>vpg := k\<rparr>))"

text \<open>
  What growing down and growing up share: a fresh, cleared page is mapped at \<open>v\<close> and entered as a segment. If that fails the page is
  unmapped, which frees it, and freed once more.
\<close>

definition commit_page :: "nat \<Rightarrow> nat \<Rightarrow> vm_proc \<Rightarrow> vm_sys \<Rightarrow> bool \<times> vm_proc \<times> vm_sys" where
  "commit_page i v p s =
     (case alloc_frames 1 s of
        (phys, s1) \<Rightarrow>
          if phys = 0 then (False, p, s1)
          else case map_in p v phys (vr_flags (u_regions p ! i) AND VM_REGION_FLAG_WRITE \<noteq> 0) True (zero_pages phys 1 s1) of
            (False, s2) \<Rightarrow> (False, p, free_frames phys 1 s2)
          | (True, s2) \<Rightarrow>
              (case proc_register_user_segment phys 1 p of
                 (False, p1) \<Rightarrow> (False, p1, free_frames phys 1 (snd (unmap_in p v s2)))
               | (True, p1) \<Rightarrow> (True, upd_region i (vm_region_note_mapping v PAGE_SIZE) p1, s2)))"

definition vm_region_grow_down :: "nat \<Rightarrow> nat \<Rightarrow> vm_proc \<Rightarrow> vm_sys \<Rightarrow> bool \<times> vm_proc \<times> vm_sys" where
  "vm_region_grow_down i addr p s =
     (let v = page_down addr; r = u_regions p ! i
      in if v < vr_base r then (False, p, s)
         else if vr_committed_base r \<le> v then (True, p, s)
         else commit_page i v p s)"

definition vm_region_grow_up :: "nat \<Rightarrow> nat \<Rightarrow> vm_proc \<Rightarrow> vm_sys \<Rightarrow> bool \<times> vm_proc \<times> vm_sys" where
  "vm_region_grow_up i addr p s =
     (let v = page_down addr; r = u_regions p ! i
      in if v \<ge> region_limit r then (False, p, s)
         else if vr_committed_top r > v then (True, p, s)
         else commit_page i v p s)"

definition vm_region_handle_page_fault :: "nat \<Rightarrow> bool \<Rightarrow> bool \<Rightarrow> bool \<Rightarrow> vm_proc \<Rightarrow> vm_sys \<Rightarrow> bool \<times> vm_proc \<times> vm_sys" where
  "vm_region_handle_page_fault addr present is_write is_user p s =
     (if present \<or> \<not> is_user then (False, p, s)
      else case vm_region_find addr p of
        None \<Rightarrow> (False, p, s)
      | Some i \<Rightarrow>
          (let fl = vr_flags (u_regions p ! i)
           in if is_write \<and> fl AND VM_REGION_FLAG_WRITE = 0 then (False, p, s)
              else if fl AND VM_REGION_FLAG_GROW_DOWN \<noteq> 0 then vm_region_grow_down i addr p s
              else if fl AND VM_REGION_FLAG_GROW_UP \<noteq> 0 then vm_region_grow_up i addr p s
              else (False, p, s)))"

section \<open>Mapping ranges\<close>

definition page_align_up :: "nat \<Rightarrow> nat" where
  "page_align_up len =
     (if len = 0 then PAGE_SIZE else if len mod PAGE_SIZE = 0 then len else u64 ((len div PAGE_SIZE + 1) * PAGE_SIZE))"

definition page_at :: "nat \<Rightarrow> nat \<Rightarrow> nat" where
  "page_at base page = u64 (base + page * PAGE_SIZE)"

definition unmap_pages :: "vm_proc \<Rightarrow> nat \<Rightarrow> nat list \<Rightarrow> vm_sys \<Rightarrow> vm_sys" where
  "unmap_pages p base pages s = fold (\<lambda>page s. snd (unmap_in p (page_at base page) s)) pages s"

definition unregister_pages :: "nat \<Rightarrow> nat list \<Rightarrow> vm_proc \<Rightarrow> vm_proc" where
  "unregister_pages phys pages p = fold (\<lambda>page. proc_unregister_user_segment (page_at phys page) 1) pages p"

fun map_pages :: "nat \<Rightarrow> nat \<Rightarrow> bool \<Rightarrow> bool \<Rightarrow> nat \<Rightarrow> nat list \<Rightarrow> vm_proc \<Rightarrow> vm_sys \<Rightarrow> bool \<times> vm_proc \<times> vm_sys" where
  "map_pages base phys w u i [] p s = (True, p, s)"
| "map_pages base phys w u i (page # pages) p s =
     (case map_in p (page_at base page) (page_at phys page) w u s of
        (False, s1) \<Rightarrow> (False, p, unmap_pages p base [0..<page] s1)
      | (True, s1) \<Rightarrow>
          (let p1 = upd_region i (vm_region_note_mapping (page_at base page) PAGE_SIZE) p
           in case proc_register_user_segment (page_at phys page) 1 p1 of
                (False, p2) \<Rightarrow>
                  (False, unregister_pages phys (rev [0..<page]) p2,
                   unmap_pages p base (rev [0..<page]) (snd (unmap_in p (page_at base page) s1)))
              | (True, p2) \<Rightarrow> map_pages base phys w u i pages p2 s1))"

definition vm_range_overlaps :: "nat \<Rightarrow> nat \<Rightarrow> vm_proc \<Rightarrow> bool" where
  "vm_range_overlaps base len p \<longleftrightarrow> len \<noteq> 0 \<and>
     (\<exists>r \<in> set (u_regions p). \<not> (u64 (base + len) \<le> vr_base r \<or> base \<ge> region_limit r))"

definition vm_map :: "nat \<Rightarrow> nat \<Rightarrow> u32w \<Rightarrow> vm_region_type \<Rightarrow> vm_proc \<Rightarrow> vm_sys \<Rightarrow> bool \<times> vm_proc \<times> vm_sys" where
  "vm_map base0 len0 flags ty p s =
     (if len0 = 0 then (False, p, s)
      else let len = page_align_up len0; base = page_down base0
           in case vm_region_add base len ty flags p of
                (False, p1) \<Rightarrow> (False, p1, s)
              | (True, p1) \<Rightarrow>
                  (case vm_region_find base p1 of
                     None \<Rightarrow> (False, p1, s)
                   | Some i \<Rightarrow>
                       (let pages = len div PAGE_SIZE
                        in case alloc_frames pages s of
                             (phys, s1) \<Rightarrow>
                               if phys = 0 then (False, p1, s1)
                               else case map_pages base phys (flags AND VM_REGION_FLAG_WRITE \<noteq> 0) (flags AND VM_REGION_FLAG_USER \<noteq> 0) i
                                           [0..<pages] p1 (zero_pages phys pages s1) of
                                 (False, p2, s2) \<Rightarrow> (False, p2, free_frames phys pages s2)
                               | (True, p2, s2) \<Rightarrow> (True, p2, s2))))"

definition drop_last_region :: "vm_proc \<Rightarrow> vm_proc" where
  "drop_last_region p = p\<lparr>u_regions := butlast (u_regions p)\<rparr>"

text \<open>Mapping given physical memory; a failure takes back what was mapped and the region added last.\<close>

fun map_physical_pages :: "nat \<Rightarrow> nat \<Rightarrow> bool \<Rightarrow> bool \<Rightarrow> nat \<Rightarrow> nat list \<Rightarrow> vm_proc \<Rightarrow> vm_sys \<Rightarrow> bool \<times> vm_proc \<times> vm_sys" where
  "map_physical_pages base phys w u i [] p s = (True, p, s)"
| "map_physical_pages base phys w u i (page # pages) p s =
     (case map_in p (page_at base page) (page_at phys page) w u s of
        (False, s1) \<Rightarrow> (False, drop_last_region (unregister_pages phys [0..<page] p), unmap_pages p base [0..<page] s1)
      | (True, s1) \<Rightarrow>
          (case proc_register_user_segment (page_at phys page) 1 p of
             (False, p1) \<Rightarrow>
               (False, drop_last_region (unregister_pages phys [0..<page] p1),
                unmap_pages p base [0..<page] (snd (unmap_in p (page_at base page) s1)))
           | (True, p1) \<Rightarrow>
               map_physical_pages base phys w u i pages (upd_region i (vm_region_note_mapping (page_at base page) PAGE_SIZE) p1) s1))"

definition vm_map_physical :: "nat \<Rightarrow> nat \<Rightarrow> nat \<Rightarrow> u32w \<Rightarrow> vm_proc \<Rightarrow> vm_sys \<Rightarrow> bool \<times> vm_proc \<times> vm_sys" where
  "vm_map_physical base phys len flags p s =
     (if len = 0 then (False, p, s)
      else let b = page_down base; off = base - b; pa = u64 (phys + 2 ^ 64 - off); alen = page_align_up (u64 (len + off))
           in if vm_range_overlaps b alen p then (False, p, s)
              else case vm_region_add b alen VM_REGION_MMAP flags p of
                (False, p1) \<Rightarrow> (False, p1, s)
              | (True, p1) \<Rightarrow>
                  (case vm_region_find b p1 of
                     None \<Rightarrow> (False, drop_last_region p1, s)
                   | Some i \<Rightarrow> map_physical_pages b pa (flags AND VM_REGION_FLAG_WRITE \<noteq> 0) (flags AND VM_REGION_FLAG_USER \<noteq> 0) i
                                 [0..<alen div PAGE_SIZE] p1 s))"

definition unmap_page :: "nat \<Rightarrow> vm_proc \<Rightarrow> vm_sys \<Rightarrow> bool \<times> vm_proc \<times> vm_sys" where
  "unmap_page v p s =
     (case pmm_get_mapping (u_root p) v (vpg s) of
        None \<Rightarrow> (False, p, s)
      | Some (frame, w, u) \<Rightarrow>
          (case unmap_in p v s of
             (False, s1) \<Rightarrow> (False, p, s1)
           | (True, s1) \<Rightarrow> (True, proc_unregister_user_segment frame 1 p, s1)))"

definition remove_region :: "nat \<Rightarrow> vm_proc \<Rightarrow> vm_proc" where
  "remove_region i p = p\<lparr>u_regions := take i (u_regions p) @ drop (i + 1) (u_regions p)\<rparr>"

definition vm_unmap :: "nat \<Rightarrow> nat \<Rightarrow> vm_proc \<Rightarrow> vm_sys \<Rightarrow> bool \<times> vm_proc \<times> vm_sys" where
  "vm_unmap base0 len0 p s =
     (if len0 = 0 then (False, p, s)
      else let base = page_down base0
           in case vm_region_find base p of
                None \<Rightarrow> (False, p, s)
              | Some i \<Rightarrow>
                  (case fold (\<lambda>page (p, s). snd (unmap_page (page_at base page) p s)) [0..<page_align_up len0 div PAGE_SIZE] (p, s) of
                     (p1, s1) \<Rightarrow> (True, remove_region i p1, s1)))"

text \<open>Mapping the pages of a shared-memory region; a page 0 stands for one that is missing.\<close>

fun map_shared_pages :: "nat \<Rightarrow> bool \<Rightarrow> bool \<Rightarrow> nat \<Rightarrow> nat \<Rightarrow> nat list \<Rightarrow> vm_proc \<Rightarrow> vm_sys \<Rightarrow> nat \<times> vm_proc \<times> vm_sys" where
  "map_shared_pages base w u i n [] p s = (n, p, s)"
| "map_shared_pages base w u i n (phys # rest) p s =
     (if phys = 0 then (n, p, s)
      else case map_in p (page_at base n) phys w u s of
        (False, s1) \<Rightarrow> (n, p, s1)
      | (True, s1) \<Rightarrow> map_shared_pages base w u i (Suc n) rest (upd_region i (vm_region_note_mapping (page_at base n) PAGE_SIZE) p) s1)"

definition vm_map_shared :: "nat list \<Rightarrow> nat \<Rightarrow> u32w \<Rightarrow> bool \<Rightarrow> vm_proc \<Rightarrow> vm_sys \<Rightarrow> bool \<times> vm_proc \<times> vm_sys" where
  "vm_map_shared pages base flags w p s =
     (if pages = [] then (False, p, s)
      else let len = u64 (length pages * PAGE_SIZE)
           in if vm_range_overlaps base len p then (False, p, s)
              else case vm_region_add base len VM_REGION_SHARED flags p of
                (False, p1) \<Rightarrow> (False, p1, s)
              | (True, p1) \<Rightarrow>
                  (case vm_region_find base p1 of
                     None \<Rightarrow> (False, drop_last_region p1, s)
                   | Some i \<Rightarrow>
                       (case map_shared_pages base w (flags AND VM_REGION_FLAG_USER \<noteq> 0) i 0 pages p1 s of
                          (n, p2, s1) \<Rightarrow>
                            if n \<noteq> length pages then (False, remove_region i p2, unmap_pages p2 base [0..<n] s1)
                            else (True, upd_region i (\<lambda>r. r\<lparr>vr_committed_base := base, vr_committed_top := u64 (base + len)\<rparr>) p2, s1))))"

section \<open>Copying an address space\<close>

definition copy_page :: "nat \<Rightarrow> nat \<Rightarrow> vm_sys \<Rightarrow> vm_sys" where
  "copy_page dst src s = s\<lparr>vdata := (vdata s)(dst div PAGE_SIZE := vdata s (src div PAGE_SIZE))\<rparr>"

text \<open>A page that the parent has not mapped is skipped; the result of registering the copy is ignored.\<close>

fun clone_pages :: "nat \<Rightarrow> bool \<Rightarrow> bool \<Rightarrow> nat \<Rightarrow> vm_proc \<Rightarrow> nat list \<Rightarrow> vm_proc \<Rightarrow> vm_sys \<Rightarrow> bool \<times> vm_proc \<times> vm_sys" where
  "clone_pages start w u i src [] dst s = (True, dst, s)"
| "clone_pages start w u i src (page # pages) dst s =
     (let v = page_at start page
      in case pmm_get_mapping (u_root src) v (vpg s) of
           None \<Rightarrow> clone_pages start w u i src pages dst s
         | Some (src_phys, _, _) \<Rightarrow>
             (case alloc_frames 1 s of
                (phys, s1) \<Rightarrow>
                  if phys = 0 then (False, dst, s1)
                  else case map_in dst v phys w u (copy_page phys src_phys s1) of
                    (False, s2) \<Rightarrow> (False, dst, free_frames phys 1 s2)
                  | (True, s2) \<Rightarrow>
                      clone_pages start w u i src pages
                        (snd (proc_register_user_segment phys 1 (upd_region i (vm_region_note_mapping v PAGE_SIZE) dst))) s2))"

definition clone_region :: "vm_region \<Rightarrow> vm_proc \<Rightarrow> vm_proc \<Rightarrow> vm_sys \<Rightarrow> bool \<times> vm_proc \<times> vm_sys" where
  "clone_region r src dst s =
     (if vr_type r = VM_REGION_SHARED then (True, dst, s)
      else case vm_region_add (vr_base r) (vr_length r) (vr_type r) (vr_flags r) dst of
        (False, d1) \<Rightarrow> (False, d1, s)
      | (True, d1) \<Rightarrow>
          (case vm_region_find (vr_base r) d1 of
             None \<Rightarrow> (False, d1, s)
           | Some i \<Rightarrow>
               (let start = page_down (vr_committed_base r);
                    fin = (if vr_committed_top r mod PAGE_SIZE \<noteq> 0 then page_down (u64 (vr_committed_top r + PAGE_SIZE - 1)) else vr_committed_top r)
                in if fin \<le> start then (True, d1, s)
                   else case clone_pages start (vr_flags r AND VM_REGION_FLAG_WRITE \<noteq> 0) (vr_flags r AND VM_REGION_FLAG_USER \<noteq> 0) i src
                               [0..<(fin - start) div PAGE_SIZE] d1 s of
                     (False, d2, s1) \<Rightarrow> (False, d2, s1)
                   | (True, d2, s1) \<Rightarrow>
                       (True, upd_region i (\<lambda>q. q\<lparr>vr_committed_base := vr_committed_base r, vr_committed_top := vr_committed_top r\<rparr>) d2, s1))))"

fun clone_regions :: "vm_region list \<Rightarrow> vm_proc \<Rightarrow> vm_proc \<Rightarrow> vm_sys \<Rightarrow> bool \<times> vm_proc \<times> vm_sys" where
  "clone_regions [] src dst s = (True, dst, s)"
| "clone_regions (r # rs) src dst s =
     (case clone_region r src dst s of
        (False, d1, s1) \<Rightarrow> (False, d1, s1)
      | (True, d1, s1) \<Rightarrow> clone_regions rs src d1 s1)"

definition vm_clone :: "vm_proc \<Rightarrow> vm_proc \<Rightarrow> vm_sys \<Rightarrow> bool \<times> vm_proc \<times> vm_sys" where
  "vm_clone dst src s = clone_regions (u_regions src) src dst s"

section \<open>mmap and munmap\<close>

definition MAP_PRIVATE :: u32w where "MAP_PRIVATE = 0x02"
definition MAP_ANONYMOUS :: u32w where "MAP_ANONYMOUS = 0x1000"
definition PROT_READ :: u32w where "PROT_READ = 1"
definition PROT_WRITE :: u32w where "PROT_WRITE = 2"
definition PROT_EXEC :: u32w where "PROT_EXEC = 4"

definition mmap_flags_supported :: "u32w \<Rightarrow> bool" where
  "mmap_flags_supported flags \<longleftrightarrow> flags AND MAP_ANONYMOUS \<noteq> 0 \<and> flags AND NOT (MAP_ANONYMOUS OR MAP_PRIVATE) = 0"

definition prot_to_region_flags :: "u32w \<Rightarrow> u32w" where
  "prot_to_region_flags prot =
     VM_REGION_FLAG_USER OR (if prot AND PROT_READ \<noteq> 0 then VM_REGION_FLAG_READ else 0)
       OR (if prot AND PROT_WRITE \<noteq> 0 then VM_REGION_FLAG_WRITE else 0) OR (if prot AND PROT_EXEC \<noteq> 0 then VM_REGION_FLAG_EXEC else 0)"

definition page_align_up_size :: "nat \<Rightarrow> nat" where
  "page_align_up_size n =
     (if n = 0 then PAGE_SIZE else if n mod PAGE_SIZE = 0 then n else u64 (n + (PAGE_SIZE - n mod PAGE_SIZE)))"

definition page_align_up_addr :: "nat \<Rightarrow> nat" where
  "page_align_up_addr a = (if a mod PAGE_SIZE = 0 then a else page_down (u64 (a + PAGE_SIZE)))"

definition check_overflow :: "nat \<Rightarrow> nat \<Rightarrow> bool" where
  "check_overflow base len \<longleftrightarrow> len > 2 ^ 64 - 1 - base"

text \<open>The search for a free range: \<open>None\<close> does not return, \<open>Some None\<close> is the overflow.\<close>

partial_function (option) mmap_search :: "nat \<Rightarrow> nat \<Rightarrow> vm_proc \<Rightarrow> nat option option" where
  "mmap_search base len p =
     (if u64 (base + len) \<le> u_mmap_limit p \<and> vm_range_overlaps base len p
      then let b = page_align_up_addr (u64 (base + len))
           in if check_overflow b len then Some None else mmap_search b len p
      else Some (Some base))"

definition mmap_fail :: "errno \<Rightarrow> vm_proc \<Rightarrow> vm_sys \<Rightarrow> nat option \<times> vm_proc \<times> vm_sys" where
  "mmap_fail e p s = (None, p\<lparr>u_err_no := Some e\<rparr>, s)"

definition mmap_at :: "bool \<Rightarrow> nat \<Rightarrow> nat \<Rightarrow> u32w \<Rightarrow> vm_proc \<Rightarrow> vm_sys \<Rightarrow> nat option \<times> vm_proc \<times> vm_sys" where
  "mmap_at hint base len prot p s =
     (case vm_map base len (prot_to_region_flags prot) VM_REGION_MMAP p s of
        (False, p1, s1) \<Rightarrow> mmap_fail ENOMEM p1 s1
      | (True, p1, s1) \<Rightarrow>
          (let next = page_align_up_addr (u64 (base + len));
               p2 = (if \<not> hint \<and> next > u_mmap_next p1 then p1\<lparr>u_mmap_next := next\<rparr> else p1)
           in if base = 0 then (case vm_unmap base len p2 s1 of (_, p3, s2) \<Rightarrow> mmap_fail ENOMEM p3 s2)
              else (Some base, p2\<lparr>u_err_no := None\<rparr>, s1)))"

text \<open>The place where the search starts, and the process with its next address moved back into the window.\<close>

definition mmap_hint :: "vm_proc \<Rightarrow> nat" where
  "mmap_hint p =
     (let hint = (if u_mmap_next p \<noteq> 0 then u_mmap_next p else u_mmap_base p)
      in if hint < u_mmap_base p \<or> hint \<ge> u_mmap_limit p then u_mmap_base p else hint)"

definition mmap_reset :: "vm_proc \<Rightarrow> vm_proc" where
  "mmap_reset p =
     (let hint = (if u_mmap_next p \<noteq> 0 then u_mmap_next p else u_mmap_base p)
      in if hint < u_mmap_base p \<or> hint \<ge> u_mmap_limit p then p\<lparr>u_mmap_next := u_mmap_base p\<rparr> else p)"

definition mmap_place :: "nat \<Rightarrow> nat \<Rightarrow> nat \<Rightarrow> u32w \<Rightarrow> vm_proc \<Rightarrow> vm_sys \<Rightarrow> (nat option \<times> vm_proc \<times> vm_sys) option" where
  "mmap_place addr base len prot p s =
     (if check_overflow base len then Some (mmap_fail EINVAL p s)
      else if base < u_mmap_base p \<or> u64 (base + len) > u_mmap_limit p \<or> base \<ge> u64 (base + len) then Some (mmap_fail ENOMEM p s)
      else if addr \<noteq> 0 then
        (if vm_range_overlaps base len p then Some (mmap_fail EINVAL p s) else Some (mmap_at True base len prot p s))
      else (case mmap_search base len p of
              None \<Rightarrow> None
            | Some None \<Rightarrow> Some (mmap_fail ENOMEM p s)
            | Some (Some b) \<Rightarrow>
                if u64 (b + len) > u_mmap_limit p \<or> b \<ge> u64 (b + len) then Some (mmap_fail ENOMEM p s)
                else Some (mmap_at False b len prot p s)))"

definition kmmap :: "nat \<Rightarrow> nat \<Rightarrow> u32w \<Rightarrow> u32w \<Rightarrow> vm_proc \<Rightarrow> vm_sys \<Rightarrow> (nat option \<times> vm_proc \<times> vm_sys) option" where
  "kmmap addr length0 prot flags p s =
     (if \<not> u_user_mode p then Some (mmap_fail ENOSYS p s)
      else if \<not> mmap_flags_supported flags then Some (mmap_fail EINVAL p s)
      else let len = page_align_up_size length0
           in if check_overflow 0 len then Some (mmap_fail EINVAL p s)
              else mmap_place addr (if addr \<noteq> 0 then page_down addr else page_align_up_addr (mmap_hint p)) len prot (mmap_reset p) s)"

definition kmunmap :: "nat \<Rightarrow> nat \<Rightarrow> vm_proc \<Rightarrow> vm_sys \<Rightarrow> (errno + nat) \<times> vm_proc \<times> vm_sys" where
  "kmunmap addr len0 p s =
     (let fail = (\<lambda>e p s. (Inl e, p\<lparr>u_err_no := Some e\<rparr>, s))
      in if \<not> u_user_mode p \<or> addr = 0 \<or> len0 = 0 then fail EINVAL p s
         else let base = page_down addr; len = page_align_up_size len0
              in if check_overflow base len then fail EINVAL p s
                 else case find (\<lambda>r. vr_base r = base \<and> vr_type r = VM_REGION_MMAP) (u_regions p) of
                   None \<Rightarrow> fail EINVAL p s
                 | Some r \<Rightarrow>
                     if vr_length r \<noteq> len then fail EINVAL p s
                     else case vm_unmap base len p s of
                       (False, p1, s1) \<Rightarrow> fail EFAULT p1 s1
                     | (True, p1, s1) \<Rightarrow>
                         (Inr 0, (if u64 (base + len) = u_mmap_next p1 then p1\<lparr>u_mmap_next := base\<rparr> else p1)\<lparr>u_err_no := None\<rparr>, s1))"

section \<open>What an address space maps\<close>

definition mapping :: "vm_proc \<Rightarrow> vm_sys \<Rightarrow> nat \<Rightarrow> (nat \<times> bool \<times> bool) option" where
  "mapping p s v = pmm_get_mapping (u_root p) v (vpg s)"

definition space_ok :: "vm_proc \<Rightarrow> vm_sys \<Rightarrow> bool" where
  "space_ok p s \<longleftrightarrow> u_root p \<noteq> 0 \<and> paging_inv (u_root p) (vpg s)"

text \<open>The fixed part of a region.\<close>

definition region_key :: "vm_region \<Rightarrow> nat \<times> nat \<times> vm_region_type \<times> u32w" where
  "region_key r = (vr_base r, vr_length r, vr_type r, vr_flags r)"

definition region_range :: "vm_region \<Rightarrow> nat set" where
  "region_range r = {vr_base r..<vr_base r + vr_length r}"

text \<open>No region wraps around, none is empty, and no two of them meet.\<close>

definition regions_ok :: "vm_proc \<Rightarrow> bool" where
  "regions_ok p \<longleftrightarrow> (\<forall>r \<in> set (u_regions p). 0 < vr_length r \<and> vr_base r + vr_length r < 2 ^ 64) \<and>
     (\<forall>i j. i < j \<and> j < length (u_regions p) \<longrightarrow> region_range (u_regions p ! i) \<inter> region_range (u_regions p ! j) = {})"

text \<open>An example: memory whose first \<open>n\<close> pages are in use, an empty address space with its top table in page 1, and a process with a stack.\<close>

definition pmm_upto :: "nat \<Rightarrow> pmm" where
  "pmm_upto n = \<lparr>bitmap = (\<lambda>i. if i = 0 then mask n else 0), free_page_count = npages - n, total_usable_pages = npages\<rparr>"

definition demo_vsys :: vm_sys where
  "demo_vsys = \<lparr>vpg = \<lparr>tabs = (\<lambda>_ _. zero_entry), frames = pmm_upto 2, cr3_root = 4096, kernel_cr3_phys = 4096\<rparr>, vdata = (\<lambda>_ _. 7)\<rparr>"

definition demo_vproc :: vm_proc where
  "demo_vproc = \<lparr>u_root = 4096, u_segments = [],
     u_regions = [\<lparr>vr_base = 0x700000, vr_length = 0x10000, vr_type = VM_REGION_STACK,
       vr_flags = VM_REGION_FLAG_WRITE OR VM_REGION_FLAG_USER OR VM_REGION_FLAG_GROW_DOWN, vr_committed_base = 0x710000, vr_committed_top = 0x710000\<rparr>],
     u_mmap_base = 0x40000000, u_mmap_next = 0x40000000, u_mmap_limit = 0x80000000, u_user_mode = True, u_err_no = None\<rparr>"

lemma digit_eq: "x mod 512 = y mod 512 \<Longrightarrow> x div 512 = y div 512 \<Longrightarrow> x = (y :: nat)"
  by (metis div_mult_mod_eq)

lemma page_digits:
  "pt_index v = v div 2 ^ 12 mod 512" "pd_index v = v div 2 ^ 12 div 512 mod 512" "pdpt_index v = v div 2 ^ 12 div 512 div 512 mod 512"
  "pml4_index v = v div 2 ^ 12 div 512 div 512 div 512 mod 512"
  unfolding pt_index_def pd_index_def pdpt_index_def pml4_index_def div_mult2_eq[symmetric] by simp_all

lemma page_index_eq:
  assumes "v < 2 ^ 48" "v' < 2 ^ 48"
  shows "indices v' = indices v \<and> pt_index v' = pt_index v \<longleftrightarrow> page_down v' = page_down v"
proof
  assume "indices v' = indices v \<and> pt_index v' = pt_index v"
  then have d: "pml4_index v' = pml4_index v" "pdpt_index v' = pdpt_index v" "pd_index v' = pd_index v" "pt_index v' = pt_index v"
    by (simp_all add: indices_def)
  have top: "a div 2 ^ 12 div 512 div 512 div 512 mod 512 = a div 2 ^ 12 div 512 div 512 div 512" if "a < 2 ^ 48" for a :: nat
    unfolding div_mult2_eq[symmetric] using that by (intro mod_less) (simp add: div_less_iff_less_mult)
  have "v' div 2 ^ 12 div 512 div 512 div 512 = v div 2 ^ 12 div 512 div 512 div 512"
    using d(1) unfolding page_digits top[OF assms(1)] top[OF assms(2)] .
  from digit_eq[OF d(2)[unfolded page_digits] this] have "v' div 2 ^ 12 div 512 div 512 = v div 2 ^ 12 div 512 div 512" .
  from digit_eq[OF d(3)[unfolded page_digits] this] have "v' div 2 ^ 12 div 512 = v div 2 ^ 12 div 512" .
  from digit_eq[OF d(4)[unfolded page_digits] this] show "page_down v' = page_down v" by (simp add: page_down_def PAGE_SIZE_def)
next
  assume "page_down v' = page_down v"
  then have "v' div 2 ^ 12 = v div 2 ^ 12" by (simp add: page_down_def PAGE_SIZE_def)
  then show "indices v' = indices v \<and> pt_index v' = pt_index v" unfolding indices_def page_digits by simp
qed

lemma mapping_page: "mapping p s a = mapping p s (page_down a)"
proof -
  have "page_down a div 2 ^ 12 = a div 2 ^ 12" by (simp add: page_down_def PAGE_SIZE_def)
  then have e: "pml4_index a = pml4_index (page_down a)" "pdpt_index a = pdpt_index (page_down a)" "pd_index a = pd_index (page_down a)"
    "pt_index a = pt_index (page_down a)" unfolding page_digits by simp_all
  show ?thesis unfolding mapping_def pmm_get_mapping_def pmm_walk_address_def e ..
qed

lemma map_in_mapping:
  assumes "space_ok p s" "map_in p v pa w u s = (ok, s')" "v < 2 ^ 48"
  shows "space_ok p s'" "vdata s' = vdata s"
    and "v' < 2 ^ 48 \<Longrightarrow> mapping p s' v' = (if ok \<and> page_down v' = page_down v then Some (pa, w, u) else mapping p s v')"
proof -
  obtain k where k: "pmm_map_page_in_root (u_root p) v pa w u (vpg s) = (ok, k)" "s' = s\<lparr>vpg := k\<rparr>"
    using assms(2) by (auto simp: map_in_def split: prod.splits)
  have inv: "paging_inv (u_root p) (vpg s)" "u_root p \<noteq> 0" using assms(1) by (simp_all add: space_ok_def)
  note sp = map_page_spec[OF inv(1) k(1)]
  then show "space_ok p s'" "vdata s' = vdata s" using inv k(2) by (simp_all add: space_ok_def)
  have tr: "tree (tabs (vpg s)) (u_root p div PAGE_SIZE)" "tree (tabs k) (u_root p div PAGE_SIZE)" using inv(1) sp(1) by (simp_all add: paging_inv_def)
  assume "v' < 2 ^ 48"
  then have pi: "indices v' = indices v \<and> pt_index v' = pt_index v \<longleftrightarrow> page_down v' = page_down v" using page_index_eq[OF assms(3)] by blast
  have "length (indices v') = 3" by (simp add: indices_def)
  from sp(2)[OF this, of "pt_index v'"]
  show "mapping p s' v' = (if ok \<and> page_down v' = page_down v then Some (pa, w, u) else mapping p s v')"
    unfolding mapping_def k(2) using get_mapping_leaf[OF inv(2) tr(1)] get_mapping_leaf[OF inv(2) tr(2)] pi by auto
qed

lemma alloc_frames_result:
  assumes "alloc_frames n s = (a, s')" "0 < n"
  shows "a \<noteq> 0 \<Longrightarrow> \<exists>c. a = c * PAGE_SIZE \<and> c + n \<le> npages \<and> (\<forall>q. c \<le> q \<and> q < c + n \<longrightarrow> \<not> used (bitmap (frames (vpg s))) q)"
    and "vdata s' = vdata s" "tabs (vpg s') = tabs (vpg s)" "used (bitmap (frames (vpg s))) q \<Longrightarrow> used (bitmap (frames (vpg s'))) q"
proof -
  obtain m' where m': "pmm_alloc_pages n (frames (vpg s)) = (a, m')" "s' = s\<lparr>vpg := (vpg s)\<lparr>frames := m'\<rparr>\<rparr>"
    using assms(1) by (auto simp: alloc_frames_def split: prod.splits)
  then show "vdata s' = vdata s" "tabs (vpg s') = tabs (vpg s)" by simp_all
  have "a = 0 \<and> m' = frames (vpg s) \<or> (\<exists>c. suitable (bitmap (frames (vpg s))) n (alignment_pages PAGE_SIZE) (2 ^ 64 - 1) c \<and> a = c * PAGE_SIZE
      \<and> m' = fold (\<lambda>page. set_page_used (c * PAGE_SIZE + page * PAGE_SIZE)) [0..<n] (frames (vpg s)))"
    using alloc_spec[OF assms(2), where alignment = PAGE_SIZE and mx = "2 ^ 64 - 1" and m = "frames (vpg s)"]
    unfolding m'(1)[unfolded pmm_alloc_pages_def] prod.case by blast
  then consider "a = 0" "m' = frames (vpg s)" | c where "suitable (bitmap (frames (vpg s))) n (alignment_pages PAGE_SIZE) (2 ^ 64 - 1) c"
      "a = c * PAGE_SIZE" "m' = fold (\<lambda>page. set_page_used (c * PAGE_SIZE + page * PAGE_SIZE)) [0..<n] (frames (vpg s))" by blast
  note cs = this
  show "\<exists>c. a = c * PAGE_SIZE \<and> c + n \<le> npages \<and> (\<forall>q. c \<le> q \<and> q < c + n \<longrightarrow> \<not> used (bitmap (frames (vpg s))) q)" if "a \<noteq> 0"
    using cs that by cases (auto simp: suitable_def)
  show "used (bitmap (frames (vpg s'))) q" if "used (bitmap (frames (vpg s))) q"
    using cs that m'(2) by cases (simp_all add: mark_used)
qed

lemma alloc_frames_space:
  assumes "alloc_frames n s = (a, s')" "0 < n"
  shows "space_ok p s \<Longrightarrow> space_ok p s'" "mapping p s' v = mapping p s v"
proof -
  note r = alloc_frames_result[OF assms]
  show "space_ok p s'" if "space_ok p s" using that r(3,4) by (auto simp: space_ok_def paging_inv_def)
  have e: "ent (vpg s') = ent (vpg s)" using r(3) by (intro ext) (simp add: ent_def)
  show "mapping p s' v = mapping p s v" unfolding mapping_def pmm_get_mapping_def pmm_walk_address_def e ..
qed

lemma zero_pages_space [simp]: "space_ok p (zero_pages a n s) = space_ok p s" "mapping p (zero_pages a n s) v = mapping p s v"
  by (simp_all add: space_ok_def mapping_def zero_pages_def)

lemma register_fields [simp]:
  "u_root (snd (proc_register_user_segment a n p)) = u_root p" "u_regions (snd (proc_register_user_segment a n p)) = u_regions p"
  "u_mmap_base (snd (proc_register_user_segment a n p)) = u_mmap_base p" "u_mmap_next (snd (proc_register_user_segment a n p)) = u_mmap_next p"
  "u_mmap_limit (snd (proc_register_user_segment a n p)) = u_mmap_limit p" "u_user_mode (snd (proc_register_user_segment a n p)) = u_user_mode p"
  by (simp_all add: proc_register_user_segment_def)

lemma upd_region_fields [simp]:
  "u_root (upd_region i f p) = u_root p" "u_segments (upd_region i f p) = u_segments p" "length (u_regions (upd_region i f p)) = length (u_regions p)"
  "u_mmap_base (upd_region i f p) = u_mmap_base p" "u_mmap_next (upd_region i f p) = u_mmap_next p"
  "u_mmap_limit (upd_region i f p) = u_mmap_limit p" "u_user_mode (upd_region i f p) = u_user_mode p"
  by (simp_all add: upd_region_def)

lemma note_mapping_key [simp]: "region_key (vm_region_note_mapping b n r) = region_key r"
  by (simp add: vm_region_note_mapping_def region_key_def)

lemma upd_region_keys [simp]: "(\<And>r. region_key (f r) = region_key r) \<Longrightarrow> map region_key (u_regions (upd_region i f p)) = map region_key (u_regions p)"
  by (cases "i < length (u_regions p)") (simp_all add: upd_region_def list_eq_iff_nth_eq nth_list_update list_update_beyond)

text \<open>Where a region is depends on the fixed part only.\<close>

lemma vm_region_find_keys:
  assumes "map region_key (u_regions p') = map region_key (u_regions p)"
  shows "vm_region_find a p' = vm_region_find a p"
proof -
  have l: "length (u_regions p') = length (u_regions p)" using assms by (metis length_map)
  have "region_key (u_regions p' ! i) = region_key (u_regions p ! i)" if "i < length (u_regions p)" for i
    using assms that l by (metis nth_map)
  then have "vr_base (u_regions p' ! i) = vr_base (u_regions p ! i) \<and> region_limit (u_regions p' ! i) = region_limit (u_regions p ! i)"
    if "i < length (u_regions p)" for i using that by (simp add: region_key_def region_limit_def)
  then show ?thesis unfolding vm_region_find_def l by (intro find_cong) auto
qed

lemma commit_page_True:
  assumes "commit_page i v p s = (True, p', s')" "space_ok p s" "v < 2 ^ 48" "i < length (u_regions p)"
  shows "\<exists>frame. mapping p' s' v = Some (frame, vr_flags (u_regions p ! i) AND VM_REGION_FLAG_WRITE \<noteq> 0, True) \<and>
      \<not> used (bitmap (frames (vpg s))) (frame div PAGE_SIZE) \<and> vdata s' (frame div PAGE_SIZE) = (\<lambda>_. 0)"
    and "space_ok p' s'" "u_root p' = u_root p" "map region_key (u_regions p') = map region_key (u_regions p)"
    and "u_regions p' ! i = vm_region_note_mapping v PAGE_SIZE (u_regions p ! i)"
    and "v' < 2 ^ 48 \<Longrightarrow> page_down v' \<noteq> page_down v \<Longrightarrow> mapping p' s' v' = mapping p s v'"
proof -
  let ?w = "vr_flags (u_regions p ! i) AND VM_REGION_FLAG_WRITE \<noteq> 0"
  obtain phys s1 where al: "alloc_frames 1 s = (phys, s1)" by fastforce
  obtain s2 where mp: "map_in p v phys ?w True (zero_pages phys 1 s1) = (True, s2)" and ph: "phys \<noteq> 0"
    using assms(1) al by (auto simp: commit_page_def split: if_splits prod.splits bool.splits)
  obtain p1 where rg: "proc_register_user_segment phys 1 p = (True, p1)"
    and e: "p' = upd_region i (vm_region_note_mapping v PAGE_SIZE) p1" "s' = s2"
    using assms(1) al mp ph by (auto simp: commit_page_def split: prod.splits bool.splits)
  have p1: "u_root p1 = u_root p" "u_regions p1 = u_regions p" using register_fields(1,2)[of phys 1 p] unfolding rg by simp_all
  have s1: "space_ok p s1" "\<And>v. mapping p s1 v = mapping p s v" using alloc_frames_space[OF al] assms(2) by simp_all
  then have "space_ok p (zero_pages phys 1 s1)" by simp
  note m = map_in_mapping[OF this mp assms(3)]
  have root: "u_root p' = u_root p" using e p1 by simp
  then have mm: "mapping p' s' v' = mapping p s2 v'" for v' using e by (simp add: mapping_def)
  show "space_ok p' s'" "u_root p' = u_root p" using root m(1) e by (simp_all add: space_ok_def)
  show "map region_key (u_regions p') = map region_key (u_regions p)" unfolding e p1(2)[symmetric] by simp
  show "u_regions p' ! i = vm_region_note_mapping v PAGE_SIZE (u_regions p ! i)" using e p1 assms(4) by (simp add: upd_region_def)
  show "mapping p' s' v' = mapping p s v'" if "v' < 2 ^ 48" "page_down v' \<noteq> page_down v" using that m(3) s1(2) mm by simp
  obtain c where c: "phys = c * PAGE_SIZE" "\<not> used (bitmap (frames (vpg s))) c" using alloc_frames_result(1)[OF al] ph by auto
  have "vdata s2 = vdata (zero_pages phys 1 s1)" by (rule m(2))
  then have "vdata s' (phys div PAGE_SIZE) = (\<lambda>_. 0)" using e by (simp add: zero_pages_def)
  then show "\<exists>frame. mapping p' s' v = Some (frame, ?w, True) \<and>
      \<not> used (bitmap (frames (vpg s))) (frame div PAGE_SIZE) \<and> vdata s' (frame div PAGE_SIZE) = (\<lambda>_. 0)"
    using m(3)[OF assms(3)] mm c by simp
qed

section \<open>Page faults\<close>

lemma vm_region_find_Some: "vm_region_find a p = Some i \<Longrightarrow> i < length (u_regions p) \<and> vr_base (u_regions p ! i) \<le> a \<and> a < region_limit (u_regions p ! i)"
  by (auto simp: vm_region_find_def find_Some_iff)

text \<open>
  C28. A stack that was first touched below its committed part has a gap that no fault fills: after a fault at \<open>a\<close> was
  handled, a fault at an address \<open>b\<close> of the same region between \<open>a\<close> and the committed part is reported as handled, but nothing
  is mapped there and nothing changes, so the instruction faults again forever.
\<close>

theorem stack_gap_faults_forever:
  assumes "space_ok p s" "vm_region_find a p = Some i" "vm_region_find b p = Some i"
    and "vr_flags (u_regions p ! i) AND VM_REGION_FLAG_GROW_DOWN \<noteq> 0"
    and "page_down a < page_down b" "page_down b < vr_committed_base (u_regions p ! i)" "b < 2 ^ 48" "mapping p s b = None"
    and "vm_region_handle_page_fault a False w True p s = (True, p1, s1)"
  shows "vm_region_handle_page_fault b False w True p1 s1 = (True, p1, s1) \<and> mapping p1 s1 b = None"
proof -
  let ?r = "u_regions p ! i"
  have i: "i < length (u_regions p)" using vm_region_find_Some[OF assms(2)] by blast
  have aw: "\<not> (w \<and> vr_flags ?r AND VM_REGION_FLAG_WRITE = 0)" "\<not> page_down a < vr_base ?r"
    and c: "commit_page i (page_down a) p s = (True, p1, s1)"
    using assms(2,4-6,9) by (auto simp: vm_region_handle_page_fault_def vm_region_grow_down_def Let_def split: if_splits)
  have "page_down b \<le> b" by (simp add: page_down_def)
  then have v: "page_down a < 2 ^ 48" using assms(5,7) by linarith
  have pd: "page_down (page_down x) = page_down x" for x by (simp add: page_down_def)
  note cp = commit_page_True[OF c assms(1) v i]
  have "mapping p1 s1 b = None" using cp(6)[OF assms(7)] assms(5,8) pd by simp
  moreover have f: "vm_region_find b p1 = Some i" using vm_region_find_keys[OF cp(4)] assms(3) by simp
  moreover have k: "vr_flags (u_regions p1 ! i) = vr_flags ?r" "vr_base (u_regions p1 ! i) = vr_base ?r"
      "vr_committed_base (u_regions p1 ! i) \<le> page_down a"
    unfolding cp(5) by (simp_all add: vm_region_note_mapping_def PAGE_SIZE_def)
  ultimately show ?thesis using aw assms(4,5)
    by (simp add: vm_region_handle_page_fault_def vm_region_grow_down_def Let_def)
qed

text \<open>A fault that does commit a page maps a fresh, cleared frame there and changes no other mapping.\<close>

theorem page_fault_maps_zero_page:
  assumes "space_ok p s" "vm_region_find a p = Some i" "a < 2 ^ 48" "mapping p s a = None"
    and "vm_region_handle_page_fault a False w True p s = (True, p1, s1)" "(p1, s1) \<noteq> (p, s)"
  shows "(\<exists>frame. mapping p1 s1 a = Some (frame, vr_flags (u_regions p ! i) AND VM_REGION_FLAG_WRITE \<noteq> 0, True) \<and>
       \<not> used (bitmap (frames (vpg s))) (frame div PAGE_SIZE) \<and> vdata s1 (frame div PAGE_SIZE) = (\<lambda>_. 0)) \<and>
     (\<forall>v < 2 ^ 48. page_down v \<noteq> page_down a \<longrightarrow> mapping p1 s1 v = mapping p s v)"
proof -
  have i: "i < length (u_regions p)" using vm_region_find_Some[OF assms(2)] by blast
  have c: "commit_page i (page_down a) p s = (True, p1, s1)"
    using assms(2,5,6) by (auto simp: vm_region_handle_page_fault_def vm_region_grow_down_def vm_region_grow_up_def Let_def split: if_splits)
  have pd: "page_down (page_down a) = page_down a" "page_down a \<le> a" by (simp_all add: page_down_def)
  then have v: "page_down a < 2 ^ 48" using assms(3) by linarith
  note cp = commit_page_True[OF c assms(1) v i]
  show ?thesis unfolding mapping_page[of p1 s1 a] using cp(1,6) pd by simp
qed

section \<open>Mapped ranges\<close>

lemma page_down_iff: "PAGE_SIZE dvd v \<Longrightarrow> page_down a = v \<longleftrightarrow> v \<le> a \<and> a < v + PAGE_SIZE"
  unfolding page_down_def PAGE_SIZE_def by (auto elim!: dvdE)

lemma page_at_small: "base + k * PAGE_SIZE < 2 ^ 64 \<Longrightarrow> page_at base k = base + k * PAGE_SIZE"
  by (simp add: page_at_def)

lemma map_pages_spec:
  assumes "map_pages base phys w u i [k..<n] p s = (True, p', s')" "k \<le> n" "space_ok p s"
    and "PAGE_SIZE dvd base" "base + n * PAGE_SIZE \<le> 2 ^ 47" "phys + n * PAGE_SIZE < 2 ^ 64"
  shows "space_ok p' s' \<and> u_root p' = u_root p \<and> vdata s' = vdata s \<and> map region_key (u_regions p') = map region_key (u_regions p) \<and>
    u_mmap_next p' = u_mmap_next p \<and> u_mmap_base p' = u_mmap_base p \<and> u_mmap_limit p' = u_mmap_limit p \<and> u_user_mode p' = u_user_mode p \<and>
    (\<forall>v < 2 ^ 48. mapping p' s' v = (if base + k * PAGE_SIZE \<le> v \<and> v < base + n * PAGE_SIZE
       then Some (phys + (page_down v - base), w, u) else mapping p s v))"
  using assms
proof (induction "n - k" arbitrary: k p s)
  case (Suc m)
  then have k: "[k..<n] = k # [Suc k..<n]" "k < n" by (simp_all add: upt_conv_Cons)
  have le: "Suc k * PAGE_SIZE \<le> n * PAGE_SIZE" using k(2) by (intro mult_le_mono) simp_all
  then have at: "page_at base k = base + k * PAGE_SIZE" "page_at phys k = phys + k * PAGE_SIZE" "page_at base k < 2 ^ 48"
    using Suc.prems(5,6) by (simp_all add: page_at_def)
  obtain s1 where m1: "map_in p (page_at base k) (page_at phys k) w u s = (True, s1)"
    using Suc.prems(1) k(1) by (auto split: prod.splits bool.splits)
  define p1 where "p1 = upd_region i (vm_region_note_mapping (page_at base k) PAGE_SIZE) p"
  obtain p2 where r: "proc_register_user_segment (page_at phys k) 1 p1 = (True, p2)"
    and rest: "map_pages base phys w u i [Suc k..<n] p2 s1 = (True, p', s')"
    using Suc.prems(1) k(1) m1 by (auto simp: p1_def Let_def split: prod.splits bool.splits)
  have p2: "u_root p2 = u_root p" "map region_key (u_regions p2) = map region_key (u_regions p)" "u_mmap_next p2 = u_mmap_next p"
    "u_mmap_base p2 = u_mmap_base p" "u_mmap_limit p2 = u_mmap_limit p" "u_user_mode p2 = u_user_mode p"
    using register_fields[of "page_at phys k" 1 p1] unfolding r by (simp_all add: p1_def)
  note mm = map_in_mapping[OF Suc.prems(3) m1 at(3)]
  have sp: "space_ok p2 s1" using mm(1) p2(1) by (simp add: space_ok_def)
  have mp: "mapping p2 s1 v = (if base + k * PAGE_SIZE \<le> v \<and> v < base + Suc k * PAGE_SIZE then Some (phys + (page_down v - base), w, u) else mapping p s v)"
    if "v < 2 ^ 48" for v
  proof -
    have pd: "page_down v = base + k * PAGE_SIZE \<longleftrightarrow> base + k * PAGE_SIZE \<le> v \<and> v < base + Suc k * PAGE_SIZE"
      using page_down_iff[of "base + k * PAGE_SIZE" v] Suc.prems(4) by (simp add: ac_simps)
    have "page_down (base + k * PAGE_SIZE) = base + k * PAGE_SIZE" using page_down_iff[of "base + k * PAGE_SIZE"] Suc.prems(4) by simp
    then have "mapping p s1 v = (if page_down v = base + k * PAGE_SIZE then Some (phys + k * PAGE_SIZE, w, u) else mapping p s v)"
      using mm(3)[OF that] at by simp
    then show ?thesis using pd p2(1) by (auto simp: mapping_def)
  qed
  from Suc.hyps(1)[OF _ rest _ sp Suc.prems(4-6)] Suc.hyps(2) k(2) have ih: "space_ok p' s' \<and> u_root p' = u_root p2 \<and> vdata s' = vdata s1 \<and>
      map region_key (u_regions p') = map region_key (u_regions p2) \<and>
    u_mmap_next p' = u_mmap_next p2 \<and> u_mmap_base p' = u_mmap_base p2 \<and> u_mmap_limit p' = u_mmap_limit p2 \<and> u_user_mode p' = u_user_mode p2 \<and>
    (\<forall>v < 2 ^ 48. mapping p' s' v = (if base + Suc k * PAGE_SIZE \<le> v \<and> v < base + n * PAGE_SIZE
       then Some (phys + (page_down v - base), w, u) else mapping p2 s1 v))" by simp
  show ?case using ih p2 mm(2) mp le by (auto simp: not_le)
qed auto

lemma regions_ok_keys:
  assumes "map region_key (u_regions p') = map region_key (u_regions p)"
  shows "regions_ok p' = regions_ok p"
proof -
  have l: "length (u_regions p') = length (u_regions p)" using assms by (metis length_map)
  have "region_key (u_regions p' ! i) = region_key (u_regions p ! i)" if "i < length (u_regions p)" for i
    using assms that l by (metis nth_map)
  then have k: "vr_base (u_regions p' ! i) = vr_base (u_regions p ! i)" "vr_length (u_regions p' ! i) = vr_length (u_regions p ! i)"
    if "i < length (u_regions p)" for i using that by (simp_all add: region_key_def)
  show ?thesis unfolding regions_ok_def all_set_conv_all_nth l region_range_def by (simp add: k cong: conj_cong)
qed

lemma overlaps_iff:
  assumes "regions_ok p" "0 < len" "base + len < 2 ^ 64"
  shows "vm_range_overlaps base len p \<longleftrightarrow> (\<exists>r \<in> set (u_regions p). {base..<base + len} \<inter> region_range r \<noteq> {})"
proof -
  have "\<not> (u64 (base + len) \<le> vr_base r \<or> base \<ge> region_limit r) \<longleftrightarrow> {base..<base + len} \<inter> region_range r \<noteq> {}"
    if "r \<in> set (u_regions p)" for r
  proof -
    have r: "0 < vr_length r" "region_limit r = vr_base r + vr_length r" using assms(1) that by (auto simp: regions_ok_def region_limit_def)
    show ?thesis using assms(2,3) r by (auto simp: region_range_def disjoint_iff max_def intro!: exI[of _ "max base (vr_base r)"])
  qed
  then show ?thesis using assms(2) by (auto simp: vm_range_overlaps_def)
qed

lemma vm_region_add_result:
  assumes "vm_region_add base len ty flags p = (ok, p')"
  shows "map region_key (u_regions p') = map region_key (u_regions p) @ (if ok then [(base, len, ty, flags)] else [])"
    and "u_root p' = u_root p" "u_mmap_next p' = u_mmap_next p" "u_mmap_base p' = u_mmap_base p" "u_mmap_limit p' = u_mmap_limit p"
    "u_user_mode p' = u_user_mode p"
  using assms by (auto simp: vm_region_add_def region_key_def Let_def split: if_splits)

lemma region_add_ok:
  assumes "regions_ok p" "\<not> vm_range_overlaps base len p" "0 < len" "base + len < 2 ^ 64"
    and "map region_key (u_regions p') = map region_key (u_regions p) @ [(base, len, ty, flags)]"
  shows "regions_ok p'" "vm_region_find base p' = Some (length (u_regions p))"
proof -
  let ?n = "length (u_regions p)"
  have l: "length (u_regions p') = Suc ?n" using arg_cong[OF assms(5), of length] by simp
  have "region_key (u_regions p' ! i) = (if i < ?n then region_key (u_regions p ! i) else (base, len, ty, flags))" if "i < Suc ?n" for i
    using arg_cong[OF assms(5), of "\<lambda>xs. xs ! i"] that l by (auto simp: nth_append)
  note key = this
  have old: "vr_base (u_regions p' ! i) = vr_base (u_regions p ! i)" "vr_length (u_regions p' ! i) = vr_length (u_regions p ! i)" if "i < ?n" for i
    using key[of i] that by (simp_all add: region_key_def)
  have new: "vr_base (u_regions p' ! ?n) = base" "vr_length (u_regions p' ! ?n) = len" using key[of ?n] by (simp_all add: region_key_def)
  have dis: "{base..<base + len} \<inter> region_range (u_regions p ! i) = {}" if "i < ?n" for i
    using overlaps_iff[OF assms(1,3,4)] assms(2) that by (metis nth_mem)
  show "regions_ok p'" unfolding regions_ok_def all_set_conv_all_nth l
  proof (intro conjI allI impI)
    fix i assume "i < Suc ?n"
    then show "0 < vr_length (u_regions p' ! i)" "vr_base (u_regions p' ! i) + vr_length (u_regions p' ! i) < 2 ^ 64"
      using assms(1,3,4) old new by (auto simp: regions_ok_def less_Suc_eq)
  next
    fix i j assume ij: "i < j \<and> j < Suc ?n"
    then have i: "region_range (u_regions p' ! i) = region_range (u_regions p ! i)" using old by (simp add: region_range_def)
    show "region_range (u_regions p' ! i) \<inter> region_range (u_regions p' ! j) = {}"
    proof (cases "j = ?n")
      case True
      then have "region_range (u_regions p' ! j) = {base..<base + len}" using new by (simp add: region_range_def)
      then show ?thesis using dis[of i] i ij True by blast
    next
      case False
      then have "region_range (u_regions p' ! j) = region_range (u_regions p ! j)" using old ij by (simp add: region_range_def)
      moreover have "region_range (u_regions p ! i) \<inter> region_range (u_regions p ! j) = {}" using assms(1) ij False by (simp add: regions_ok_def)
      ultimately show ?thesis using i by simp
    qed
  qed
  have "\<not> (vr_base (u_regions p' ! i) \<le> base \<and> base < region_limit (u_regions p' ! i))" if "i < ?n" for i
  proof -
    have "vr_base (u_regions p ! i) + vr_length (u_regions p ! i) < 2 ^ 64" using assms(1) that by (simp add: regions_ok_def)
    moreover have "base \<in> {base..<base + len}" using assms(3) by simp
    then have "base \<notin> region_range (u_regions p ! i)" using dis[OF that] by blast
    ultimately show ?thesis using old[OF that] by (auto simp: region_limit_def region_range_def)
  qed
  moreover have "vr_base (u_regions p' ! ?n) \<le> base \<and> base < region_limit (u_regions p' ! ?n)" using new assms(3,4) by (simp add: region_limit_def)
  ultimately show "vm_region_find base p' = Some ?n" unfolding vm_region_find_def find_Some_iff l
    by (intro exI[of _ ?n]) (auto simp: nth_append)
qed

lemma vm_map_True:
  assumes "vm_map base len flags ty p s = (True, p', s')" "space_ok p s" "regions_ok p" "\<not> vm_range_overlaps base len p"
    and "PAGE_SIZE dvd base" "PAGE_SIZE dvd len" "0 < len" "base + len \<le> 2 ^ 47"
  shows "space_ok p' s' \<and> map region_key (u_regions p') = map region_key (u_regions p) @ [(base, len, ty, flags)] \<and> u_mmap_next p' = u_mmap_next p \<and>
    (\<forall>v < 2 ^ 48. if base \<le> v \<and> v < base + len
       then \<exists>frame. mapping p' s' v = Some (frame, flags AND VM_REGION_FLAG_WRITE \<noteq> 0, flags AND VM_REGION_FLAG_USER \<noteq> 0) \<and>
              \<not> used (bitmap (frames (vpg s))) (frame div PAGE_SIZE) \<and> vdata s' (frame div PAGE_SIZE) = (\<lambda>_. 0)
       else mapping p' s' v = mapping p s v)"
proof -
  let ?w = "flags AND VM_REGION_FLAG_WRITE \<noteq> 0" and ?u = "flags AND VM_REGION_FLAG_USER \<noteq> 0"
  define n where "n = len div PAGE_SIZE"
  have n: "len = n * PAGE_SIZE" "0 < n" using assms(6,7) by (auto simp: n_def)
  have al: "page_align_up len = len" "page_down base = base" using assms(5,6,7) by (simp_all add: page_align_up_def page_down_def)
  obtain p1 where add: "vm_region_add base len ty flags p = (True, p1)"
    using assms(1,7) al by (auto simp: vm_map_def Let_def split: prod.splits bool.splits if_splits)
  note ar = vm_region_add_result[OF add]
  have key1: "map region_key (u_regions p1) = map region_key (u_regions p) @ [(base, len, ty, flags)]" using ar(1) by simp
  have lt: "base + len < 2 ^ 64" using assms(8) by simp
  have fi: "vm_region_find base p1 = Some (length (u_regions p))" by (rule region_add_ok(2)[OF assms(3,4,7) lt key1])
  obtain phys s1 where af: "alloc_frames n s = (phys, s1)" by fastforce
  have ph: "phys \<noteq> 0" and mp: "map_pages base phys ?w ?u (length (u_regions p)) [0..<n] p1 (zero_pages phys n s1) = (True, p', s')"
    using assms(1,7) al add fi af by (auto simp: vm_map_def n_def Let_def split: prod.splits bool.splits if_splits)
  obtain c where c: "phys = c * PAGE_SIZE" "c + n \<le> npages" "\<forall>q. c \<le> q \<and> q < c + n \<longrightarrow> \<not> used (bitmap (frames (vpg s))) q"
    using alloc_frames_result(1)[OF af n(2) ph] by blast
  have "phys + n * PAGE_SIZE = (c + n) * PAGE_SIZE" using c(1) by (simp add: distrib_right)
  also have "\<dots> \<le> npages * PAGE_SIZE" using c(2) by (intro mult_le_mono) simp_all
  also have "\<dots> < 2 ^ 64" by (simp add: npages_def PAGE_BITMAP_SIZE_def PAGE_SIZE_def)
  finally have pb: "phys + n * PAGE_SIZE < 2 ^ 64" .
  have "space_ok p s1" using alloc_frames_space(1)[OF af n(2) assms(2)] .
  then have sp: "space_ok p1 (zero_pages phys n s1)" using ar(2) by (simp add: space_ok_def zero_pages_def)
  have "base + n * PAGE_SIZE \<le> 2 ^ 47" using assms(8) n by simp
  note ms = map_pages_spec[OF mp _ sp assms(5) this pb, simplified, folded n(1)]
  have m1: "mapping p1 (zero_pages phys n s1) v = mapping p s v" for v
    using alloc_frames_space(2)[OF af n(2), of p v] ar(2) by (simp add: mapping_def zero_pages_def)
  have fr: "\<not> used (bitmap (frames (vpg s))) ((phys + (page_down v - base)) div PAGE_SIZE) \<and> vdata s' ((phys + (page_down v - base)) div PAGE_SIZE) = (\<lambda>_. 0)"
    if "base \<le> v" "v < base + len" for v
  proof -
    obtain b where b: "base = b * PAGE_SIZE" using assms(5) by (auto simp: mult.commute)
    have d: "page_down v - base = (v div PAGE_SIZE - b) * PAGE_SIZE" by (simp add: page_down_def b diff_mult_distrib)
    have "v < (b + n) * PAGE_SIZE" using that n b by (simp add: distrib_right)
    then have lim: "v div PAGE_SIZE - b < n" using less_mult_imp_div_less[of v "b + n" PAGE_SIZE] n(2) by linarith
    have e: "(phys + (page_down v - base)) div PAGE_SIZE = c + (v div PAGE_SIZE - b)" by (simp add: d c(1) flip: distrib_right)
    have "vdata s' = vdata (zero_pages phys n s1)" using ms by simp
    then show ?thesis unfolding e using c(1,3) lim by (simp add: zero_pages_def)
  qed
  show ?thesis using ms m1 key1 ar(3) fr by auto
qed

lemma unregister_regions [simp]: "u_regions (unregister_pages phys pages p) = u_regions p"
  unfolding unregister_pages_def by (induction pages arbitrary: p) (simp_all add: proc_unregister_user_segment_def)

lemma map_pages_keys: "map region_key (u_regions (fst (snd (map_pages base phys w u i pages p s)))) = map region_key (u_regions p)"
proof (induction pages arbitrary: p s)
  case (Cons page pages)
  obtain ok s1 where m: "map_in p (page_at base page) (page_at phys page) w u s = (ok, s1)" by fastforce
  define p1 where "p1 = upd_region i (vm_region_note_mapping (page_at base page) PAGE_SIZE) p"
  obtain ok2 p2 where r: "proc_register_user_segment (page_at phys page) 1 p1 = (ok2, p2)" by fastforce
  have "u_regions p2 = u_regions p1" using register_fields(2)[of "page_at phys page" 1 p1] unfolding r by simp
  then have "map region_key (u_regions p2) = map region_key (u_regions p)" by (simp add: p1_def)
  then show ?case using Cons.IH[of p2 s1] m r unfolding p1_def by (auto simp: Let_def split: bool.splits)
qed simp

lemma vm_map_keys:
  assumes "vm_map base len flags ty p s = (ok, p', s')" "PAGE_SIZE dvd base" "PAGE_SIZE dvd len" "0 < len"
  shows "map region_key (u_regions p') = map region_key (u_regions p) \<or>
    map region_key (u_regions p') = map region_key (u_regions p) @ [(base, len, ty, flags)]"
proof -
  have al: "page_align_up len = len" "page_down base = base" using assms(2-4) by (simp_all add: page_align_up_def page_down_def)
  obtain b1 p1 where add: "vm_region_add base len ty flags p = (b1, p1)" by fastforce
  note k = vm_region_add_result(1)[OF add]
  have "p' = p1 \<or> (\<exists>i phys s1. p' = fst (snd (map_pages base phys (flags AND VM_REGION_FLAG_WRITE \<noteq> 0) (flags AND VM_REGION_FLAG_USER \<noteq> 0) i
      [0..<len div PAGE_SIZE] p1 s1)))"
  proof (rule ccontr)
    assume "\<not> ?thesis"
    then have n: "p' \<noteq> p1" "map_pages base phys (flags AND VM_REGION_FLAG_WRITE \<noteq> 0) (flags AND VM_REGION_FLAG_USER \<noteq> 0) i
      [0..<len div PAGE_SIZE] p1 s1 \<noteq> (b, p', s2)" for i phys s1 b s2 by (blast, metis fst_conv snd_conv)
    obtain i where "b1" "vm_region_find base p1 = Some i" using assms(1,4) al add n(1)
      by (auto simp: vm_map_def split: bool.splits option.splits)
    then show False using assms(1,4) al add n
      by (auto simp: vm_map_def Let_def split: bool.splits prod.splits if_splits)
  qed
  then show ?thesis using k map_pages_keys by auto
qed

lemma page_align_dvd: "PAGE_SIZE dvd page_align_up_addr a" "PAGE_SIZE dvd page_align_up_size n" "PAGE_SIZE dvd page_down a"
proof -
  have u: "PAGE_SIZE dvd u64 x \<longleftrightarrow> PAGE_SIZE dvd x" for x unfolding u64_def PAGE_SIZE_def by (rule dvd_mod_iff) simp
  show "PAGE_SIZE dvd page_down a" "PAGE_SIZE dvd page_align_up_addr a" by (simp_all add: page_down_def page_align_up_addr_def mod_0_imp_dvd)
  have "n mod PAGE_SIZE < PAGE_SIZE" by (simp add: PAGE_SIZE_def)
  then have "n + (PAGE_SIZE - n mod PAGE_SIZE) = n div PAGE_SIZE * PAGE_SIZE + PAGE_SIZE" using div_mult_mod_eq[of n PAGE_SIZE] by linarith
  then have "PAGE_SIZE dvd n + (PAGE_SIZE - n mod PAGE_SIZE)" by simp
  then show "PAGE_SIZE dvd page_align_up_size n" using u by (auto simp: page_align_up_size_def mod_0_imp_dvd)
qed

lemma mmap_search_returns:
  assumes "PAGE_SIZE dvd base" "PAGE_SIZE dvd len" "0 < len" "base + len < 2 ^ 64"
  shows "\<exists>r. mmap_search base len p = Some r \<and> (\<forall>b. r = Some b \<longrightarrow> PAGE_SIZE dvd b \<and> base \<le> b \<and> b + len < 2 ^ 64 \<and>
     (b + len \<le> u_mmap_limit p \<longrightarrow> \<not> vm_range_overlaps b len p))"
  using assms
proof (induction "2 ^ 64 - base" arbitrary: base rule: less_induct)
  case less
  have u: "u64 (base + len) = base + len" using less.prems(4) by simp
  show ?case
  proof (cases "base + len \<le> u_mmap_limit p \<and> vm_range_overlaps base len p")
    case False
    then have "mmap_search base len p = Some (Some base)" unfolding mmap_search.simps[of base] u by auto
    then show ?thesis using False less.prems by auto
  next
    case True
    define b where "b = base + len"
    have b: "page_align_up_addr (u64 (base + len)) = b" using less.prems(1,2) u by (simp add: page_align_up_addr_def b_def)
    then have e: "mmap_search base len p = (if check_overflow b len then Some None else mmap_search b len p)"
      unfolding mmap_search.simps[of base] u using True u by (simp add: Let_def)
    show ?thesis
    proof (cases "check_overflow b len")
      case False
      then have "b + len < 2 ^ 64" using less.prems(4) by (simp add: check_overflow_def b_def)
      moreover have "2 ^ 64 - b < 2 ^ 64 - base" using less.prems(3,4) by (simp add: b_def)
      ultimately show ?thesis using less.hyps[of b] less.prems(1-3) False e by (auto simp: b_def)
    qed (use e in simp)
  qed
qed

lemma mmap_at_result:
  assumes "space_ok p s" "regions_ok p" "\<not> vm_range_overlaps b len p" "PAGE_SIZE dvd b" "PAGE_SIZE dvd len" "0 < len" "b + len \<le> 2 ^ 47" "b \<noteq> 0"
    and "mmap_at hint b len prot p s = (r, p', s')"
  shows "regions_ok p' \<and> (r \<noteq> None \<longrightarrow> r = Some b \<and> space_ok p' s' \<and>
      map region_key (u_regions p') = map region_key (u_regions p) @ [(b, len, VM_REGION_MMAP, prot_to_region_flags prot)] \<and>
      (\<forall>v < 2 ^ 48. if b \<le> v \<and> v < b + len
         then \<exists>frame. mapping p' s' v = Some (frame, prot AND PROT_WRITE \<noteq> 0, True) \<and>
                \<not> used (bitmap (frames (vpg s))) (frame div PAGE_SIZE) \<and> vdata s' (frame div PAGE_SIZE) = (\<lambda>_. 0)
         else mapping p' s' v = mapping p s v))"
proof -
  let ?fl = "prot_to_region_flags prot"
  have fl: "(?fl AND VM_REGION_FLAG_WRITE \<noteq> 0) = (prot AND PROT_WRITE \<noteq> 0)" "(?fl AND VM_REGION_FLAG_USER \<noteq> 0) = True"
    by (simp_all add: prot_to_region_flags_def VM_REGION_FLAG_WRITE_def VM_REGION_FLAG_USER_def VM_REGION_FLAG_READ_def VM_REGION_FLAG_EXEC_def)
  obtain ok p1 s1 where vm: "vm_map b len ?fl VM_REGION_MMAP p s = (ok, p1, s1)" by (metis prod_cases3)
  have lt: "b + len < 2 ^ 64" using assms(7) by simp
  have ok1: "regions_ok p1"
    using vm_map_keys[OF vm assms(4-6)] regions_ok_keys[of p1 p] region_add_ok(1)[OF assms(2,3,6) lt] assms(2) by blast
  show ?thesis
  proof (cases ok)
    case True
    then have e: "r = Some b" "u_regions p' = u_regions p1" "u_root p' = u_root p1" "s' = s1"
      using assms(8,9) vm by (auto simp: mmap_at_def Let_def split: if_splits)
    have "vm_map b len ?fl VM_REGION_MMAP p s = (True, p1, s1)" using vm True by simp
    note m = vm_map_True[OF this assms(1-7)]
    have mp: "\<And>v. mapping p' s1 v = mapping p1 s1 v" using e by (simp add: mapping_def)
    have "regions_ok p'" "space_ok p' s1" using ok1 m e by (simp_all add: regions_ok_def space_ok_def)
    then show ?thesis unfolding e mp using m[unfolded fl] by blast
  next
    case False
    then have "r = None" "u_regions p' = u_regions p1" using assms(9) vm by (auto simp: mmap_at_def mmap_fail_def)
    then show ?thesis using ok1 by (simp add: regions_ok_def)
  qed
qed

lemma mmap_reset_fields [simp]:
  "u_regions (mmap_reset p) = u_regions p" "u_mmap_base (mmap_reset p) = u_mmap_base p" "u_mmap_limit (mmap_reset p) = u_mmap_limit p"
  "u_root (mmap_reset p) = u_root p"
  by (simp_all add: mmap_reset_def Let_def)

lemma mmap_place_result:
  assumes al: "PAGE_SIZE dvd base" "PAGE_SIZE dvd len" "0 < len"
  obtains (fail) e where "mmap_place addr base len prot p s = Some (mmap_fail e p s)"
  | (at) hint b where "mmap_place addr base len prot p s = Some (mmap_at hint b len prot p s)" "PAGE_SIZE dvd b"
      "u_mmap_base p \<le> b" "b + len \<le> u_mmap_limit p" "\<not> vm_range_overlaps b len p"
proof (cases "check_overflow base len \<or> base < u_mmap_base p \<or> u64 (base + len) > u_mmap_limit p \<or> base \<ge> u64 (base + len)")
  case True
  then have "mmap_place addr base len prot p s = Some (mmap_fail (if check_overflow base len then EINVAL else ENOMEM) p s)"
    by (cases "check_overflow base len") (simp_all add: mmap_place_def)
  then show ?thesis by (rule fail)
next
  case False
  then have c: "\<not> check_overflow base len" "\<not> (base < u_mmap_base p \<or> u64 (base + len) > u_mmap_limit p \<or> base \<ge> u64 (base + len))" by blast+
  then have lt: "base + len < 2 ^ 64" using al(3) by (simp add: check_overflow_def)
  then have u: "u64 (base + len) = base + len" by simp
  note eq = mmap_place_def[of addr base len prot p s, unfolded if_not_P[OF c(1)] if_not_P[OF c(2)]]
  show ?thesis
  proof (cases "addr \<noteq> 0")
    case True
    note eq1 = eq[unfolded if_P[OF True]]
    show ?thesis using fail[of EINVAL] at[of True base] c(2) al(1) u by (cases "vm_range_overlaps base len p") (simp_all add: eq1)
  next
    case False
    note eq1 = eq[unfolded if_not_P[OF False]]
    obtain r where r: "mmap_search base len p = Some r" "\<forall>b. r = Some b \<longrightarrow> PAGE_SIZE dvd b \<and> base \<le> b \<and> b + len < 2 ^ 64 \<and>
        (b + len \<le> u_mmap_limit p \<longrightarrow> \<not> vm_range_overlaps b len p)"
      using mmap_search_returns[OF al lt] by blast
    show ?thesis
    proof (cases r)
      case None
      then show ?thesis using fail[of ENOMEM] r(1) by (simp add: eq1)
    next
      case (Some b)
      then have b: "u64 (b + len) = b + len" "b < b + len" using r(2) al(3) by simp_all
      show ?thesis using fail[of ENOMEM] at[of False b] r Some b c(2) by (cases "b + len \<le> u_mmap_limit p") (simp_all add: eq1)
    qed
  qed
qed

text \<open>
  C27. An anonymous mapping is made of fresh, cleared memory in free address space: in a process whose window for mappings ends
  below \<^verbatim>\<open>2^47\<close>, \<^verbatim>\<open>kmmap\<close> returns, the regions of the process stay disjoint, and if it succeeds the range returned is page
  aligned, lies in the window, meets no earlier region, and each of its pages is mapped to a page frame that was free and is
  cleared, writable exactly if asked; every other address keeps its mapping.
\<close>

theorem kmmap_maps_fresh_range:
  assumes "space_ok p s" "regions_ok p" "u_mmap_limit p \<le> 2 ^ 47" "0 < u_mmap_base p" "len = page_align_up_size n" "0 < len"
  shows "\<exists>r p' s'. kmmap addr n prot flags p s = Some (r, p', s') \<and> regions_ok p' \<and>
    (\<forall>b. r = Some b \<longrightarrow> PAGE_SIZE dvd b \<and> u_mmap_base p \<le> b \<and> b + len \<le> u_mmap_limit p \<and>
      map region_key (u_regions p') = map region_key (u_regions p) @ [(b, len, VM_REGION_MMAP, prot_to_region_flags prot)] \<and>
      (\<forall>v < 2 ^ 48. if b \<le> v \<and> v < b + len
         then \<exists>frame. mapping p' s' v = Some (frame, prot AND PROT_WRITE \<noteq> 0, True) \<and>
                \<not> used (bitmap (frames (vpg s))) (frame div PAGE_SIZE) \<and> vdata s' (frame div PAGE_SIZE) = (\<lambda>_. 0)
         else mapping p' s' v = mapping p s v))"
proof -
  let ?p = "mmap_reset p"
  have sp: "space_ok ?p s" "\<And>v. mapping ?p s v = mapping p s v" using assms(1) by (simp_all add: space_ok_def mapping_def)
  have rg: "regions_ok ?p" "\<And>e. regions_ok (?p\<lparr>u_err_no := e\<rparr>)" "\<And>e. regions_ok (p\<lparr>u_err_no := e\<rparr>)"
    using assms(2) by (simp_all add: regions_ok_def)
  have fail: ?thesis if "kmmap addr n prot flags p s = Some (mmap_fail e q s)" "q = p \<or> q = ?p" for e q
    using that rg(2,3) by (auto simp: mmap_fail_def)
  define base where "base = (if addr \<noteq> 0 then page_down addr else page_align_up_addr (mmap_hint p))"
  have al: "PAGE_SIZE dvd base" "PAGE_SIZE dvd len" using page_align_dvd assms(5) by (simp_all add: base_def)
  show ?thesis
  proof (cases "u_user_mode p \<and> mmap_flags_supported flags \<and> \<not> check_overflow 0 len")
    case False
    then have "\<exists>e. kmmap addr n prot flags p s = Some (mmap_fail e p s)" by (auto simp: kmmap_def assms(5))
    then show ?thesis using fail by blast
  next
    case True
    then have k: "kmmap addr n prot flags p s = mmap_place addr base len prot ?p s" by (simp add: kmmap_def assms(5) base_def)
    from al assms(6) show ?thesis
    proof (cases rule: mmap_place_result[where addr = addr and prot = prot and p = ?p and s = s])
      case fail': (fail e)
      then show ?thesis by (intro fail[of e ?p]) (simp_all add: k)
    next
      case (at hint b)
      obtain r p' s' where m: "mmap_at hint b len prot ?p s = (r, p', s')" by (metis prod_cases3)
      have lim: "b + len \<le> 2 ^ 47" "b \<noteq> 0" using at(3,4) assms(3,4) by simp_all
      note res = mmap_at_result[OF sp(1) rg(1) at(5,2) al(2) assms(6) lim m, unfolded sp(2) mmap_reset_fields]
      have "kmmap addr n prot flags p s = Some (r, p', s')" using k at(1) m by simp
      moreover have "PAGE_SIZE dvd b" "u_mmap_base p \<le> b" "b + len \<le> u_mmap_limit p" using at(2-4) by simp_all
      ultimately show ?thesis using res by (intro exI[of _ r] exI[of _ p'] exI[of _ s']) auto
    qed
  qed
qed

section \<open>Unmapping\<close>

lemma unmap_frees:
  assumes "mapping p s v = Some (c * PAGE_SIZE, w, u)" "c * PAGE_SIZE < 2 ^ 64"
  shows "\<exists>s'. unmap_in p v s = (True, s') \<and> \<not> used (bitmap (frames (vpg s'))) c"
proof -
  obtain a where a: "u_root p \<noteq> 0" "w_pt (pmm_walk_address (u_root p) v (vpg s)) = Some a" "e_present (ent (vpg s) a)"
    "e_base (ent (vpg s) a) = c"
    using assms(1) by (auto simp: mapping_def pmm_get_mapping_def split: if_splits option.splits)
  have "\<exists>k. pmm_unmap_page_in_root (u_root p) v (vpg s) = (True, free_frame (c * PAGE_SIZE) k)"
    using a by (simp add: pmm_unmap_page_in_root_def pmm_unmap_page_internal_def Let_def) (rule exI, rule refl)
  then show ?thesis using assms(2) by (auto simp: unmap_in_def free_frame_def pmm_free_pages_def)
qed

text \<open>
  C29. Detaching shared memory frees pages that others still use: once a page of shared memory was mapped into a process, unmapping
  the range, as \<^verbatim>\<open>proc_shm_detach\<close> does, succeeds and gives the page itself back to the page allocator, although the shared region
  and every other process attached to it go on referring to it.
\<close>

theorem shm_detach_frees_shared_page:
  assumes "space_ok p s" "regions_ok p" "PAGE_SIZE dvd base" "base + PAGE_SIZE \<le> 2 ^ 47" "c * PAGE_SIZE < 2 ^ 64"
    and "vm_map_shared [c * PAGE_SIZE] base flags w p s = (True, p1, s1)"
  shows "\<exists>p2 s2. vm_unmap base PAGE_SIZE p1 s1 = (True, p2, s2) \<and> \<not> used (bitmap (frames (vpg s2))) c"
proof -
  let ?u = "flags AND VM_REGION_FLAG_USER \<noteq> 0"
  have ps: "u64 PAGE_SIZE = PAGE_SIZE" "0 < PAGE_SIZE" "base + PAGE_SIZE < 2 ^ 64" using assms(4) by (simp_all add: PAGE_SIZE_def)
  obtain q where ov: "\<not> vm_range_overlaps base PAGE_SIZE p" and add: "vm_region_add base PAGE_SIZE VM_REGION_SHARED flags p = (True, q)"
    using assms(6) ps by (auto simp: vm_map_shared_def Let_def split: if_splits prod.splits bool.splits)
  define i where "i = length (u_regions p)"
  note r = vm_region_add_result[OF add]
  have f: "vm_region_find base q = Some i" using region_add_ok(2)[OF assms(2) ov ps(2,3), of q] r(1) by (simp add: i_def)
  obtain s' where m: "map_in q (page_at base 0) (c * PAGE_SIZE) w ?u s = (True, s')"
    and p1: "p1 = upd_region i (\<lambda>r. r\<lparr>vr_committed_base := base, vr_committed_top := u64 (base + PAGE_SIZE)\<rparr>)
        (upd_region i (vm_region_note_mapping (page_at base 0) PAGE_SIZE) q)" "s1 = s'"
    using assms(6) ps ov add f by (auto simp: vm_map_shared_def Let_def split: if_splits prod.splits bool.splits)
  have e: "map region_key (u_regions p1) = map region_key (u_regions q)" "u_root p1 = u_root q" "s1 = s'"
    using p1 by (simp_all add: region_key_def vm_region_note_mapping_def)
  have sp: "space_ok q s" using assms(1) r(2) by (simp add: space_ok_def)
  have v: "page_at base 0 = base" "page_down base = base" "base < 2 ^ 48" using assms(3,4) by (simp_all add: page_at_def page_down_def)
  have "mapping q s' base = Some (c * PAGE_SIZE, w, ?u)" using map_in_mapping(3)[OF sp m[unfolded v(1)] v(3) v(3)] by simp
  then have mp: "mapping p1 s1 base = Some (c * PAGE_SIZE, w, ?u)" using e by (simp add: mapping_def)
  obtain s2 where un: "unmap_in p1 base s1 = (True, s2)" "\<not> used (bitmap (frames (vpg s2))) c" using unmap_frees[OF mp assms(5)] by blast
  have "vm_region_find base p1 = Some i" using vm_region_find_keys[OF e(1)] f by simp
  then show ?thesis using un mp ps(2) v
    by (simp add: vm_unmap_def Let_def page_align_up_def unmap_page_def mapping_def)
qed

section \<open>An example process\<close>

lemma used_upto: "n < 64 \<Longrightarrow> used (bitmap (pmm_upto n)) q \<longleftrightarrow> q < n"
  by (cases "q < 64") (auto simp: used_def pmm_upto_def bit_simps div_eq_0_iff)

lemma alloc_upto:
  assumes "0 < n" "n < 63"
  shows "pmm_alloc_pages 1 (pmm_upto n) = (n * PAGE_SIZE, pmm_upto (Suc n))"
proof -
  have al: "alignment_pages PAGE_SIZE = 1" by (simp add: alignment_pages_def PAGE_SIZE_def)
  have su: "suitable (bitmap (pmm_upto n)) 1 1 (2 ^ 64 - 1) c \<longleftrightarrow> n \<le> c \<and> c < npages" for c
  proof -
    have "(\<forall>pg. c \<le> pg \<and> pg < c + 1 \<longrightarrow> \<not> used (bitmap (pmm_upto n)) pg) \<longleftrightarrow> n \<le> c"
      unfolding used_upto[OF less_trans[OF assms(2), of 64, simplified]] by force
    moreover have "c + 1 \<le> npages \<Longrightarrow> (c + 1) * PAGE_SIZE - 1 \<le> 2 ^ 64 - 1" by (simp add: npages_def PAGE_BITMAP_SIZE_def PAGE_SIZE_def)
    ultimately show ?thesis unfolding suitable_def by auto
  qed
  have "suitable (bitmap (pmm_upto n)) 1 1 (2 ^ 64 - 1) n" unfolding su using assms by (simp add: npages_def PAGE_BITMAP_SIZE_def)
  moreover obtain b m where r: "pmm_alloc_internal 1 PAGE_SIZE (2 ^ 64 - 1) (pmm_upto n) = (b, m)" by fastforce
  ultimately obtain c where c: "n \<le> c" "c \<le> n" "b = c * PAGE_SIZE" "m = fold (\<lambda>page. set_page_used (c * PAGE_SIZE + page * PAGE_SIZE)) [0..<1] (pmm_upto n)"
    using alloc_spec[OF zero_less_one, where alignment = PAGE_SIZE and mx = "2 ^ 64 - 1" and m = "pmm_upto n"] unfolding al su r prod.case by blast
  have "bitmap (set_page_used (n * PAGE_SIZE) (pmm_upto n)) = bitmap (pmm_upto (Suc n))"
  proof (rule ext, rule bit_word_eqI)
    fix i k assume "k < LENGTH(64)"
    moreover have "used (bitmap (set_page_used (n * PAGE_SIZE) (pmm_upto n))) q = used (bitmap (pmm_upto (Suc n))) q" for q
      using used_upto[of n q] used_upto[of "Suc n" q] assms by auto
    from this[of "i * 64 + k"] show "bit (bitmap (set_page_used (n * PAGE_SIZE) (pmm_upto n)) i) k = bit (bitmap (pmm_upto (Suc n)) i) k"
      using calculation by (simp add: used_def)
  qed
  moreover have "\<not> used (bitmap (pmm_upto n)) n" using used_upto[of n n] assms by simp
  then have "free_page_count (set_page_used (n * PAGE_SIZE) (pmm_upto n)) = npages - Suc n"
      "total_usable_pages (set_page_used (n * PAGE_SIZE) (pmm_upto n)) = npages"
    using test_bit[of "n mod 64"] by (auto simp: set_page_used_def Let_def used_def pmm_upto_def)
  ultimately have "set_page_used (n * PAGE_SIZE) (pmm_upto n) = pmm_upto (Suc n)"
    by (simp add: pmm_upto_def)
  then show ?thesis using r c by (simp add: pmm_alloc_pages_def)
qed

lemma demo_space_ok: "space_ok demo_vproc demo_vsys"
proof -
  have "walk (tabs (vpg demo_vsys)) p xs = (if xs = [] then Some p else None)" for p xs
    by (cases xs) (simp_all add: demo_vsys_def zero_entry_def)
  then show ?thesis
    by (auto simp: space_ok_def paging_inv_def tree_def table_pages_def demo_vsys_def demo_vproc_def zero_entry_def used_upto PAGE_SIZE_def
        split: if_splits)
qed

lemma demo_mapping: "mapping demo_vproc demo_vsys v = None"
  by (simp add: mapping_def pmm_get_mapping_def pmm_walk_address_def demo_vsys_def demo_vproc_def zero_entry_def ent_def Let_def)

lemma demo_find: "vm_region_find a demo_vproc = (if 0x700000 \<le> a \<and> a < 0x710000 then Some 0 else None)"
  by (simp add: vm_region_find_def demo_vproc_def region_limit_def)

lemma demo_map:
  assumes "pa mod PAGE_SIZE = 0"
  shows "\<exists>k. pmm_map_page_in_root 4096 v pa w True \<lparr>tabs = (\<lambda>_ _. zero_entry), frames = pmm_upto 3, cr3_root = 4096, kernel_cr3_phys = 4096\<rparr> = (True, k)"
proof -
  note al = alloc_upto[of 3, simplified] alloc_upto[of 4, simplified] alloc_upto[of 5, simplified]
  show ?thesis using assms
    by (simp add: pmm_map_page_in_root_def ensure_table_def Let_def ent_def set_ent_def zero_entry_def al PAGE_SIZE_def)
qed

lemma demo_commit: "\<exists>p s. commit_page 0 v demo_vproc demo_vsys = (True, p, s) \<and> length (u_segments p) = 1"
proof -
  have al: "alloc_frames 1 demo_vsys = (2 * PAGE_SIZE, demo_vsys\<lparr>vpg := (vpg demo_vsys)\<lparr>frames := pmm_upto 3\<rparr>\<rparr>)"
    using alloc_upto[of 2] by (simp add: alloc_frames_def demo_vsys_def)
  obtain k where k: "pmm_map_page_in_root 4096 v (2 * PAGE_SIZE) (vr_flags (u_regions demo_vproc ! 0) AND VM_REGION_FLAG_WRITE \<noteq> 0) True
      \<lparr>tabs = (\<lambda>_ _. zero_entry), frames = pmm_upto 3, cr3_root = 4096, kernel_cr3_phys = 4096\<rparr> = (True, k)"
    using demo_map by (metis mod_mult_self2_is_0)
  have v: "u_root demo_vproc = 4096" "u_segments demo_vproc = []" by (simp_all add: demo_vproc_def)
  have vp: "vpg (zero_pages ph n (demo_vsys\<lparr>vpg := (vpg demo_vsys)\<lparr>frames := pmm_upto 3\<rparr>\<rparr>)) =
      \<lparr>tabs = (\<lambda>_ _. zero_entry), frames = pmm_upto 3, cr3_root = 4096, kernel_cr3_phys = 4096\<rparr>" for ph n
    by (simp add: zero_pages_def demo_vsys_def)
  have nz: "2 * PAGE_SIZE \<noteq> 0" by simp
  show ?thesis unfolding commit_page_def al prod.case map_in_def v vp k if_not_P[OF nz]
    by (simp add: proc_register_user_segment_def v PROC_MAX_USER_SEGMENTS_def upd_region_def)
qed

lemma demo_fault: "\<exists>p s. vm_region_handle_page_fault 0x708123 False True True demo_vproc demo_vsys = (True, p, s) \<and> length (u_segments p) = 1"
proof -
  have f: "vm_region_find 0x708123 demo_vproc = Some 0" by (simp add: demo_find)
  have "vr_flags (u_regions demo_vproc ! 0) AND VM_REGION_FLAG_WRITE \<noteq> 0" "vr_flags (u_regions demo_vproc ! 0) AND VM_REGION_FLAG_GROW_DOWN \<noteq> 0"
    "\<not> page_down 0x708123 < vr_base (u_regions demo_vproc ! 0)" "\<not> vr_committed_base (u_regions demo_vproc ! 0) \<le> page_down 0x708123"
    by (simp_all add: demo_vproc_def VM_REGION_FLAG_WRITE_def VM_REGION_FLAG_GROW_DOWN_def VM_REGION_FLAG_USER_def page_down_def PAGE_SIZE_def)
  then show ?thesis using demo_commit by (simp add: vm_region_handle_page_fault_def f vm_region_grow_down_def Let_def)
qed

theorem stack_gap_faults_forever_witness:
  "\<exists>p s. vm_region_handle_page_fault 0x70c000 False True True p s = (True, p, s) \<and> mapping p s 0x70c000 = None"
proof -
  obtain p s where r: "vm_region_handle_page_fault 0x708123 False True True demo_vproc demo_vsys = (True, p, s)" using demo_fault by blast
  have "vr_flags (u_regions demo_vproc ! 0) AND VM_REGION_FLAG_GROW_DOWN \<noteq> 0"
    "page_down 0x708123 < page_down 0x70c000" "page_down 0x70c000 < vr_committed_base (u_regions demo_vproc ! 0)"
    by (simp_all add: demo_vproc_def VM_REGION_FLAG_WRITE_def VM_REGION_FLAG_GROW_DOWN_def VM_REGION_FLAG_USER_def page_down_def PAGE_SIZE_def)
  from stack_gap_faults_forever[OF demo_space_ok _ _ this _ demo_mapping r] show ?thesis by (auto simp: demo_find)
qed

theorem page_fault_maps_zero_page_witness:
  "\<exists>p s frame. vm_region_handle_page_fault 0x708123 False True True demo_vproc demo_vsys = (True, p, s) \<and>
     mapping p s 0x708123 = Some (frame, True, True) \<and> vdata s (frame div PAGE_SIZE) = (\<lambda>_. 0)"
proof -
  obtain p s where r: "vm_region_handle_page_fault 0x708123 False True True demo_vproc demo_vsys = (True, p, s)" and n: "length (u_segments p) = 1"
    using demo_fault by blast
  have ne: "(p, s) \<noteq> (demo_vproc, demo_vsys)" using n by (auto simp: demo_vproc_def)
  have w: "(vr_flags (u_regions demo_vproc ! 0) AND VM_REGION_FLAG_WRITE \<noteq> 0) = True"
    by (simp add: demo_vproc_def VM_REGION_FLAG_WRITE_def VM_REGION_FLAG_GROW_DOWN_def VM_REGION_FLAG_USER_def)
  have "vm_region_find 0x708123 demo_vproc = Some 0" by (simp add: demo_find)
  from page_fault_maps_zero_page[OF demo_space_ok this _ demo_mapping r ne] show ?thesis unfolding w using r by auto
qed

theorem kmmap_maps_fresh_range_witness:
  "\<exists>r p' s'. kmmap 0 10000 (PROT_READ OR PROT_WRITE) (MAP_PRIVATE OR MAP_ANONYMOUS) demo_vproc demo_vsys = Some (r, p', s') \<and> regions_ok p' \<and>
     (\<forall>b. r = Some b \<longrightarrow> 0x40000000 \<le> b \<and> (\<exists>frame. mapping p' s' (b + 5000) = Some (frame, True, True) \<and> vdata s' (frame div PAGE_SIZE) = (\<lambda>_. 0)))"
proof -
  have rg: "regions_ok demo_vproc" "u_mmap_limit demo_vproc \<le> 2 ^ 47" "0 < u_mmap_base demo_vproc"
    by (simp_all add: regions_ok_def demo_vproc_def)
  have len: "12288 = page_align_up_size 10000" by (simp add: page_align_up_size_def PAGE_SIZE_def)
  have w: "((PROT_READ OR PROT_WRITE) AND PROT_WRITE \<noteq> 0) = True" by (simp add: PROT_READ_def PROT_WRITE_def)
  obtain r p' s' where k: "kmmap 0 10000 (PROT_READ OR PROT_WRITE) (MAP_PRIVATE OR MAP_ANONYMOUS) demo_vproc demo_vsys = Some (r, p', s')" "regions_ok p'"
    and m: "\<forall>b. r = Some b \<longrightarrow> PAGE_SIZE dvd b \<and> u_mmap_base demo_vproc \<le> b \<and> b + 12288 \<le> u_mmap_limit demo_vproc \<and>
      map region_key (u_regions p') = map region_key (u_regions demo_vproc) @ [(b, 12288, VM_REGION_MMAP, prot_to_region_flags (PROT_READ OR PROT_WRITE))] \<and>
      (\<forall>v < 2 ^ 48. if b \<le> v \<and> v < b + 12288
         then \<exists>frame. mapping p' s' v = Some (frame, True, True) \<and>
                \<not> used (bitmap (frames (vpg demo_vsys))) (frame div PAGE_SIZE) \<and> vdata s' (frame div PAGE_SIZE) = (\<lambda>_. 0)
         else mapping p' s' v = mapping demo_vproc demo_vsys v)"
    using kmmap_maps_fresh_range[OF demo_space_ok rg len, of 0 "PROT_READ OR PROT_WRITE" "MAP_PRIVATE OR MAP_ANONYMOUS", unfolded w] by auto
  have "0x40000000 \<le> b \<and> (\<exists>frame. mapping p' s' (b + 5000) = Some (frame, True, True) \<and> vdata s' (frame div PAGE_SIZE) = (\<lambda>_. 0))" if "r = Some b" for b
  proof -
    from m that have b: "u_mmap_base demo_vproc \<le> b" "b + 12288 \<le> u_mmap_limit demo_vproc" by blast+
    then have "b + 5000 < 2 ^ 48" using rg(2) by simp
    with m that have "if b \<le> b + 5000 \<and> b + 5000 < b + 12288
         then \<exists>frame. mapping p' s' (b + 5000) = Some (frame, True, True) \<and>
                \<not> used (bitmap (frames (vpg demo_vsys))) (frame div PAGE_SIZE) \<and> vdata s' (frame div PAGE_SIZE) = (\<lambda>_. 0)
         else mapping p' s' (b + 5000) = mapping demo_vproc demo_vsys (b + 5000)" by blast
    then show ?thesis using b(1) by (auto simp: demo_vproc_def)
  qed
  then show ?thesis using k by blast
qed

theorem shm_detach_frees_shared_page_witness:
  "\<exists>p1 s1 p2 s2. vm_map_shared [2 * PAGE_SIZE] 0x50000000 VM_REGION_FLAG_USER True demo_vproc (demo_vsys\<lparr>vpg := (vpg demo_vsys)\<lparr>frames := pmm_upto 3\<rparr>\<rparr>) = (True, p1, s1) \<and>
     vm_unmap 0x50000000 PAGE_SIZE p1 s1 = (True, p2, s2) \<and> \<not> used (bitmap (frames (vpg s2))) 2"
proof -
  let ?s = "demo_vsys\<lparr>vpg := (vpg demo_vsys)\<lparr>frames := pmm_upto 3\<rparr>\<rparr>"
  have rg: "regions_ok demo_vproc" by (simp add: regions_ok_def demo_vproc_def)
  have "alloc_frames 1 demo_vsys = (2 * PAGE_SIZE, ?s)" using alloc_upto[of 2] by (simp add: alloc_frames_def demo_vsys_def)
  from alloc_frames_space[OF this zero_less_one] demo_space_ok have sp: "space_ok demo_vproc ?s" by blast
  have c: "PAGE_SIZE dvd 0x50000000" "0x50000000 + PAGE_SIZE \<le> 2 ^ 47" "2 * PAGE_SIZE < 2 ^ 64" by (simp_all add: PAGE_SIZE_def)
  obtain p1 s1 where m: "vm_map_shared [2 * PAGE_SIZE] 0x50000000 VM_REGION_FLAG_USER True demo_vproc ?s = (True, p1, s1)"
  proof -
    obtain k where k: "pmm_map_page_in_root 4096 0x50000000 (2 * PAGE_SIZE) True True
        \<lparr>tabs = (\<lambda>_ _. zero_entry), frames = pmm_upto 3, cr3_root = 4096, kernel_cr3_phys = 4096\<rparr> = (True, k)"
      using demo_map by (metis mod_mult_self2_is_0)
    then have mi: "map_in q 0x50000000 (2 * PAGE_SIZE) True True ?s = (True, ?s\<lparr>vpg := k\<rparr>)" if "u_root q = 4096" for q
      using that by (simp add: map_in_def demo_vsys_def)
    have "\<exists>p1. vm_map_shared [2 * PAGE_SIZE] 0x50000000 VM_REGION_FLAG_USER True demo_vproc ?s = (True, p1, ?s\<lparr>vpg := k\<rparr>)"
      by (simp add: vm_map_shared_def vm_range_overlaps_def vm_region_add_def vm_region_find_def region_limit_def demo_vproc_def mi page_at_def
          VM_REGION_FLAG_USER_def VM_REGION_FLAG_GROW_DOWN_def PROC_MAX_VM_REGIONS_def PAGE_SIZE_def[THEN arg_cong[of _ _ u64]])
    then show ?thesis using that by blast
  qed
  from shm_detach_frees_shared_page[OF sp rg c m] m show ?thesis by blast
qed

end
