(* ===== verification/Kheap.thy ===== *)
theory Kheap
  imports Paging
begin

text \<open>
  The kernel heap: \<^verbatim>\<open>src/kernel/mem/kmalloc.c\<close>.

  The doubly linked lists of the code are lists here: the heap's nodes in list order (\<open>h_nodes\<close>), the
  regions of virtual memory they were cut from (\<open>h_regions\<close>), and the virtual ranges free for re-use
  (\<open>h_vranges\<close>). The descriptors of regions and ranges come from arrays of \<^verbatim>\<open>HEAP_REGION_CAP\<close>
  entries; a descriptor is in use exactly while it is linked, so an array is exhausted when its list
  has that length. The heap grows through the page allocator and the page tables of \<open>h_pg\<close>.
  \<open>h_mem\<close> holds the bytes of the payloads; \<open>h_current\<close> tells whether there is a current process, whose
  \<^verbatim>\<open>err_no\<close> is \<open>h_err\<close>. A pointer handed to \<^verbatim>\<open>kfree\<close> or \<^verbatim>\<open>krealloc\<close> that is not
  that of a node is one whose header fails the test of the magic number. The whole of each function
  runs under \<^verbatim>\<open>heap_lock\<close>.
\<close>

definition HEAP_ALIGNMENT :: nat where
  "HEAP_ALIGNMENT = 16"

definition HEAP_MINIMUM_PAGES :: nat where
  "HEAP_MINIMUM_PAGES = 1"

definition HEAP_REGION_CAP :: nat where
  "HEAP_REGION_CAP = 8192"

definition HEAP_HEADER_SIZE :: nat where
  "HEAP_HEADER_SIZE = 32"

definition KHEAP_BASE :: nat where
  "KHEAP_BASE = 0xffffc00000000000"

definition KHEAP_SIZE :: nat where
  "KHEAP_SIZE = 256 * 1024 * 1024"

definition KHEAP_LIMIT :: nat where
  "KHEAP_LIMIT = KHEAP_BASE + KHEAP_SIZE"

record heap_node =
  hn_addr :: nat
  hn_size :: nat
  hn_free :: bool

record heap_region =
  hr_base :: nat
  hr_size :: nat
  hr_phys :: nat
  hr_pages :: nat
  hr_managed :: bool

type_synonym vrange = "nat \<times> nat"

record kheap =
  h_nodes :: "heap_node list"
  h_regions :: "heap_region list"
  h_vranges :: "vrange list"
  h_next_vaddr :: nat
  h_freed :: bool
  h_pg :: paging
  h_mem :: "nat \<Rightarrow> byte"
  h_current :: bool
  h_err :: "errno option"

definition align_down :: "nat \<Rightarrow> nat \<Rightarrow> nat" where
  "align_down x alignment = x div alignment * alignment"

definition align_up :: "nat \<Rightarrow> nat \<Rightarrow> nat" where
  "align_up x alignment = u64 (x + (alignment - 1)) div alignment * alignment"

section \<open>Virtual ranges\<close>

text \<open>Merging a range with those that directly follow it.\<close>

fun vrange_merge :: "vrange \<Rightarrow> vrange list \<Rightarrow> vrange list" where
  "vrange_merge (b, n) [] = [(b, n)]"
| "vrange_merge (b, n) ((b', n') # rs) = (if b + n = b' then vrange_merge (b, n + n') rs else (b, n) # (b', n') # rs)"

fun vrange_insert :: "nat \<Rightarrow> nat \<Rightarrow> bool \<Rightarrow> vrange list \<Rightarrow> vrange list" where
  "vrange_insert base n pool [] = (if pool then [(base, n)] else [])"
| "vrange_insert base n pool ((b, k) # rs) =
     (if b < base
      then (if (case rs of [] \<Rightarrow> True | (b', _) # _ \<Rightarrow> \<not> b' < base) \<and> b + k = base
            then vrange_merge (b, k + n) rs
            else (b, k) # vrange_insert base n pool rs)
      else if pool then vrange_merge (base, n) ((b, k) # rs) else (b, k) # rs)"

definition heap_virtual_release :: "nat \<Rightarrow> nat \<Rightarrow> kheap \<Rightarrow> kheap" where
  "heap_virtual_release base n h =
     (if n = 0 then h
      else h\<lparr>h_vranges := vrange_insert base n (length (h_vranges h) < HEAP_REGION_CAP) (h_vranges h)\<rparr>)"

fun vrange_take :: "nat \<Rightarrow> vrange list \<Rightarrow> (nat \<times> vrange list) option" where
  "vrange_take n [] = None"
| "vrange_take n ((b, k) # rs) =
     (if k \<ge> n then Some (b, if k = n then rs else (b + n, k - n) # rs)
      else map_option (\<lambda>(a, rs'). (a, (b, k) # rs')) (vrange_take n rs))"

text \<open>The address, and whether it came from a free range (otherwise the caller advances \<^verbatim>\<open>heap_next_vaddr\<close>).\<close>

definition heap_virtual_acquire :: "nat \<Rightarrow> kheap \<Rightarrow> (nat \<times> bool \<times> kheap) option" where
  "heap_virtual_acquire n h =
     (if n = 0 then None
      else case vrange_take n (h_vranges h) of
             Some (a, rs) \<Rightarrow> Some (a, True, h\<lparr>h_vranges := rs\<rparr>)
           | None \<Rightarrow> if u64 (h_next_vaddr h + n) > KHEAP_LIMIT then None else Some (h_next_vaddr h, False, h))"

section \<open>Mapping regions\<close>

fun unmap_pages :: "bool \<Rightarrow> nat \<Rightarrow> nat list \<Rightarrow> paging \<Rightarrow> paging" where
  "unmap_pages free_it virt [] k = k"
| "unmap_pages free_it virt (p # ps) k =
     unmap_pages free_it virt ps
       (snd ((if free_it then pmm_unmap_page_in_root else pmm_remove_mapping_in_root) (cr3_root k) (virt + p * PAGE_SIZE) k))"

definition heap_unmap_pages :: "nat \<Rightarrow> nat \<Rightarrow> paging \<Rightarrow> paging" where
  "heap_unmap_pages virt n k = unmap_pages True virt [0..<n] k"

text \<open>The loop of \<^verbatim>\<open>heap_map_region\<close>: on a failed page the ones before it are unmapped again.\<close>

fun map_pages :: "nat \<Rightarrow> nat \<Rightarrow> nat list \<Rightarrow> paging \<Rightarrow> bool \<times> paging" where
  "map_pages virt phys [] k = (True, k)"
| "map_pages virt phys (p # ps) k =
     (case pmm_map_page (virt + p * PAGE_SIZE) (phys + p * PAGE_SIZE) True False k of
        (True, k1) \<Rightarrow> map_pages virt phys ps k1
      | (False, k1) \<Rightarrow> (False, unmap_pages False virt [0..<p] k1))"

definition heap_map_region :: "nat \<Rightarrow> nat \<Rightarrow> kheap \<Rightarrow> nat option \<times> kheap" where
  "heap_map_region phys page_count h =
     (let bytes = page_count * PAGE_SIZE in
      case heap_virtual_acquire bytes h of
        None \<Rightarrow> (None, h)
      | Some (virt, used_free, h1) \<Rightarrow>
          (case map_pages virt phys [0..<page_count] (h_pg h1) of
             (False, k) \<Rightarrow>
               (let h2 = h1\<lparr>h_pg := k\<rparr> in (None, if used_free then heap_virtual_release virt bytes h2 else h2))
           | (True, k) \<Rightarrow>
               (Some virt, h1\<lparr>h_pg := k, h_next_vaddr := (if used_free then h_next_vaddr h1 else h_next_vaddr h1 + bytes)\<rparr>)))"

section \<open>Regions\<close>

definition heap_register_region :: "heap_region \<Rightarrow> kheap \<Rightarrow> bool \<times> kheap" where
  "heap_register_region r h =
     (if length (h_regions h) \<ge> HEAP_REGION_CAP then (False, h) else (True, h\<lparr>h_regions := h_regions h @ [r]\<rparr>))"

definition heap_unregister_region :: "heap_region \<Rightarrow> kheap \<Rightarrow> kheap" where
  "heap_unregister_region r h = h\<lparr>h_regions := remove1 r (h_regions h)\<rparr>"

definition heap_region_from_node :: "heap_node \<Rightarrow> kheap \<Rightarrow> heap_region option" where
  "heap_region_from_node n h =
     find (\<lambda>r. hr_base r \<le> hn_addr n \<and> hn_addr n < hr_base r + hr_size r) (h_regions h)"

definition heap_region_contains_other_nodes :: "heap_region \<Rightarrow> heap_node \<Rightarrow> kheap \<Rightarrow> bool" where
  "heap_region_contains_other_nodes r ex h \<longleftrightarrow>
     (\<exists>n\<in>set (h_nodes h). hn_addr n \<noteq> hn_addr ex \<and> hr_base r \<le> hn_addr n \<and> hn_addr n < hr_base r + hr_size r)"

definition heap_release_region_if_unused :: "heap_node \<Rightarrow> kheap \<Rightarrow> kheap" where
  "heap_release_region_if_unused n h =
     (case heap_region_from_node n h of
        None \<Rightarrow> h
      | Some r \<Rightarrow>
          if \<not> hr_managed r \<or> \<not> hn_free n \<or> hn_addr n \<noteq> hr_base r \<or> hn_size n + HEAP_HEADER_SIZE \<noteq> hr_size r
             \<or> heap_region_contains_other_nodes r n h
          then h
          else let h1 = h\<lparr>h_nodes := remove1 n (h_nodes h), h_pg := heap_unmap_pages (hr_base r) (hr_pages r) (h_pg h)\<rparr>
               in heap_unregister_region r (heap_virtual_release (hr_base r) (hr_size r) h1))"

definition mem_zero :: "nat \<Rightarrow> nat \<Rightarrow> kheap \<Rightarrow> kheap" where
  "mem_zero a n h = h\<lparr>h_mem := (\<lambda>x. if a \<le> x \<and> x < a + n then 0 else h_mem h x)\<rparr>"

text \<open>\<^verbatim>\<open>heap_grow\<close> once the number of pages and of bytes is fixed.\<close>

definition heap_grow_by :: "nat \<Rightarrow> nat \<Rightarrow> kheap \<Rightarrow> bool \<times> kheap" where
  "heap_grow_by page_count requested h =
     (case pmm_alloc_pages page_count (frames (h_pg h)) of
        (phys, m) \<Rightarrow>
          (let h1 = h\<lparr>h_pg := (h_pg h)\<lparr>frames := m\<rparr>\<rparr> in
           if phys = 0 then (False, h1)
           else case heap_map_region phys page_count h1 of
             (None, h2) \<Rightarrow> (False, h2\<lparr>h_pg := (h_pg h2)\<lparr>frames := pmm_free_pages phys page_count (frames (h_pg h2))\<rparr>\<rparr>)
           | (Some base, h2) \<Rightarrow>
               (let h3 = mem_zero base requested h2;
                    n = \<lparr>hn_addr = base, hn_size = u32 (requested - HEAP_HEADER_SIZE), hn_free = True\<rparr>;
                    r = \<lparr>hr_base = base, hr_size = requested, hr_phys = phys, hr_pages = page_count, hr_managed = True\<rparr>
                in case heap_register_region r h3 of
                     (True, h4) \<Rightarrow> (True, h4\<lparr>h_nodes := h_nodes h4 @ [n]\<rparr>)
                   | (False, h4) \<Rightarrow>
                       (let h5 = heap_virtual_release base requested
                                   (h4\<lparr>h_pg := heap_unmap_pages base page_count (h_pg h4)\<rparr>)
                        in (False, h5\<lparr>h_pg := (h_pg h5)\<lparr>frames := pmm_free_pages phys page_count (frames (h_pg h5))\<rparr>\<rparr>)))))"

definition heap_grow :: "nat \<Rightarrow> kheap \<Rightarrow> bool \<times> kheap" where
  "heap_grow minimum h =
     (let requested = align_up (if minimum \<noteq> 0 then minimum else PAGE_SIZE) PAGE_SIZE
      in if requested div PAGE_SIZE < HEAP_MINIMUM_PAGES
         then heap_grow_by HEAP_MINIMUM_PAGES (HEAP_MINIMUM_PAGES * PAGE_SIZE) h
         else heap_grow_by (requested div PAGE_SIZE) requested h)"

section \<open>Allocating\<close>

definition heap_set_errno :: "errno \<Rightarrow> kheap \<Rightarrow> kheap" where
  "heap_set_errno e h = (if h_current h then h\<lparr>h_err := Some e\<rparr> else h)"

definition heap_find_suitable_node :: "nat \<Rightarrow> kheap \<Rightarrow> heap_node option" where
  "heap_find_suitable_node n h = find (\<lambda>x. hn_free x \<and> hn_size x \<ge> n) (h_nodes h)"

definition heap_split_node :: "nat \<Rightarrow> heap_node \<Rightarrow> heap_node list" where
  "heap_split_node n x =
     (if hn_size x \<ge> n + HEAP_HEADER_SIZE + HEAP_ALIGNMENT
      then [\<lparr>hn_addr = hn_addr x, hn_size = n, hn_free = False\<rparr>,
            \<lparr>hn_addr = hn_addr x + HEAP_HEADER_SIZE + n, hn_size = hn_size x - n - HEAP_HEADER_SIZE, hn_free = True\<rparr>]
      else [x\<lparr>hn_free := False\<rparr>])"

definition replace_node :: "heap_node \<Rightarrow> heap_node list \<Rightarrow> heap_node list \<Rightarrow> heap_node list" where
  "replace_node x ys ns = takeWhile (\<lambda>n. n \<noteq> x) ns @ ys @ tl (dropWhile (\<lambda>n. n \<noteq> x) ns)"

definition kmalloc :: "nat \<Rightarrow> kheap \<Rightarrow> nat option \<times> kheap" where
  "kmalloc n h =
     (if n = 0 then (None, h)
      else let sz = align_up n HEAP_ALIGNMENT;
               take = (\<lambda>x h. (Some (hn_addr x + HEAP_HEADER_SIZE), h\<lparr>h_nodes := replace_node x (heap_split_node sz x) (h_nodes h)\<rparr>))
           in case heap_find_suitable_node sz h of
                Some x \<Rightarrow> take x h
              | None \<Rightarrow>
                  (case heap_grow (u64 (sz + HEAP_HEADER_SIZE)) h of
                     (False, h1) \<Rightarrow> (None, heap_set_errno ENOMEM h1)
                   | (True, h1) \<Rightarrow>
                       (case heap_find_suitable_node sz h1 of
                          None \<Rightarrow> (None, heap_set_errno ENOMEM h1)
                        | Some x \<Rightarrow> take x h1)))"

definition kcalloc :: "nat \<Rightarrow> nat \<Rightarrow> kheap \<Rightarrow> nat option \<times> kheap" where
  "kcalloc nelem elsize h =
     (if nelem = 0 \<or> elsize = 0 then (None, h)
      else if nelem > (2 ^ 64 - 1) div elsize then (None, heap_set_errno ENOMEM h)
      else case kmalloc (nelem * elsize) h of
             (None, h1) \<Rightarrow> (None, h1)
           | (Some p, h1) \<Rightarrow> (Some p, mem_zero p (nelem * elsize) h1))"

section \<open>Freeing\<close>

definition nodes_are_contiguous :: "heap_node \<Rightarrow> heap_node \<Rightarrow> bool" where
  "nodes_are_contiguous l r \<longleftrightarrow> hn_addr l + HEAP_HEADER_SIZE + hn_size l = hn_addr r"

definition absorb :: "heap_node \<Rightarrow> heap_node \<Rightarrow> heap_node" where
  "absorb l r = l\<lparr>hn_size := u32 (hn_size l + (hn_size r + HEAP_HEADER_SIZE))\<rparr>"

fun heap_merge_forward :: "heap_node \<Rightarrow> heap_node list \<Rightarrow> heap_node \<times> heap_node list" where
  "heap_merge_forward n [] = (n, [])"
| "heap_merge_forward n (m # ms) =
     (if hn_free m \<and> nodes_are_contiguous n m then heap_merge_forward (absorb n m) ms else (n, m # ms))"

definition free_node :: "heap_node list \<Rightarrow> heap_node \<Rightarrow> heap_node list \<Rightarrow> heap_node \<times> heap_node list" where
  "free_node pre n post =
     (let n1 = n\<lparr>hn_free := True\<rparr> in
      if pre \<noteq> [] \<and> hn_free (last pre) \<and> nodes_are_contiguous (last pre) n1
      then (case heap_merge_forward (absorb (last pre) n1) post of (x, post') \<Rightarrow> (x, butlast pre @ x # post'))
      else (case heap_merge_forward n1 post of (x, post') \<Rightarrow> (x, pre @ x # post')))"

definition node_at :: "nat \<Rightarrow> kheap \<Rightarrow> heap_node option" where
  "node_at a h = find (\<lambda>n. hn_addr n = a) (h_nodes h)"

definition kfree :: "nat option \<Rightarrow> kheap \<Rightarrow> kheap" where
  "kfree ptr h =
     (case ptr of
        None \<Rightarrow> h
      | Some p \<Rightarrow>
          (case node_at (p - HEAP_HEADER_SIZE) h of
             None \<Rightarrow> h
           | Some n \<Rightarrow>
               if hn_free n then h
               else (case free_node (takeWhile (\<lambda>m. m \<noteq> n) (h_nodes h)) n (tl (dropWhile (\<lambda>m. m \<noteq> n) (h_nodes h))) of
                       (x, ns) \<Rightarrow> heap_release_region_if_unused x (h\<lparr>h_nodes := ns, h_freed := True\<rparr>))))"

definition krealloc :: "nat option \<Rightarrow> nat \<Rightarrow> kheap \<Rightarrow> nat option \<times> kheap" where
  "krealloc ptr n h =
     (case ptr of
        None \<Rightarrow> kmalloc n h
      | Some p \<Rightarrow>
          if n = 0 then (None, kfree ptr h)
          else case node_at (p - HEAP_HEADER_SIZE) h of
            None \<Rightarrow> (None, heap_set_errno EINVAL h)
          | Some x \<Rightarrow>
              if n \<le> hn_size x then (Some p, h)
              else (case kmalloc n h of
                      (None, h1) \<Rightarrow> (None, h1)
                    | (Some q, h1) \<Rightarrow>
                        (Some q, kfree ptr (h1\<lparr>h_mem := (\<lambda>a. if q \<le> a \<and> a < q + hn_size x then h_mem h1 (p + (a - q)) else h_mem h1 a)\<rparr>))))"

section \<open>Initialization, compaction and statistics\<close>

definition heap_initialize :: "nat option \<Rightarrow> nat \<Rightarrow> kheap \<Rightarrow> kheap" where
  "heap_initialize addr sz h =
     (let h0 = h\<lparr>h_next_vaddr := KHEAP_BASE, h_vranges := [], h_freed := False, h_nodes := [], h_regions := []\<rparr> in
      case addr of
        Some base \<Rightarrow>
          (let aligned_size = align_down sz PAGE_SIZE in
           if aligned_size < PAGE_SIZE then h0
           else let h1 = mem_zero base aligned_size h0;
                    h2 = h1\<lparr>h_nodes := [\<lparr>hn_addr = base, hn_size = u32 (aligned_size - HEAP_HEADER_SIZE), hn_free = True\<rparr>]\<rparr>
                in snd (heap_register_region \<lparr>hr_base = base, hr_size = aligned_size, hr_phys = 0,
                          hr_pages = aligned_size div PAGE_SIZE, hr_managed = False\<rparr> h2))
      | None \<Rightarrow> snd (heap_grow (if sz = 0 then PAGE_SIZE * HEAP_MINIMUM_PAGES else sz) h0))"

datatype heap_inspect = HEAP_INSPECT_OK heap_node | HEAP_INSPECT_INVALID_INDEX

definition inspect_heap :: "nat \<Rightarrow> kheap \<Rightarrow> heap_inspect" where
  "inspect_heap i h = (if i < length (h_nodes h) then HEAP_INSPECT_OK (h_nodes h ! i) else HEAP_INSPECT_INVALID_INDEX)"

function compact :: "heap_node list \<Rightarrow> kheap \<Rightarrow> heap_node list \<times> kheap" where
  "compact [] h = ([], h)"
| "compact (n # ns) h =
     (if hn_free n
      then (case heap_merge_forward n ns of (x, rest) \<Rightarrow>
              (case compact rest (mem_zero (hn_addr x + HEAP_HEADER_SIZE) (hn_size x) h) of (ns', h') \<Rightarrow> (x # ns', h')))
      else (case compact ns h of (ns', h') \<Rightarrow> (n # ns', h')))"
  by pat_completeness auto

lemma merge_forward_length: "length (snd (heap_merge_forward n ns)) \<le> length ns"
  by (induction n ns rule: heap_merge_forward.induct) auto

termination compact
  by (relation "measure (\<lambda>(ns, _). length ns)")
    (auto simp: less_Suc_eq_le, metis merge_forward_length snd_conv)

definition heap_compactor :: "kheap \<Rightarrow> kheap" where
  "heap_compactor h =
     (if \<not> h_freed h then h
      else case compact (h_nodes h) h of (ns, h1) \<Rightarrow> h1\<lparr>h_nodes := ns, h_freed := False\<rparr>)"

definition heap_calculate_free_bytes :: "kheap \<Rightarrow> nat" where
  "heap_calculate_free_bytes h = sum_list (map hn_size (filter hn_free (h_nodes h)))"

record heap_stats =
  st_total :: nat
  st_free :: nat
  st_used :: nat
  st_regions :: nat

definition heap_get_stats :: "kheap \<Rightarrow> heap_stats" where
  "heap_get_stats h =
     (let t = sum_list (map (\<lambda>r. if hr_size r > HEAP_HEADER_SIZE then hr_size r - HEAP_HEADER_SIZE else 0) (h_regions h));
          f = heap_calculate_free_bytes h
      in \<lparr>st_total = t, st_free = f, st_used = (if t \<ge> f then t - f else 0), st_regions = length (h_regions h)\<rparr>)"

section \<open>Well-formed heaps\<close>

text \<open>Sets of bytes that are pairwise disjoint, in a list.\<close>

definition disjs :: "nat set list \<Rightarrow> bool" where
  "disjs As \<longleftrightarrow> sorted_wrt (\<lambda>A B. A \<inter> B = {}) As"

definition niv :: "heap_node \<Rightarrow> nat set" where
  "niv n = {hn_addr n ..< hn_addr n + HEAP_HEADER_SIZE + hn_size n}"

definition riv :: "heap_region \<Rightarrow> nat set" where
  "riv r = {hr_base r ..< hr_base r + hr_size r}"

definition viv :: "vrange \<Rightarrow> nat set" where
  "viv v = {fst v ..< fst v + snd v}"

definition cover :: "heap_region list \<Rightarrow> nat set" where
  "cover rs = \<Union> (riv ` set rs)"

text \<open>
  Regions and free ranges do not overlap; ranges and managed regions lie in the part of the arena that
  has been handed out; regions that were not mapped by the heap lie outside the arena and are small.
\<close>

definition region_placed :: "nat \<Rightarrow> heap_region \<Rightarrow> bool" where
  "region_placed nx r \<longleftrightarrow>
     0 < hr_size r \<and> (if hr_managed r then riv r \<subseteq> {KHEAP_BASE ..< nx} else riv r \<inter> {KHEAP_BASE ..< KHEAP_LIMIT} = {})"

definition ranges_span :: "vrange list \<Rightarrow> nat set" where
  "ranges_span vs = \<Union> (viv ` set vs)"

definition arena_ok :: "heap_region list \<Rightarrow> vrange list \<Rightarrow> nat \<Rightarrow> bool" where
  "arena_ok rs vs nx \<longleftrightarrow>
     disjs (map riv rs) \<and> disjs (map viv vs) \<and> cover rs \<inter> ranges_span vs = {} \<and> ranges_span vs \<subseteq> {KHEAP_BASE ..< nx}
     \<and> (\<forall>r\<in>set rs. region_placed nx r) \<and> card (cover (filter (\<lambda>r. \<not> hr_managed r) rs)) \<le> 2 ^ 31
     \<and> KHEAP_BASE \<le> nx \<and> nx \<le> KHEAP_LIMIT"

definition nodes_span :: "heap_node list \<Rightarrow> nat set" where
  "nodes_span ns = \<Union> (niv ` set ns)"

definition nodes_ok :: "nat set \<Rightarrow> heap_node list \<Rightarrow> bool" where
  "nodes_ok U ns \<longleftrightarrow> disjs (map niv ns) \<and> nodes_span ns \<subseteq> U"

definition heap_wf :: "kheap \<Rightarrow> bool" where
  "heap_wf h \<longleftrightarrow> arena_ok (h_regions h) (h_vranges h) (h_next_vaddr h) \<and> nodes_ok (cover (h_regions h)) (h_nodes h)"

text \<open>What a client sees: the blocks in use, as address and usable size.\<close>

definition used_blocks :: "heap_node list \<Rightarrow> (nat \<times> nat) set" where
  "used_blocks ns = (\<lambda>n. (hn_addr n + HEAP_HEADER_SIZE, hn_size n)) ` {n \<in> set ns. \<not> hn_free n}"

definition blocks :: "kheap \<Rightarrow> (nat \<times> nat) set" where
  "blocks h = used_blocks (h_nodes h)"

lemma disjs_Nil [simp]: "disjs []"
  by (simp add: disjs_def)

lemma disjs_Cons [simp]: "disjs (A # As) \<longleftrightarrow> A \<inter> \<Union> (set As) = {} \<and> disjs As"
  by (auto simp: disjs_def)

lemma disjs_append [simp]: "disjs (As @ Bs) \<longleftrightarrow> disjs As \<and> disjs Bs \<and> \<Union> (set As) \<inter> \<Union> (set Bs) = {}"
  by (induction As) auto

lemma used_blocks_append [simp]: "used_blocks (xs @ ys) = used_blocks xs \<union> used_blocks ys"
  by (auto simp: used_blocks_def)

lemma used_blocks_Cons [simp]:
  "used_blocks (n # ns) = (if hn_free n then {} else {(hn_addr n + HEAP_HEADER_SIZE, hn_size n)}) \<union> used_blocks ns"
  by (auto simp: used_blocks_def)

lemma used_blocks_Nil [simp]: "used_blocks [] = {}"
  by (simp add: used_blocks_def)

lemma spans [simp]:
  "cover [] = {}" "cover (r # rs) = riv r \<union> cover rs" "cover (rs @ rs') = cover rs \<union> cover rs'"
  "ranges_span [] = {}" "ranges_span (v # vs) = viv v \<union> ranges_span vs"
  "nodes_span [] = {}" "nodes_span (n # ns) = niv n \<union> nodes_span ns" "nodes_span (ns @ ns') = nodes_span ns \<union> nodes_span ns'"
  by (auto simp: cover_def ranges_span_def nodes_span_def)

lemma Union_spans [simp]:
  "\<Union> (riv ` set rs) = cover rs" "\<Union> (viv ` set vs) = ranges_span vs" "\<Union> (niv ` set ns) = nodes_span ns"
  by (auto simp: cover_def ranges_span_def nodes_span_def)

lemma niv_nonempty: "hn_addr n \<in> niv n"
  by (simp add: niv_def HEAP_HEADER_SIZE_def)

lemma viv_pair [simp]: "viv (b, n) = {b ..< b + n}"
  by (simp add: viv_def)

section \<open>Virtual ranges do not overlap\<close>

lemma vrange_merge_spec:
  "disjs (map viv (v # rs)) \<Longrightarrow>
     disjs (map viv (vrange_merge v rs)) \<and> ranges_span (vrange_merge v rs) = ranges_span (v # rs)"
proof (induction v rs rule: vrange_merge.induct)
  case (2 b n b' n' rs)
  show ?case
  proof (cases "b + n = b'")
    case True
    have u: "viv (b, n + n') = viv (b, n) \<union> viv (b', n')" using True by auto
    have "disjs (map viv ((b, n + n') # rs))" using "2.prems" unfolding list.map disjs_Cons u by auto
    from "2.IH"[OF True this] show ?thesis using True u by (simp add: Un_assoc)
  qed (use "2.prems" in simp)
qed simp

lemma vrange_insert_spec:
  assumes "disjs (map viv rs)" "{base ..< base + n} \<inter> ranges_span rs = {}"
  shows "disjs (map viv (vrange_insert base n pool rs))
     \<and> ranges_span (vrange_insert base n pool rs) \<subseteq> ranges_span rs \<union> {base ..< base + n}"
  using assms
proof (induction base n pool rs rule: vrange_insert.induct)
  case (2 base n pool b k rs)
  show ?case
  proof (cases "b < base")
    case True
    show ?thesis
    proof (cases "(case rs of [] \<Rightarrow> True | (b', _) # _ \<Rightarrow> \<not> b' < base) \<and> b + k = base")
      case adj: True
      have u: "viv (b, k + n) = viv (b, k) \<union> {base ..< base + n}" using adj by auto
      have "disjs (map viv ((b, k + n) # rs))" using "2.prems" unfolding list.map disjs_Cons u by auto
      from vrange_merge_spec[OF this] show ?thesis using adj True u by auto
    next
      case False
      have "disjs (map viv rs)" "{base ..< base + n} \<inter> ranges_span rs = {}" using "2.prems" by auto
      note ih = "2.IH"[OF True False this]
      have "viv (b, k) \<inter> (ranges_span rs \<union> {base ..< base + n}) = {}" using "2.prems" by auto
      then have "viv (b, k) \<inter> ranges_span (vrange_insert base n pool rs) = {}" using ih by blast
      moreover have "vrange_insert base n pool ((b, k) # rs) = (b, k) # vrange_insert base n pool rs"
        unfolding vrange_insert.simps using True False by argo
      ultimately show ?thesis using ih by auto
    qed
  next
    case False
    have "disjs (map viv ((base, n) # (b, k) # rs))" using "2.prems" by auto
    from vrange_merge_spec[OF this] show ?thesis using False "2.prems" by auto
  qed
qed auto

lemma vrange_take_spec:
  assumes "disjs (map viv rs)" "vrange_take n rs = Some (a, rs')"
  shows "disjs (map viv rs') \<and> {a ..< a + n} \<inter> ranges_span rs' = {} \<and> ranges_span rs = ranges_span rs' \<union> {a ..< a + n}"
  using assms
proof (induction n rs arbitrary: a rs' rule: vrange_take.induct)
  case (2 n b k rs)
  show ?case
  proof (cases "k \<ge> n")
    case True
    have u: "viv (b, k) = {b ..< b + n} \<union> {b + n ..< b + n + (k - n)}" using True by auto
    show ?thesis
    proof (cases "k = n")
      case True
      then show ?thesis using "2.prems" by auto
    next
      case False
      then have "a = b" "rs' = (b + n, k - n) # rs" using True "2.prems"(2) by auto
      then show ?thesis using "2.prems"(1) True unfolding list.map disjs_Cons u by auto
    qed
  next
    case False
    obtain rs1 where r: "vrange_take n rs = Some (a, rs1)" "rs' = (b, k) # rs1"
      using "2.prems"(2) False by auto
    have "disjs (map viv rs)" using "2.prems"(1) by simp
    from "2.IH"[OF False this r(1)] show ?thesis using "2.prems"(1) r(2) by auto
  qed
qed simp

section \<open>The arena\<close>

lemma arena_take:
  assumes "arena_ok rs vs nx" "vrange_take n vs = Some (a, vs')"
  shows "arena_ok rs vs' nx" "{a ..< a + n} \<inter> (cover rs \<union> ranges_span vs') = {}" "{a ..< a + n} \<subseteq> {KHEAP_BASE ..< nx}"
proof -
  have d: "disjs (map viv vs)" and rv: "cover rs \<inter> ranges_span vs = {}" "ranges_span vs \<subseteq> {KHEAP_BASE ..< nx}"
    using assms(1) by (simp_all add: arena_ok_def)
  note t = vrange_take_spec[OF d assms(2)]
  show "{a ..< a + n} \<subseteq> {KHEAP_BASE ..< nx}" using t rv(2) by blast
  show "{a ..< a + n} \<inter> (cover rs \<union> ranges_span vs') = {}" using t rv(1) by blast
  have "cover rs \<inter> ranges_span vs' = {}" "ranges_span vs' \<subseteq> {KHEAP_BASE ..< nx}" using t rv by blast+
  then show "arena_ok rs vs' nx" using assms(1) t by (simp add: arena_ok_def)
qed

lemma arena_give:
  assumes "arena_ok rs vs nx" "{a ..< a + n} \<inter> (cover rs \<union> ranges_span vs) = {}" "{a ..< a + n} \<subseteq> {KHEAP_BASE ..< nx}"
  shows "arena_ok rs (vrange_insert a n pool vs) nx"
proof -
  have d: "disjs (map viv vs)" and rv: "cover rs \<inter> ranges_span vs = {}" "ranges_span vs \<subseteq> {KHEAP_BASE ..< nx}"
    using assms(1) by (simp_all add: arena_ok_def)
  have "{a ..< a + n} \<inter> ranges_span vs = {}" using assms(2) by blast
  note t = vrange_insert_spec[OF d this, of pool]
  have "cover rs \<inter> ranges_span (vrange_insert a n pool vs) = {}"
    "ranges_span (vrange_insert a n pool vs) \<subseteq> {KHEAP_BASE ..< nx}" using t rv assms(2,3) by blast+
  then show ?thesis using assms(1) t by (simp add: arena_ok_def)
qed

lemma region_placed_mono: "region_placed nx r \<Longrightarrow> nx \<le> nx' \<Longrightarrow> region_placed nx' r"
  by (auto simp: region_placed_def split: if_splits)

lemma placed_below:
  assumes "region_placed nx r" "nx + n \<le> KHEAP_LIMIT" "KHEAP_BASE \<le> nx"
  shows "{nx ..< nx + n} \<inter> riv r = {}"
proof (cases "hr_managed r")
  case True
  then have "riv r \<subseteq> {KHEAP_BASE ..< nx}" using assms(1) by (simp add: region_placed_def)
  then show ?thesis by fastforce
next
  case False
  then have "riv r \<inter> {KHEAP_BASE ..< KHEAP_LIMIT} = {}" using assms(1) by (simp add: region_placed_def)
  moreover have "{nx ..< nx + n} \<subseteq> {KHEAP_BASE ..< KHEAP_LIMIT}" using assms(2,3) by auto
  ultimately show ?thesis by blast
qed

lemma arena_bump:
  assumes "arena_ok rs vs nx" "nx + n \<le> KHEAP_LIMIT"
  shows "arena_ok rs vs (nx + n)" "{nx ..< nx + n} \<inter> (cover rs \<union> ranges_span vs) = {}"
    "{nx ..< nx + n} \<subseteq> {KHEAP_BASE ..< nx + n}"
proof -
  have a: "\<forall>r\<in>set rs. region_placed nx r" "ranges_span vs \<subseteq> {KHEAP_BASE ..< nx}" "KHEAP_BASE \<le> nx"
    using assms(1) by (simp_all add: arena_ok_def)
  have "ranges_span vs \<subseteq> {KHEAP_BASE ..< nx + n}" using a(2) by fastforce
  then show "arena_ok rs vs (nx + n)"
    using assms region_placed_mono[where nx = nx and nx' = "nx + n"] by (simp add: arena_ok_def)
  have "{nx ..< nx + n} \<inter> cover rs = {}" using a placed_below[OF _ assms(2)] unfolding cover_def by blast
  moreover have "{nx ..< nx + n} \<inter> ranges_span vs = {}" using a(2) by fastforce
  ultimately show "{nx ..< nx + n} \<inter> (cover rs \<union> ranges_span vs) = {}" by blast
  show "{nx ..< nx + n} \<subseteq> {KHEAP_BASE ..< nx + n}" using a(3) by auto
qed

lemma arena_register:
  assumes "arena_ok rs vs nx" "riv r \<inter> (cover rs \<union> ranges_span vs) = {}" "riv r \<subseteq> {KHEAP_BASE ..< nx}" "hr_managed r" "0 < hr_size r"
  shows "arena_ok (rs @ [r]) vs nx"
proof -
  have "cover rs \<inter> riv r = {}" "(cover rs \<union> riv r) \<inter> ranges_span vs = {}"
    using assms(1,2) unfolding arena_ok_def by blast+
  then show ?thesis using assms by (simp add: arena_ok_def region_placed_def)
qed

lemma cover_member: "r \<in> set rs \<Longrightarrow> riv r \<subseteq> cover rs"
  unfolding cover_def by blast

lemma cover_remove1:
  assumes "disjs (map riv rs)" "r \<in> set rs"
  shows "cover (remove1 r rs) = cover rs - riv r" "disjs (map riv (remove1 r rs))"
proof -
  obtain xs ys where rs: "rs = xs @ r # ys" "r \<notin> set xs" using split_list_first[OF assms(2)] by blast
  have e: "remove1 r rs = xs @ ys" using rs by (simp add: remove1_append)
  have d: "cover xs \<inter> (riv r \<union> cover ys) = {}" "riv r \<inter> cover ys = {}" "disjs (map riv xs)" "disjs (map riv ys)"
    using assms(1) unfolding rs(1) by simp_all
  have "cover xs \<union> cover ys = cover rs - riv r" using d unfolding rs(1) by simp blast
  then show "cover (remove1 r rs) = cover rs - riv r" unfolding e by simp
  have "cover xs \<inter> cover ys = {}" using d(1) by blast
  then show "disjs (map riv (remove1 r rs))" using d(3,4) unfolding e by simp
qed

lemma arena_unregister:
  assumes "arena_ok rs vs nx" "r \<in> set rs" "hr_managed r"
  shows "arena_ok (remove1 r rs) vs nx" "riv r \<inter> (cover (remove1 r rs) \<union> ranges_span vs) = {}" "riv r \<subseteq> {KHEAP_BASE ..< nx}"
proof -
  have d: "disjs (map riv rs)" and rv: "cover rs \<inter> ranges_span vs = {}" and pl: "\<forall>r\<in>set rs. region_placed nx r"
    using assms(1) by (simp_all add: arena_ok_def)
  note c = cover_remove1[OF d assms(2)]
  have f: "filter (\<lambda>r. \<not> hr_managed r) (remove1 r rs) = filter (\<lambda>r. \<not> hr_managed r) rs"
    unfolding filter_remove1 by (rule remove1_idem) (simp add: assms(3))
  have "riv r \<subseteq> cover rs" using assms(2) by (rule cover_member)
  then show "riv r \<inter> (cover (remove1 r rs) \<union> ranges_span vs) = {}" using c(1) rv by blast
  have "region_placed nx r" using pl assms(2) by blast
  then show "riv r \<subseteq> {KHEAP_BASE ..< nx}" using assms(3) by (simp add: region_placed_def)
  have "cover (remove1 r rs) \<inter> ranges_span vs = {}" using c(1) rv by blast
  moreover have "\<forall>x\<in>set (remove1 r rs). region_placed nx x" using pl set_remove1_subset[of r rs] by blast
  ultimately show "arena_ok (remove1 r rs) vs nx" using assms(1) c(2) f by (simp add: arena_ok_def)
qed

lemma cover_finite [simp]: "finite (cover rs)"
  unfolding cover_def riv_def by blast

text \<open>All the heap's bytes are fewer than a size field can count.\<close>

lemma cover_bound:
  assumes "arena_ok rs vs nx"
  shows "card (cover rs) < 2 ^ 32"
proof -
  have "riv r \<subseteq> cover (filter (\<lambda>r. \<not> hr_managed r) rs) \<union> {KHEAP_BASE ..< KHEAP_LIMIT}" if "r \<in> set rs" for r
  proof (cases "hr_managed r")
    case True
    then have "riv r \<subseteq> {KHEAP_BASE ..< nx}" "nx \<le> KHEAP_LIMIT" using assms that by (auto simp: arena_ok_def region_placed_def)
    then show ?thesis by fastforce
  next
    case False
    then have "r \<in> set (filter (\<lambda>r. \<not> hr_managed r) rs)" using that by simp
    from cover_member[OF this] show ?thesis by blast
  qed
  then have "cover rs \<subseteq> cover (filter (\<lambda>r. \<not> hr_managed r) rs) \<union> {KHEAP_BASE ..< KHEAP_LIMIT}" unfolding cover_def by blast
  then have "card (cover rs) \<le> card (cover (filter (\<lambda>r. \<not> hr_managed r) rs) \<union> {KHEAP_BASE ..< KHEAP_LIMIT})"
    by (intro card_mono) simp_all
  also have "\<dots> \<le> card (cover (filter (\<lambda>r. \<not> hr_managed r) rs)) + card {KHEAP_BASE ..< KHEAP_LIMIT}" by (rule card_Un_le)
  also have "\<dots> \<le> 2 ^ 31 + KHEAP_SIZE" using assms by (simp add: arena_ok_def KHEAP_LIMIT_def)
  also have "\<dots> < 2 ^ 32" by (simp add: KHEAP_SIZE_def)
  finally show ?thesis .
qed

section \<open>Merging and freeing\<close>

lemma nodes_finite [simp]: "finite (nodes_span ns)"
  unfolding nodes_span_def niv_def by blast

lemma niv_finite [simp]: "finite (niv n)"
  by (simp add: niv_def)

lemma card_below: "A \<subseteq> B \<Longrightarrow> finite B \<Longrightarrow> card B < k \<Longrightarrow> card A < k"
  using card_mono[of B A] by simp

lemma absorb_niv:
  assumes "nodes_are_contiguous l r" "card (niv l \<union> niv r) < 2 ^ 32"
  shows "niv (absorb l r) = niv l \<union> niv r"
proof -
  let ?sz = "hn_size l + (hn_size r + HEAP_HEADER_SIZE)"
  have u: "niv l \<union> niv r = {hn_addr l ..< hn_addr l + HEAP_HEADER_SIZE + ?sz}"
    using assms(1) by (auto simp: niv_def nodes_are_contiguous_def)
  then have "card (niv l \<union> niv r) = HEAP_HEADER_SIZE + ?sz" by simp
  then have "u32 ?sz = ?sz" using assms(2) by (simp add: u32_def)
  then show ?thesis unfolding u by (simp add: absorb_def niv_def)
qed

lemma absorb_sel [simp]: "hn_addr (absorb l r) = hn_addr l" "hn_free (absorb l r) = hn_free l"
  by (simp_all add: absorb_def)

lemma merge_forward_spec:
  assumes "disjs (map niv (n # ns))" "card (nodes_span (n # ns)) < 2 ^ 32" "hn_free n"
    "heap_merge_forward n ns = (x, rest)"
  shows "disjs (map niv (x # rest)) \<and> nodes_span (x # rest) = nodes_span (n # ns) \<and> hn_free x
     \<and> used_blocks rest = used_blocks ns"
  using assms
proof (induction n ns rule: heap_merge_forward.induct)
  case (2 n m ms)
  show ?case
  proof (cases "hn_free m \<and> nodes_are_contiguous n m")
    case True
    have "card (niv n \<union> niv m) < 2 ^ 32" by (rule card_below[OF _ _ "2.prems"(2)]) auto
    then have u: "niv (absorb n m) = niv n \<union> niv m" using absorb_niv True by simp
    have d: "disjs (map niv (absorb n m # ms))"
      using "2.prems"(1) unfolding list.map disjs_Cons u set_map by auto
    have s: "nodes_span (absorb n m # ms) = nodes_span (n # m # ms)" using u by auto
    have "heap_merge_forward (absorb n m) ms = (x, rest)" using "2.prems"(4) True by simp
    from "2.IH"[OF True d _ _ this] show ?thesis using s "2.prems"(2,3) True by simp
  next
    case False
    then have "heap_merge_forward n (m # ms) = (n, m # ms)" by (simp only: heap_merge_forward.simps if_False)
    then have "x = n" "rest = m # ms" using "2.prems"(4) by simp_all
    then show ?thesis using "2.prems"(1,3) by simp
  qed
qed simp

lemma free_node_spec:
  assumes "disjs (map niv (pre @ n # post))" "card (nodes_span (pre @ n # post)) < 2 ^ 32" "free_node pre n post = (x, ns)"
  shows "disjs (map niv ns) \<and> nodes_span ns = nodes_span (pre @ n # post) \<and> x \<in> set ns \<and> used_blocks ns = used_blocks (pre @ post)"
proof -
  define n1 where "n1 = n\<lparr>hn_free := True\<rparr>"
  have n1: "niv n1 = niv n" "hn_free n1" by (simp_all add: n1_def niv_def)
  have fin: "x \<in> set ns \<and> disjs (map niv ns) \<and> nodes_span ns = nodes_span (pre' @ y # post) \<and> used_blocks ns = used_blocks (pre' @ post)"
    if m: "heap_merge_forward y post = (x, post')" "ns = pre' @ x # post'" "hn_free y"
      and d: "disjs (map niv (pre' @ y # post))" "card (nodes_span (pre' @ y # post)) < 2 ^ 32" for y pre' post'
  proof -
    have c: "card (nodes_span (y # post)) < 2 ^ 32" by (rule card_below[OF _ _ d(2)]) auto
    have "disjs (map niv (y # post))" using d(1) by simp
    note sp = merge_forward_spec[OF this c m(3,1)]
    then show ?thesis using d(1) m(2) by auto
  qed
  show ?thesis
  proof (cases "pre \<noteq> [] \<and> hn_free (last pre) \<and> nodes_are_contiguous (last pre) n1")
    case True
    then have pre: "pre = butlast pre @ [last pre]" by simp
    define l where "l = last pre"
    define bl where "bl = butlast pre"
    have p: "pre = bl @ [l]" using pre by (simp add: l_def bl_def)
    have "card (niv l \<union> niv n1) < 2 ^ 32" by (rule card_below[OF _ _ assms(2)]) (auto simp: p n1)
    then have u: "niv (absorb l n1) = niv l \<union> niv n" using absorb_niv[of l n1] True n1 by (simp add: l_def)
    have d: "disjs (map niv (bl @ absorb l n1 # post))" using assms(1) unfolding p by (simp add: u) blast
    have s: "nodes_span (bl @ absorb l n1 # post) = nodes_span (pre @ n # post)" unfolding p by (simp add: u) blast
    obtain post' where m: "heap_merge_forward (absorb l n1) post = (x, post')" "ns = bl @ x # post'"
      using assms(3) True unfolding free_node_def n1_def[symmetric] by (auto simp: Let_def l_def bl_def split: prod.splits)
    have "card (nodes_span (bl @ absorb l n1 # post)) < 2 ^ 32" "hn_free (absorb l n1)" using assms(2) s True by (simp_all add: l_def)
    from fin[OF m this(2) d this(1)] show ?thesis using s True p by (simp add: l_def[symmetric])
  next
    case False
    then obtain post' where m: "heap_merge_forward n1 post = (x, post')" "ns = pre @ x # post'"
      using assms(3) unfolding free_node_def n1_def[symmetric] by (auto simp: Let_def split: prod.splits)
    from fin[OF m n1(2)] show ?thesis using assms n1(1) by simp
  qed
qed

section \<open>Releasing regions\<close>

lemma wf_nodes:
  assumes "heap_wf h"
  shows "disjs (map niv (h_nodes h))" "nodes_span (h_nodes h) \<subseteq> cover (h_regions h)" "card (nodes_span (h_nodes h)) < 2 ^ 32"
proof -
  show a: "disjs (map niv (h_nodes h))" "nodes_span (h_nodes h) \<subseteq> cover (h_regions h)"
    using assms by (simp_all add: heap_wf_def nodes_ok_def)
  have "arena_ok (h_regions h) (h_vranges h) (h_next_vaddr h)" using assms by (simp add: heap_wf_def)
  from card_below[OF a(2) cover_finite cover_bound[OF this]] show "card (nodes_span (h_nodes h)) < 2 ^ 32" .
qed

lemma virtual_release_sel [simp]:
  "h_nodes (heap_virtual_release b n h) = h_nodes h" "h_regions (heap_virtual_release b n h) = h_regions h"
  "h_next_vaddr (heap_virtual_release b n h) = h_next_vaddr h" "h_mem (heap_virtual_release b n h) = h_mem h"
  by (simp_all add: heap_virtual_release_def)

lemma virtual_release_arena:
  assumes "arena_ok rs (h_vranges h) nx" "{a ..< a + n} \<inter> (cover rs \<union> ranges_span (h_vranges h)) = {}" "{a ..< a + n} \<subseteq> {KHEAP_BASE ..< nx}"
  shows "arena_ok rs (h_vranges (heap_virtual_release a n h)) nx"
  using arena_give[OF assms] assms(1) by (simp add: heap_virtual_release_def)

lemma release_region_spec:
  assumes "heap_wf h" "x \<in> set (h_nodes h)"
  shows "heap_wf (heap_release_region_if_unused x h) \<and> blocks (heap_release_region_if_unused x h) = blocks h
     \<and> h_mem (heap_release_region_if_unused x h) = h_mem h"
proof (cases "heap_release_region_if_unused x h = h")
  case False
  then obtain r where r: "heap_region_from_node x h = Some r" "hr_managed r" "hn_free x" "hn_addr x = hr_base r"
    "hn_size x + HEAP_HEADER_SIZE = hr_size r" "\<not> heap_region_contains_other_nodes r x h"
    unfolding heap_release_region_if_unused_def by (auto split: option.splits if_splits)
  have rin: "r \<in> set (h_regions h)" using r(1) by (auto simp: heap_region_from_node_def find_Some_iff)
  define h1 where "h1 = h\<lparr>h_nodes := remove1 x (h_nodes h), h_pg := heap_unmap_pages (hr_base r) (hr_pages r) (h_pg h)\<rparr>"
  define h2 where "h2 = heap_virtual_release (hr_base r) (hr_size r) h1"
  have res: "heap_release_region_if_unused x h = heap_unregister_region r h2"
    using r unfolding heap_release_region_if_unused_def h1_def h2_def by simp
  have ar: "arena_ok (h_regions h) (h_vranges h) (h_next_vaddr h)" using assms(1) by (simp add: heap_wf_def)
  note un = arena_unregister[OF ar rin r(2)]
  have "riv r = niv x" using r(4,5) by (auto simp: riv_def niv_def)
  obtain xs ys where xy: "h_nodes h = xs @ x # ys" "x \<notin> set xs" using split_list_first[OF assms(2)] by blast
  have rm: "remove1 x (h_nodes h) = xs @ ys" using xy by (simp add: remove1_append)
  have d: "disjs (map riv (h_regions h))" using ar by (simp add: arena_ok_def)
  have "disjs (map niv (xs @ ys))" "nodes_span (xs @ ys) \<subseteq> cover (h_regions h) - niv x"
    using wf_nodes(1,2)[OF assms(1)] unfolding xy(1) by (simp_all) blast+
  then have "nodes_ok (cover (remove1 r (h_regions h))) (xs @ ys)"
    unfolding nodes_ok_def cover_remove1(1)[OF d rin] \<open>riv r = niv x\<close> by simp
  moreover have "arena_ok (remove1 r (h_regions h)) (h_vranges h2) (h_next_vaddr h)"
    unfolding h2_def using un by (intro virtual_release_arena) (simp_all add: h1_def riv_def)
  moreover have "used_blocks (xs @ ys) = used_blocks (h_nodes h)" using r(3) unfolding xy(1) by simp
  ultimately show ?thesis unfolding res heap_wf_def blocks_def
    by (simp add: heap_unregister_region_def h2_def h1_def rm)
qed (use assms(1) in simp)

section \<open>Growing\<close>

lemma map_region_spec:
  assumes "arena_ok (h_regions h) (h_vranges h) (h_next_vaddr h)" "c * PAGE_SIZE < 2 ^ 40" "heap_map_region phys c h = (res, h')"
  shows "arena_ok (h_regions h) (h_vranges h') (h_next_vaddr h') \<and> h_regions h' = h_regions h \<and> h_nodes h' = h_nodes h
     \<and> h_mem h' = h_mem h
     \<and> (\<forall>v. res = Some v \<longrightarrow> {v ..< v + c * PAGE_SIZE} \<inter> (cover (h_regions h) \<union> ranges_span (h_vranges h')) = {}
                         \<and> {v ..< v + c * PAGE_SIZE} \<subseteq> {KHEAP_BASE ..< h_next_vaddr h'})"
proof (cases "heap_virtual_acquire (c * PAGE_SIZE) h")
  case None
  then show ?thesis using assms(1,3) by (simp add: heap_map_region_def)
next
  case (Some t)
  define n where "n = c * PAGE_SIZE"
  obtain v fr h1 where t: "heap_virtual_acquire n h = Some (v, fr, h1)" using Some by (cases t) (auto simp: n_def)
  obtain ok k where mp: "map_pages v phys [0..<c] (h_pg h1) = (ok, k)" by fastforce
  have res: "(res, h') = (if ok then (Some v, h1\<lparr>h_pg := k, h_next_vaddr := (if fr then h_next_vaddr h1 else h_next_vaddr h1 + n)\<rparr>)
      else (None, if fr then heap_virtual_release v n (h1\<lparr>h_pg := k\<rparr>) else h1\<lparr>h_pg := k\<rparr>))"
    using assms(3) t mp unfolding heap_map_region_def n_def[symmetric] by (cases ok) (simp_all add: Let_def)
  show ?thesis
  proof (cases "vrange_take n (h_vranges h)")
    case None
    then have a: "v = h_next_vaddr h" "fr = False" "h1 = h" "u64 (h_next_vaddr h + n) \<le> KHEAP_LIMIT"
      using t by (auto simp: heap_virtual_acquire_def split: if_splits)
    have "h_next_vaddr h \<le> KHEAP_LIMIT" "n < 2 ^ 40" using assms(1,2) by (simp_all add: arena_ok_def n_def)
    then have "h_next_vaddr h + n < 2 ^ 64" by (simp add: KHEAP_LIMIT_def KHEAP_BASE_def KHEAP_SIZE_def)
    then have le: "h_next_vaddr h + n \<le> KHEAP_LIMIT" using a(4) by (simp add: u64_small)
    show ?thesis using arena_bump[OF assms(1) le] res assms(1) unfolding n_def[symmetric] by (cases ok) (simp_all add: a)
  next
    case (Some q)
    then obtain rs where q: "vrange_take n (h_vranges h) = Some (v, rs)" "fr" "h1 = h\<lparr>h_vranges := rs\<rparr>"
      using t by (cases q) (simp add: heap_virtual_acquire_def split: if_splits)
    note at = arena_take[OF assms(1) q(1)]
    show ?thesis
    proof (cases ok)
      case True
      then show ?thesis using at res q unfolding n_def[symmetric] by simp
    next
      case False
      have "arena_ok (h_regions h) (h_vranges (heap_virtual_release v n (h1\<lparr>h_pg := k\<rparr>))) (h_next_vaddr h)"
        by (rule virtual_release_arena) (use at q in simp_all)
      then show ?thesis using False res q by simp
    qed
  qed
qed

lemma alloc_pages_bound:
  assumes "pmm_alloc_pages c m = (phys, m')" "phys \<noteq> 0"
  shows "c * PAGE_SIZE < 2 ^ 40"
proof -
  have "0 < c" using assms by (cases c) (simp_all add: pmm_alloc_pages_def pmm_alloc_internal_def)
  from alloc_spec[OF this, where alignment = PAGE_SIZE and mx = "2 ^ 64 - 1" and m = m] have "c \<le> npages"
    using assms by (auto simp: pmm_alloc_pages_def suitable_def)
  then show ?thesis by (simp add: npages_def PAGE_BITMAP_SIZE_def PAGE_SIZE_def)
qed

lemma grow_request: "\<exists>c>0. \<forall>h. heap_grow mn h = heap_grow_by c (c * PAGE_SIZE) h"
proof (cases "align_up (if mn \<noteq> 0 then mn else PAGE_SIZE) PAGE_SIZE div PAGE_SIZE < HEAP_MINIMUM_PAGES")
  case True
  have "0 < HEAP_MINIMUM_PAGES" by (simp add: HEAP_MINIMUM_PAGES_def)
  moreover have "heap_grow mn h = heap_grow_by HEAP_MINIMUM_PAGES (HEAP_MINIMUM_PAGES * PAGE_SIZE) h" for h
    using True unfolding heap_grow_def Let_def by simp
  ultimately show ?thesis by blast
next
  case False
  let ?c = "align_up (if mn \<noteq> 0 then mn else PAGE_SIZE) PAGE_SIZE div PAGE_SIZE"
  have "?c * PAGE_SIZE = align_up (if mn \<noteq> 0 then mn else PAGE_SIZE) PAGE_SIZE" unfolding align_up_def by simp
  moreover have "0 < ?c" using False by (simp add: HEAP_MINIMUM_PAGES_def del: if_split)
  ultimately show ?thesis using False unfolding heap_grow_def Let_def by metis
qed

lemma mem_zero_sel [simp]:
  "h_nodes (mem_zero a n h) = h_nodes h" "h_regions (mem_zero a n h) = h_regions h" "h_vranges (mem_zero a n h) = h_vranges h"
  "h_next_vaddr (mem_zero a n h) = h_next_vaddr h" "h_pg (mem_zero a n h) = h_pg h"
  "h_mem (mem_zero a n h) x = (if x \<in> {a ..< a + n} then 0 else h_mem h x)"
  by (simp_all add: mem_zero_def)

lemma heap_grow_spec:
  assumes "heap_wf h" "heap_grow mn h = (ok, h')"
  shows "heap_wf h' \<and> blocks h' = blocks h \<and> (\<forall>a\<in>cover (h_regions h). h_mem h' a = h_mem h a)"
proof -
  obtain c where c0: "0 < c" and gr: "heap_grow_by c (c * PAGE_SIZE) h = (ok, h')" using grow_request[of mn] assms(2) by auto
  obtain phys m where al: "pmm_alloc_pages c (frames (h_pg h)) = (phys, m)" by fastforce
  define h1 where "h1 = h\<lparr>h_pg := (h_pg h)\<lparr>frames := m\<rparr>\<rparr>"
  note g = gr[unfolded heap_grow_by_def al prod.case h1_def[symmetric] Let_def]
  have ar: "arena_ok (h_regions h1) (h_vranges h1) (h_next_vaddr h1)" and wf1: "heap_wf h1" "blocks h1 = blocks h"
    using assms(1) by (simp_all add: heap_wf_def h1_def blocks_def)
  show ?thesis
  proof (cases "phys = 0")
    case True
    then show ?thesis using g wf1 by (auto simp: h1_def)
  next
    case False
    obtain r h2 where mr: "heap_map_region phys c h1 = (r, h2)" by fastforce
    note sp = map_region_spec[OF ar alloc_pages_bound[OF al False] mr]
    show ?thesis
    proof (cases r)
      case None
      then show ?thesis using g False mr sp wf1 by (auto simp: heap_wf_def blocks_def h1_def)
    next
      case (Some base)
      define rg where "rg = \<lparr>hr_base = base, hr_size = c * PAGE_SIZE, hr_phys = phys, hr_pages = c, hr_managed = True\<rparr>"
      have rv: "riv rg = {base ..< base + c * PAGE_SIZE}" by (simp add: rg_def riv_def)
      have new: "riv rg \<inter> (cover (h_regions h) \<union> ranges_span (h_vranges h2)) = {}" "riv rg \<subseteq> {KHEAP_BASE ..< h_next_vaddr h2}"
        and ar2: "arena_ok (h_regions h) (h_vranges h2) (h_next_vaddr h2)"
        and st: "h_regions h2 = h_regions h" "h_nodes h2 = h_nodes h" "h_mem h2 = h_mem h"
        using sp Some rv by (simp_all add: h1_def)
      show ?thesis
      proof (cases "length (h_regions h) \<ge> HEAP_REGION_CAP")
        case True
        have "arena_ok (h_regions h) (h_vranges (heap_virtual_release base (c * PAGE_SIZE)
            ((mem_zero base (c * PAGE_SIZE) h2)\<lparr>h_pg := heap_unmap_pages base c (h_pg h2)\<rparr>))) (h_next_vaddr h2)"
          by (rule virtual_release_arena) (use ar2 new rv in simp_all)
        then show ?thesis using assms(1) g False mr Some True st new(1) rv
          by (auto simp: heap_register_region_def Let_def heap_wf_def blocks_def)
      next
        case room: False
        define nd where "nd = \<lparr>hn_addr = base, hn_size = u32 (c * PAGE_SIZE - HEAP_HEADER_SIZE), hn_free = True\<rparr>"
        have h': "h' = (mem_zero base (c * PAGE_SIZE) h2)\<lparr>h_regions := h_regions h @ [rg], h_nodes := h_nodes h @ [nd]\<rparr>"
          using g False mr Some room st by (simp add: heap_register_region_def rg_def nd_def)
        have ok': "arena_ok (h_regions h @ [rg]) (h_vranges h2) (h_next_vaddr h2)"
          by (rule arena_register[OF ar2 new]) (use c0 in \<open>simp_all add: rg_def\<close>)
        have "card (riv rg) \<le> card {KHEAP_BASE ..< KHEAP_LIMIT}"
          using new(2) ar2 by (intro card_mono) (auto simp: arena_ok_def)
        then have "c * PAGE_SIZE \<le> KHEAP_SIZE" by (simp add: rv KHEAP_LIMIT_def)
        then have "u32 (c * PAGE_SIZE - HEAP_HEADER_SIZE) = c * PAGE_SIZE - HEAP_HEADER_SIZE" by (simp add: u32_def KHEAP_SIZE_def)
        then have nv: "niv nd = riv rg" using c0 by (simp add: nd_def niv_def rv HEAP_HEADER_SIZE_def PAGE_SIZE_def)
        have "nodes_ok (cover (h_regions h @ [rg])) (h_nodes h @ [nd])"
          using wf_nodes(1,2)[OF assms(1)] new(1) by (simp add: nodes_ok_def nv) blast
        then show ?thesis using ok' new(1) st(3) unfolding h' rv
          by (auto simp: heap_wf_def blocks_def nd_def)
      qed
    qed
  qed
qed

section \<open>Allocating and freeing\<close>

lemma replace_node_split:
  assumes "x \<in> set ns"
  shows "\<exists>pre post. ns = pre @ x # post \<and> x \<notin> set pre \<and> replace_node x ys ns = pre @ ys @ post
     \<and> takeWhile (\<lambda>n. n \<noteq> x) ns = pre \<and> tl (dropWhile (\<lambda>n. n \<noteq> x) ns) = post"
proof -
  obtain pre post where n: "ns = pre @ x # post" "x \<notin> set pre" using split_list_first[OF assms] by blast
  have "takeWhile (\<lambda>n. n \<noteq> x) ns = pre" "dropWhile (\<lambda>n. n \<noteq> x) ns = x # post"
    using n by (auto simp: takeWhile_append dropWhile_append)
  then show ?thesis using n unfolding replace_node_def by auto
qed

lemma split_node_spec:
  assumes "n \<le> hn_size x"
  obtains k where "n \<le> k" "disjs (map niv (heap_split_node n x))" "nodes_span (heap_split_node n x) = niv x"
    "used_blocks (heap_split_node n x) = {(hn_addr x + HEAP_HEADER_SIZE, k)}" "k \<le> hn_size x"
proof (cases "hn_size x \<ge> n + HEAP_HEADER_SIZE + HEAP_ALIGNMENT")
  case True
  show ?thesis by (rule that[of n]) (use True assms in \<open>auto simp: heap_split_node_def niv_def\<close>)
next
  case False
  show ?thesis by (rule that[of "hn_size x"]) (use False assms in \<open>auto simp: heap_split_node_def niv_def\<close>)
qed

text \<open>A block of a node that is in use is not that of a free one, and blocks with the same address are the same.\<close>

lemma node_unique:
  assumes "disjs (map niv ns)" "x \<in> set ns" "y \<in> set ns" "hn_addr x = hn_addr y"
  shows "x = y"
proof (rule ccontr)
  assume ne: "x \<noteq> y"
  obtain pre post where ns: "ns = pre @ x # post" using split_list[OF assms(2)] by blast
  then have y: "y \<in> set pre \<union> set post" using assms(3) ne by auto
  have "niv x \<inter> (nodes_span pre \<union> nodes_span post) = {}" using assms(1) unfolding ns by simp blast
  moreover have "hn_addr y \<in> niv x" using niv_nonempty[of x] assms(4) by simp
  moreover have "hn_addr y \<in> nodes_span pre \<union> nodes_span post" using y niv_nonempty[of y] unfolding nodes_span_def by blast
  ultimately show False by blast
qed

text \<open>Taking a free node for a request: the new block lies inside the node, the other blocks stay.\<close>

lemma take_node_spec:
  assumes wf: "heap_wf h" and x: "x \<in> set (h_nodes h)" "hn_free x" "sz \<le> hn_size x"
  defines "h' \<equiv> h\<lparr>h_nodes := replace_node x (heap_split_node sz x) (h_nodes h)\<rparr>"
  shows "heap_wf h'" "\<exists>k\<ge>sz. k \<le> hn_size x \<and> blocks h' = insert (hn_addr x + HEAP_HEADER_SIZE, k) (blocks h)"
    "\<forall>(q, l)\<in>blocks h. {q - HEAP_HEADER_SIZE ..< q + l} \<inter> niv x = {}" "niv x \<subseteq> cover (h_regions h)"
proof -
  obtain pre post where n: "h_nodes h = pre @ x # post" "replace_node x (heap_split_node sz x) (h_nodes h) = pre @ heap_split_node sz x @ post"
    using replace_node_split[OF x(1), of "heap_split_node sz x"] by blast
  obtain k where k: "sz \<le> k" "disjs (map niv (heap_split_node sz x))" "nodes_span (heap_split_node sz x) = niv x"
    "used_blocks (heap_split_node sz x) = {(hn_addr x + HEAP_HEADER_SIZE, k)}" "k \<le> hn_size x"
    by (rule split_node_spec[OF x(3)])
  have ns: "disjs (map niv (pre @ x # post))" "nodes_span (pre @ x # post) \<subseteq> cover (h_regions h)"
    using wf_nodes(1,2)[OF wf] n(1) by simp_all
  show "niv x \<subseteq> cover (h_regions h)" using ns(2) by simp
  have "nodes_ok (cover (h_regions h)) (pre @ heap_split_node sz x @ post)" using ns k(2,3) by (simp add: nodes_ok_def)
  then show "heap_wf h'" using wf n(2) by (simp add: h'_def heap_wf_def)
  have "blocks h' = insert (hn_addr x + HEAP_HEADER_SIZE, k) (blocks h)"
    using n k(4) x(2) by (simp add: h'_def blocks_def)
  then show "\<exists>k\<ge>sz. k \<le> hn_size x \<and> blocks h' = insert (hn_addr x + HEAP_HEADER_SIZE, k) (blocks h)" using k by blast
  have "{q - HEAP_HEADER_SIZE ..< q + l} \<inter> niv x = {}" if "(q, l) \<in> blocks h" for q l
  proof -
    from that obtain y where y: "y \<in> set (h_nodes h)" "\<not> hn_free y" "q = hn_addr y + HEAP_HEADER_SIZE" "l = hn_size y"
      unfolding blocks_def used_blocks_def by auto
    then have "y \<in> set pre \<union> set post" using n(1) x(2) by auto
    then have "niv y \<subseteq> nodes_span pre \<union> nodes_span post" unfolding nodes_span_def by blast
    moreover have "niv x \<inter> (nodes_span pre \<union> nodes_span post) = {}" using ns(1) by simp blast
    moreover have "{q - HEAP_HEADER_SIZE ..< q + l} = niv y" using y by (simp add: niv_def)
    ultimately show ?thesis by blast
  qed
  then show "\<forall>(q, l)\<in>blocks h. {q - HEAP_HEADER_SIZE ..< q + l} \<inter> niv x = {}" by blast
qed

lemma heap_set_errno_sel [simp]:
  "h_nodes (heap_set_errno e h) = h_nodes h" "h_regions (heap_set_errno e h) = h_regions h"
  "h_vranges (heap_set_errno e h) = h_vranges h" "h_next_vaddr (heap_set_errno e h) = h_next_vaddr h"
  "h_mem (heap_set_errno e h) = h_mem h"
  by (simp_all add: heap_set_errno_def)

lemma errno_wf [simp]: "heap_wf (heap_set_errno e h) = heap_wf h" "blocks (heap_set_errno e h) = blocks h"
  by (simp_all add: heap_wf_def blocks_def)

text \<open>Every byte of a block in use, its header included, belongs to a region.\<close>

lemma block_covered:
  assumes "heap_wf h" "(q, l) \<in> blocks h"
  shows "{q - HEAP_HEADER_SIZE ..< q + l} \<subseteq> cover (h_regions h)"
proof -
  from assms(2) obtain y where "y \<in> set (h_nodes h)" "q = hn_addr y + HEAP_HEADER_SIZE" "l = hn_size y"
    unfolding blocks_def used_blocks_def by auto
  then have "{q - HEAP_HEADER_SIZE ..< q + l} \<subseteq> nodes_span (h_nodes h)" unfolding nodes_span_def niv_def by auto
  then show ?thesis using wf_nodes(2)[OF assms(1)] by blast
qed

text \<open>The cases of \<^verbatim>\<open>kmalloc\<close>: a node is taken in a heap \<open>h1\<close> that has the same blocks, or none is.\<close>

lemma kmalloc_cases:
  assumes wf: "heap_wf h" and n: "n \<noteq> 0" and km: "kmalloc n h = (r, h')"
  obtains h1 where "heap_wf h1" "blocks h1 = blocks h" "\<forall>a\<in>cover (h_regions h). h_mem h1 a = h_mem h a"
    "r = None" "blocks h' = blocks h1" "heap_wf h'" "h_mem h' = h_mem h1"
  | h1 x where "heap_wf h1" "blocks h1 = blocks h" "\<forall>a\<in>cover (h_regions h). h_mem h1 a = h_mem h a"
    "x \<in> set (h_nodes h1)" "hn_free x" "align_up n HEAP_ALIGNMENT \<le> hn_size x" "r = Some (hn_addr x + HEAP_HEADER_SIZE)"
    "h' = h1\<lparr>h_nodes := replace_node x (heap_split_node (align_up n HEAP_ALIGNMENT) x) (h_nodes h1)\<rparr>"
proof -
  define sz where "sz = align_up n HEAP_ALIGNMENT"
  have found: "x \<in> set (h_nodes g)" "hn_free x" "sz \<le> hn_size x" if "heap_find_suitable_node sz g = Some x" for x g
    using that by (auto simp: heap_find_suitable_node_def find_Some_iff)
  show ?thesis
  proof (cases "heap_find_suitable_node sz h")
    case (Some x)
    then show ?thesis using that(2)[OF wf] found[OF Some] n km unfolding kmalloc_def sz_def[symmetric] by (simp add: Let_def)
  next
    case None
    obtain ok h1 where g: "heap_grow (u64 (sz + HEAP_HEADER_SIZE)) h = (ok, h1)" by fastforce
    note sp = heap_grow_spec[OF wf g]
    show ?thesis
    proof (cases "ok \<and> heap_find_suitable_node sz h1 \<noteq> None")
      case True
      then obtain x where x: "heap_find_suitable_node sz h1 = Some x" by blast
      then show ?thesis using that(2)[of h1 x] sp found[OF x] True None g n km unfolding kmalloc_def sz_def[symmetric] by (simp add: Let_def)
    next
      case False
      then have "r = None" "h' = heap_set_errno ENOMEM h1"
        using None g n km unfolding kmalloc_def sz_def[symmetric] by (auto simp: Let_def split: bool.splits option.splits)
      then show ?thesis using that(1)[of h1] sp by simp
    qed
  qed
qed

lemma align_up_ge:
  assumes "n \<le> 2 ^ 64 - 16"
  shows "n \<le> align_up n HEAP_ALIGNMENT"
proof -
  have "u64 (n + 15) = n + 15" using assms by (simp add: u64_def)
  moreover have "n \<le> (n + 15) div 16 * 16" by presburger
  ultimately show ?thesis by (simp add: align_up_def HEAP_ALIGNMENT_def)
qed

lemma kmalloc_spec:
  assumes wf: "heap_wf h" and n: "n \<noteq> 0" and km: "kmalloc n h = (Some p, h')"
  shows "heap_wf h' \<and> (\<forall>(q, l)\<in>blocks h. \<forall>a. q \<le> a \<and> a < q + l \<longrightarrow> h_mem h' a = h_mem h a)
     \<and> (\<exists>k\<ge>align_up n HEAP_ALIGNMENT. blocks h' = insert (p, k) (blocks h) \<and> HEAP_HEADER_SIZE \<le> p
          \<and> {p - HEAP_HEADER_SIZE ..< p + k} \<subseteq> cover (h_regions h')
          \<and> (\<forall>(q, l)\<in>blocks h. {q - HEAP_HEADER_SIZE ..< q + l} \<inter> {p - HEAP_HEADER_SIZE ..< p + k} = {}))"
proof (rule kmalloc_cases[OF wf n km])
  fix h1 x
  assume h1: "heap_wf h1" "blocks h1 = blocks h" "\<forall>a\<in>cover (h_regions h). h_mem h1 a = h_mem h a"
    and x: "x \<in> set (h_nodes h1)" "hn_free x" "align_up n HEAP_ALIGNMENT \<le> hn_size x" "Some p = Some (hn_addr x + HEAP_HEADER_SIZE)"
    and h': "h' = h1\<lparr>h_nodes := replace_node x (heap_split_node (align_up n HEAP_ALIGNMENT) x) (h_nodes h1)\<rparr>"
  note t = take_node_spec[OF h1(1) x(1-3), folded h']
  obtain k where k: "align_up n HEAP_ALIGNMENT \<le> k" "k \<le> hn_size x" "blocks h' = insert (p, k) (blocks h)"
    using t(2) x(4) h1(2) by auto
  have sub: "{p - HEAP_HEADER_SIZE ..< p + k} \<subseteq> niv x" using k(2) x(4) by (auto simp: niv_def)
  have m: "h_mem h' a = h_mem h a" if "(q, l) \<in> blocks h" "q \<le> a" "a < q + l" for q l a
    using block_covered[OF wf that(1)] that(2,3) h1(3) unfolding h' by (auto simp: subset_iff)
  have d: "{q - HEAP_HEADER_SIZE ..< q + l} \<inter> {p - HEAP_HEADER_SIZE ..< p + k} = {}" if "(q, l) \<in> blocks h" for q l
    using t(3) that sub h1(2) by blast
  have c: "{p - HEAP_HEADER_SIZE ..< p + k} \<subseteq> cover (h_regions h')" using subset_trans[OF sub t(4)] unfolding h' by simp
  have "HEAP_HEADER_SIZE \<le> p" using x(4) by simp
  then show ?thesis using t(1) k m d c by blast
qed simp

lemma kmalloc_fail_spec:
  assumes "heap_wf h" "kmalloc n h = (None, h')"
  shows "heap_wf h'" "blocks h' = blocks h" "\<forall>a\<in>cover (h_regions h). h_mem h' a = h_mem h a"
proof -
  have "heap_wf h' \<and> blocks h' = blocks h \<and> (\<forall>a\<in>cover (h_regions h). h_mem h' a = h_mem h a)"
  proof (cases "n = 0")
    case True
    then show ?thesis using assms by (simp add: kmalloc_def)
  next
    case False
    show ?thesis by (rule kmalloc_cases[OF assms(1) False assms(2)]) simp_all
  qed
  then show "heap_wf h'" "blocks h' = blocks h" "\<forall>a\<in>cover (h_regions h). h_mem h' a = h_mem h a" by blast+
qed

lemma kfree_spec:
  assumes wf: "heap_wf h" and p: "HEAP_HEADER_SIZE \<le> p"
  shows "heap_wf (kfree (Some p) h) \<and> blocks (kfree (Some p) h) = {b \<in> blocks h. fst b \<noteq> p} \<and> h_mem (kfree (Some p) h) = h_mem h"
proof (cases "\<exists>n. node_at (p - HEAP_HEADER_SIZE) h = Some n \<and> \<not> hn_free n")
  case True
  then obtain n where n: "node_at (p - HEAP_HEADER_SIZE) h = Some n" "\<not> hn_free n" by blast
  have nin: "n \<in> set (h_nodes h)" "hn_addr n = p - HEAP_HEADER_SIZE" using n(1) by (auto simp: node_at_def find_Some_iff)
  obtain pre post where ns: "h_nodes h = pre @ n # post" "takeWhile (\<lambda>m. m \<noteq> n) (h_nodes h) = pre" "tl (dropWhile (\<lambda>m. m \<noteq> n) (h_nodes h)) = post"
    using replace_node_split[OF nin(1)] by blast
  obtain x ns' where fr: "free_node pre n post = (x, ns')" by fastforce
  note w = wf_nodes[OF wf, unfolded ns(1)]
  note sp = free_node_spec[OF w(1,3) fr]
  define h1 where "h1 = h\<lparr>h_nodes := ns', h_freed := True\<rparr>"
  have res: "kfree (Some p) h = heap_release_region_if_unused x h1" using n ns fr by (simp add: kfree_def h1_def)
  have "heap_wf h1" using sp w(2) wf by (simp add: h1_def heap_wf_def nodes_ok_def)
  note rel = release_region_spec[OF this, of x]
  have gone: "q \<noteq> p" if "(q, l) \<in> used_blocks (pre @ post)" for q l
  proof
    assume "q = p"
    from that obtain y where y: "y \<in> set (pre @ post)" "q = hn_addr y + HEAP_HEADER_SIZE" unfolding used_blocks_def by auto
    then have "y \<in> set (h_nodes h)" "hn_addr y = hn_addr n" using ns(1) nin(2) p \<open>q = p\<close> by auto
    from node_unique[OF wf_nodes(1)[OF wf] this(1) nin(1) this(2)] have "y = n" .
    moreover have "niv n \<inter> (nodes_span pre \<union> nodes_span post) = {}" using w(1) by simp blast
    moreover have "niv y \<subseteq> nodes_span pre \<union> nodes_span post" using y(1) unfolding nodes_span_def set_append by blast
    ultimately show False using niv_nonempty[of n] by blast
  qed
  have "blocks h = insert (p, hn_size n) (used_blocks (pre @ post))" using n(2) nin(2) p unfolding blocks_def ns(1) by simp
  then have "used_blocks (pre @ post) = {b \<in> blocks h. fst b \<noteq> p}" using gone by fastforce
  then have "blocks h1 = {b \<in> blocks h. fst b \<noteq> p}" using sp by (simp add: h1_def blocks_def)
  then show ?thesis unfolding res using rel sp by (simp add: h1_def)
next
  case False
  have "fst b \<noteq> p" if "b \<in> blocks h" for b
  proof
    assume "fst b = p"
    from that obtain y where y: "y \<in> set (h_nodes h)" "\<not> hn_free y" "fst b = hn_addr y + HEAP_HEADER_SIZE" by (auto simp: blocks_def used_blocks_def)
    then have a: "hn_addr y = p - HEAP_HEADER_SIZE" using \<open>fst b = p\<close> by simp
    then have "node_at (p - HEAP_HEADER_SIZE) h \<noteq> None" using y(1) unfolding node_at_def find_None_iff by blast
    then obtain z where z: "node_at (p - HEAP_HEADER_SIZE) h = Some z" by blast
    then have "z \<in> set (h_nodes h)" "hn_addr z = hn_addr y" using a by (auto simp: node_at_def find_Some_iff)
    then show False using node_unique[OF wf_nodes(1)[OF wf]] y(1,2) z False by blast
  qed
  moreover have "kfree (Some p) h = h" using False by (simp add: kfree_def split: option.splits)
  ultimately show ?thesis using wf by auto
qed

lemma node_at_block:
  assumes "heap_wf h" "(p, l) \<in> blocks h"
  obtains x where "node_at (p - HEAP_HEADER_SIZE) h = Some x" "hn_size x = l" "HEAP_HEADER_SIZE \<le> p"
proof -
  from assms(2) obtain y where y: "y \<in> set (h_nodes h)" "p = hn_addr y + HEAP_HEADER_SIZE" "l = hn_size y"
    by (auto simp: blocks_def used_blocks_def)
  have "node_at (p - HEAP_HEADER_SIZE) h \<noteq> None" using y(1,2) unfolding node_at_def find_None_iff by auto
  then obtain z where z: "node_at (p - HEAP_HEADER_SIZE) h = Some z" by blast
  then have "z \<in> set (h_nodes h)" "hn_addr z = hn_addr y" using y(2) by (auto simp: node_at_def find_Some_iff)
  then have "z = y" using node_unique[OF wf_nodes(1)[OF assms(1)]] y(1) by blast
  then show ?thesis using that z y by auto
qed

lemma block_unique:
  assumes "heap_wf h" "(p, l) \<in> blocks h" "(p, l') \<in> blocks h"
  shows "l' = l"
  using node_at_block[OF assms(1,2)] node_at_block[OF assms(1,3)] by (metis option.inject)

section \<open>Properties\<close>

definition demo_heap :: kheap where
  "demo_heap = heap_initialize (Some 0x1000) 0x1000
     \<lparr>h_nodes = [], h_regions = [], h_vranges = [], h_next_vaddr = 0, h_freed = False, h_pg = demo_paging, h_mem = (\<lambda>_. 7), h_current = True, h_err = None\<rparr>"

lemma demo_heap_eq:
  "h_nodes demo_heap = [\<lparr>hn_addr = 0x1000, hn_size = 0xfe0, hn_free = True\<rparr>]"
  "h_regions demo_heap = [\<lparr>hr_base = 0x1000, hr_size = 0x1000, hr_phys = 0, hr_pages = 1, hr_managed = False\<rparr>]"
  "h_vranges demo_heap = []" "h_next_vaddr demo_heap = KHEAP_BASE"
  by (simp_all add: demo_heap_def heap_initialize_def align_down_def PAGE_SIZE_def Let_def heap_register_region_def
      HEAP_REGION_CAP_def mem_zero_def u32_def HEAP_HEADER_SIZE_def)

lemma demo_heap_wf: "heap_wf demo_heap"
  by (simp add: heap_wf_def demo_heap_eq arena_ok_def nodes_ok_def region_placed_def riv_def niv_def
      KHEAP_LIMIT_def KHEAP_BASE_def KHEAP_SIZE_def HEAP_HEADER_SIZE_def)

lemma demo_heap_blocks: "blocks demo_heap = {}"
  by (simp add: blocks_def demo_heap_eq)

definition demo_heap1 :: kheap where
  "demo_heap1 = demo_heap\<lparr>h_nodes := [\<lparr>hn_addr = 0x1000, hn_size = 112, hn_free = False\<rparr>, \<lparr>hn_addr = 0x1090, hn_size = 3920, hn_free = True\<rparr>]\<rparr>"

lemma demo_kmalloc: "kmalloc 100 demo_heap = (Some 0x1020, demo_heap1)"
  by (simp add: kmalloc_def demo_heap_eq heap_find_suitable_node_def align_up_def HEAP_ALIGNMENT_def u64_def Let_def
      replace_node_def heap_split_node_def HEAP_HEADER_SIZE_def demo_heap1_def)

lemma demo_heap1_blocks: "blocks demo_heap1 = {(0x1020, 112)}"
  by (simp add: blocks_def demo_heap1_def HEAP_HEADER_SIZE_def)



text \<open>
  C31. \<^verbatim>\<open>kfree\<close> takes away exactly the block it is given. Coalescing with the neighbours on both sides, and
  giving a region that has become empty back to the page allocator, leave every other block, its
  contents and the well-formedness of the heap as they are; a pointer to no block in use, as on a second
  \<^verbatim>\<open>kfree\<close>, changes no block.
\<close>

theorem kfree_removes_block:
  assumes "heap_wf h" "HEAP_HEADER_SIZE \<le> p"
  shows "heap_wf (kfree (Some p) h) \<and> blocks (kfree (Some p) h) = {b \<in> blocks h. fst b \<noteq> p}
     \<and> h_mem (kfree (Some p) h) = h_mem h"
  by (rule kfree_spec[OF assms])

theorem kfree_removes_block_witness:
  "blocks (kfree (Some 0x1020) demo_heap1) = {}"
proof -
  have n: "(100::nat) \<noteq> 0" by simp
  have wf: "heap_wf demo_heap1" using kmalloc_spec[OF demo_heap_wf n demo_kmalloc] by blast
  have "HEAP_HEADER_SIZE \<le> 0x1020" by (simp add: HEAP_HEADER_SIZE_def)
  from kfree_removes_block[OF wf this] show ?thesis unfolding demo_heap1_blocks by auto
qed

text \<open>
  A request within 15 bytes of the largest \<^verbatim>\<open>size_t\<close> is rounded up to 0: \<^verbatim>\<open>kmalloc\<close> then succeeds
  whenever any block is free, and the block it returns can be far smaller than the request.
\<close>

theorem kmalloc_wraps_to_zero:
  assumes "heap_wf h" "2 ^ 64 - 15 \<le> n" "n < 2 ^ 64" "x \<in> set (h_nodes h)" "hn_free x"
  shows "\<exists>p k h'. kmalloc n h = (Some p, h') \<and> blocks h' = insert (p, k) (blocks h) \<and> k < n"
proof -
  have "n + 15 - 2 ^ 64 < 16" "2 ^ 64 \<le> n + 15" "n + 15 - 2 ^ 64 < 2 ^ 64" using assms(2,3) by simp_all
  then have "u64 (n + 15) < 16" unfolding u64_def by (simp only: le_mod_geq mod_less)
  then have sz: "align_up n HEAP_ALIGNMENT = 0" by (simp add: align_up_def HEAP_ALIGNMENT_def)
  obtain y where y: "heap_find_suitable_node 0 h = Some y"
    using assms(4,5) unfolding heap_find_suitable_node_def by (metis (mono_tags, lifting) find_None_iff le0 not_None_eq)
  then have yin: "y \<in> set (h_nodes h)" "hn_free y" by (auto simp: heap_find_suitable_node_def find_Some_iff)
  define h' where "h' = h\<lparr>h_nodes := replace_node y (heap_split_node 0 y) (h_nodes h)\<rparr>"
  have "n \<noteq> 0" using assms(2) by auto
  then have km: "kmalloc n h = (Some (hn_addr y + HEAP_HEADER_SIZE), h')" using sz y by (simp add: kmalloc_def h'_def)
  from take_node_spec(2)[OF assms(1) yin, of 0, folded h'_def]
  obtain k where k: "k \<le> hn_size y" "blocks h' = insert (hn_addr y + HEAP_HEADER_SIZE, k) (blocks h)" by auto
  have "niv y \<subseteq> nodes_span (h_nodes h)" using yin(1) unfolding nodes_span_def by blast
  from card_below[OF this nodes_finite wf_nodes(3)[OF assms(1)]] have "HEAP_HEADER_SIZE + hn_size y < 2 ^ 32" by (simp add: niv_def)
  then have "k < n" using k(1) assms(2) by simp
  then show ?thesis using km k(2) by blast
qed

theorem kmalloc_wraps_to_zero_witness:
  "\<exists>p k h'. kmalloc (2 ^ 64 - 1) demo_heap = (Some p, h') \<and> blocks h' = {(p, k)} \<and> k < 2 ^ 64 - 1"
proof -
  let ?n = "2 ^ 64 - 1 :: nat"
  have n: "2 ^ 64 - 15 \<le> ?n" "?n < 2 ^ 64" by simp_all
  have "\<lparr>hn_addr = 0x1000, hn_size = 0xfe0, hn_free = True\<rparr> \<in> set (h_nodes demo_heap)" unfolding demo_heap_eq by simp
  from kmalloc_wraps_to_zero[OF demo_heap_wf n this] show ?thesis unfolding demo_heap_blocks heap_node.select_convs by blast
qed



end
