(* ===== verification/Block_Cache.thy ===== *)
theory Block_Cache
  imports Menios_Prelude
begin

text \<open>
  The buffer cache: \<^verbatim>\<open>src/kernel/block/block_cache.c\<close>.

  A buffer is its index in \<^verbatim>\<open>bcache_pool\<close>. The chains of the hash table and the doubly linked
  least-recently-used list are lists of such indices, the head of the latter first. A block device is
  known by its pointer; \<open>devs\<close> holds what the cache reads of its descriptor. The driver is the state of
  the medium, \<open>disk\<close>, and the outcome of each call to it in turn: the call number \<open>n\<close> succeeds if
  \<open>rd_ok n\<close> for a read and \<open>wr_ok n\<close> for a write or a flush. A successful \<^verbatim>\<open>write_blocks\<close> replaces the block, a failed one leaves it; \<^verbatim>\<open>read_blocks\<close> yields
  the block. \<^verbatim>\<open>bcache_lock\<close> is held throughout an operation, apart from the calls to the driver, and
  waiting on \<^verbatim>\<open>bcache_cv\<close> is the outcome \<open>GetWait\<close>, after which the caller tries again.
\<close>

unbundle bit_operations_syntax

definition BCACHE_MAX_BUFFERS :: nat where
  "BCACHE_MAX_BUFFERS = 512"

definition BCACHE_HASH_BUCKETS :: nat where
  "BCACHE_HASH_BUCKETS = 256"

definition BCACHE_MAX_BLOCK_BYTES :: nat where
  "BCACHE_MAX_BLOCK_BYTES = 4096"

definition BCACHE_DIRTY_LIMIT :: nat where
  "BCACHE_DIRTY_LIMIT = 128"

record block_device =
  d_name :: string
  d_block_size :: nat
  d_block_count :: nat
  d_ops :: bool
  d_has_read :: bool
  d_has_write :: bool
  d_has_flush :: bool
  d_readahead_last_lba :: nat
  d_readahead_last_count :: nat

record buffer_head =
  b_device :: "ptr option"
  b_lba :: nat
  b_block_size :: nat
  b_data :: "byte list"
  b_valid :: bool
  b_dirty :: bool
  b_busy :: bool
  b_allocated :: bool
  b_refcount :: nat

record bcache =
  bcache_pool :: "nat \<Rightarrow> buffer_head"
  bcache_hash :: "nat \<Rightarrow> nat list"
  bcache_lru :: "nat list"
  bcache_dirty_count :: nat
  bcache_initialized :: bool
  devs :: "ptr \<Rightarrow> block_device"
  disk :: "ptr \<Rightarrow> nat \<Rightarrow> byte list"
  rd_ok :: "nat \<Rightarrow> bool"
  wr_ok :: "nat \<Rightarrow> bool"
  io_no :: nat

abbreviation buf :: "bcache \<Rightarrow> nat \<Rightarrow> buffer_head" where
  "buf c i \<equiv> bcache_pool c i"

definition upd_buf :: "nat \<Rightarrow> (buffer_head \<Rightarrow> buffer_head) \<Rightarrow> bcache \<Rightarrow> bcache" where
  "upd_buf i f c = c\<lparr>bcache_pool := (bcache_pool c)(i := f (bcache_pool c i))\<rparr>"

text \<open>Calls to the driver.\<close>

definition write_blocks :: "ptr \<Rightarrow> nat \<Rightarrow> byte list \<Rightarrow> bcache \<Rightarrow> bool \<times> bcache" where
  "write_blocks d lba bs c =
     (let c1 = c\<lparr>io_no := io_no c + 1\<rparr>
      in if wr_ok c (io_no c) then (True, c1\<lparr>disk := (disk c)(d := (disk c d)(lba := bs))\<rparr>) else (False, c1))"

definition read_blocks :: "ptr \<Rightarrow> nat \<Rightarrow> bcache \<Rightarrow> byte list option \<times> bcache" where
  "read_blocks d lba c =
     (if rd_ok c (io_no c) then Some (disk c d lba) else None, c\<lparr>io_no := io_no c + 1\<rparr>)"

section \<open>Hash table and list of use\<close>

definition bcache_hash_key :: "ptr \<Rightarrow> nat \<Rightarrow> nat" where
  "bcache_hash_key d lba = u32 ((d div 16) XOR u32 lba) mod BCACHE_HASH_BUCKETS"

definition bcache_lru_detach :: "nat \<Rightarrow> bcache \<Rightarrow> bcache" where
  "bcache_lru_detach i c = c\<lparr>bcache_lru := filter (\<lambda>j. j \<noteq> i) (bcache_lru c)\<rparr>"

definition bcache_lru_push_front :: "nat \<Rightarrow> bcache \<Rightarrow> bcache" where
  "bcache_lru_push_front i c = c\<lparr>bcache_lru := i # bcache_lru c\<rparr>"

text \<open>Of a buffer whose device is not set the key is that of the null pointer.\<close>

definition buf_key :: "nat \<Rightarrow> bcache \<Rightarrow> nat" where
  "buf_key i c = bcache_hash_key (case b_device (buf c i) of None \<Rightarrow> 0 | Some d \<Rightarrow> d) (b_lba (buf c i))"

definition bcache_hash_insert :: "nat \<Rightarrow> bcache \<Rightarrow> bcache" where
  "bcache_hash_insert i c = c\<lparr>bcache_hash := (bcache_hash c)(buf_key i c := i # bcache_hash c (buf_key i c))\<rparr>"

definition bcache_hash_remove :: "nat \<Rightarrow> bcache \<Rightarrow> bcache" where
  "bcache_hash_remove i c = c\<lparr>bcache_hash := (bcache_hash c)(buf_key i c := remove1 i (bcache_hash c (buf_key i c)))\<rparr>"

definition bcache_hash_lookup :: "ptr \<Rightarrow> nat \<Rightarrow> bcache \<Rightarrow> nat option" where
  "bcache_hash_lookup d lba c =
     find (\<lambda>i. b_valid (buf c i) \<and> b_device (buf c i) = Some d \<and> b_lba (buf c i) = lba) (bcache_hash c (bcache_hash_key d lba))"

definition bcache_select_victim :: "bcache \<Rightarrow> nat option" where
  "bcache_select_victim c = find (\<lambda>i. b_refcount (buf c i) = 0 \<and> \<not> b_busy (buf c i)) (rev (bcache_lru c))"

section \<open>Getting and releasing buffers\<close>

definition bcache_flush_locked :: "nat \<Rightarrow> bcache \<Rightarrow> bool \<times> bcache" where
  "bcache_flush_locked i c =
     (let b = buf c i in
      case b_device b of
        None \<Rightarrow> (True, c)
      | Some d \<Rightarrow>
          if \<not> b_dirty b \<or> \<not> b_valid b then (True, c)
          else if \<not> d_ops (devs c d) \<or> \<not> d_has_write (devs c d) then (False, c)
          else (case write_blocks d (b_lba b) (take (b_block_size b) (b_data b)) c of
                  (False, c1) \<Rightarrow> (False, c1)
                | (True, c1) \<Rightarrow>
                    (True, (upd_buf i (\<lambda>b. b\<lparr>b_dirty := False\<rparr>) c1)\<lparr>bcache_dirty_count := bcache_dirty_count c - 1\<rparr>)))"

definition bcache_alloc_locked :: "bcache \<Rightarrow> nat option \<times> bcache" where
  "bcache_alloc_locked c =
     (case find (\<lambda>i. \<not> b_allocated (buf c i)) [0..<BCACHE_MAX_BUFFERS] of
        None \<Rightarrow> (None, c)
      | Some i \<Rightarrow> (Some i, upd_buf i (\<lambda>b. b\<lparr>b_allocated := True\<rparr>) c))"

definition bad_device :: "ptr option \<Rightarrow> bcache \<Rightarrow> bool" where
  "bad_device device c \<longleftrightarrow>
     (case device of None \<Rightarrow> True | Some d \<Rightarrow> d_block_size (devs c d) = 0 \<or> d_block_size (devs c d) > BCACHE_MAX_BLOCK_BYTES)"

datatype get_result = Got nat bool | GetWait

text \<open>The buffer for a new block: the least recently used one that is idle, else one never used.\<close>

definition pick_victim :: "bcache \<Rightarrow> nat option \<times> bcache" where
  "pick_victim c =
     (case bcache_select_victim c of
        Some i \<Rightarrow> (Some i, c)
      | None \<Rightarrow>
          (case bcache_alloc_locked c of
             (None, c1) \<Rightarrow> (None, c1)
           | (Some i, c1) \<Rightarrow>
               (Some i, upd_buf i (\<lambda>b. b\<lparr>b_refcount := 0, b_dirty := False, b_valid := False, b_busy := False,
                                       b_device := None, b_lba := 0, b_block_size := 0\<rparr>) c1)))"

text \<open>Turning the victim into the buffer of another block.\<close>

definition claim_victim :: "ptr \<Rightarrow> nat \<Rightarrow> nat \<Rightarrow> bcache \<Rightarrow> bcache" where
  "claim_victim d lba i c =
     (let c1 = upd_buf i (\<lambda>b. b\<lparr>b_busy := True\<rparr>) c;
          c2 = (if b_valid (buf c1 i) \<and> b_dirty (buf c1 i) then snd (bcache_flush_locked i c1) else c1);
          c3 = (if b_valid (buf c2 i) then bcache_hash_remove i c2 else c2);
          c4 = upd_buf i (\<lambda>b. b\<lparr>b_device := Some d, b_lba := lba, b_block_size := d_block_size (devs c d),
                                b_valid := False, b_dirty := False, b_refcount := 1\<rparr>) c3
      in bcache_lru_push_front i (bcache_lru_detach i (bcache_hash_insert i c4)))"

text \<open>One turn of the loop of \<^verbatim>\<open>bcache_get_locked\<close>, with its device already checked.\<close>

definition bcache_get_locked :: "ptr \<Rightarrow> nat \<Rightarrow> bcache \<Rightarrow> get_result \<times> bcache" where
  "bcache_get_locked d lba c =
     (case bcache_hash_lookup d lba c of
        Some i \<Rightarrow>
          if b_busy (buf c i) then (GetWait, c)
          else (Got i False, bcache_lru_push_front i (bcache_lru_detach i
                  (upd_buf i (\<lambda>b. b\<lparr>b_busy := True, b_refcount := u32 (b_refcount b + 1)\<rparr>) c)))
      | None \<Rightarrow>
          (case pick_victim c of
             (None, c1) \<Rightarrow> (GetWait, c1)
           | (Some i, c1) \<Rightarrow> (Got i True, claim_victim d lba i c1)))"

definition bcache_release_locked :: "nat \<Rightarrow> bcache \<Rightarrow> bcache" where
  "bcache_release_locked i c =
     (if b_refcount (buf c i) = 0 then c
      else bcache_lru_push_front i (bcache_lru_detach i
             (upd_buf i (\<lambda>b. b\<lparr>b_refcount := b_refcount b - 1, b_busy := False\<rparr>) c)))"

definition zero_buffer :: buffer_head where
  "zero_buffer = \<lparr>b_device = None, b_lba = 0, b_block_size = 0, b_data = replicate BCACHE_MAX_BLOCK_BYTES 0,
     b_valid = False, b_dirty = False, b_busy = False, b_allocated = False, b_refcount = 0\<rparr>"

definition block_cache_initialize :: "bcache \<Rightarrow> bcache" where
  "block_cache_initialize c =
     (if bcache_initialized c then c
      else c\<lparr>bcache_hash := (\<lambda>_. []), bcache_pool := (\<lambda>_. zero_buffer), bcache_lru := [], bcache_initialized := True\<rparr>)"

definition shutdown_buffer :: "nat \<Rightarrow> bcache \<Rightarrow> bcache" where
  "shutdown_buffer i c =
     (let c1 = (if b_dirty (buf c i) \<and> b_valid (buf c i) then snd (bcache_flush_locked i c) else c)
      in upd_buf i (\<lambda>b. zero_buffer\<lparr>b_data := b_data b\<rparr>) c1)"

definition block_cache_shutdown :: "bcache \<Rightarrow> bcache" where
  "block_cache_shutdown c =
     (if \<not> bcache_initialized c then c
      else (fold shutdown_buffer [0..<BCACHE_MAX_BUFFERS] c)
             \<lparr>bcache_hash := (\<lambda>_. []), bcache_lru := [], bcache_dirty_count := 0, bcache_initialized := False\<rparr>)"

text \<open>\<^verbatim>\<open>BWait\<close>: the call is waiting for a buffer; \<^verbatim>\<open>BNull\<close>: it returned \<^verbatim>\<open>NULL\<close>.\<close>

datatype buf_result = BOk nat | BNull | BWait

definition bread :: "ptr option \<Rightarrow> nat \<Rightarrow> bcache \<Rightarrow> buf_result \<times> bcache" where
  "bread device lba c =
     (case device of
        None \<Rightarrow> (BNull, c)
      | Some d \<Rightarrow>
          if bad_device device c then (BNull, c)
          else if \<not> d_ops (devs c d) \<or> \<not> d_has_read (devs c d) then (BNull, c)
          else case bcache_get_locked d lba c of
            (GetWait, c1) \<Rightarrow> (BWait, c1)
          | (Got i False, c1) \<Rightarrow> (BOk i, c1)
          | (Got i True, c1) \<Rightarrow>
              (case read_blocks d lba c1 of
                 (None, c2) \<Rightarrow>
                   (BNull, bcache_lru_push_front i (bcache_lru_detach i (bcache_hash_remove i
                             (upd_buf i (\<lambda>b. b\<lparr>b_valid := False, b_refcount := 0, b_busy := False\<rparr>) c2))))
               | (Some bs, c2) \<Rightarrow>
                   (BOk i, upd_buf i (\<lambda>b. b\<lparr>b_data := bs, b_valid := True, b_dirty := False,
                                          b_block_size := d_block_size (devs c d)\<rparr>) c2)))"

definition bget :: "ptr option \<Rightarrow> nat \<Rightarrow> bcache \<Rightarrow> buf_result \<times> bcache" where
  "bget device lba c =
     (case device of
        None \<Rightarrow> (BNull, c)
      | Some d \<Rightarrow>
          if bad_device device c then (BNull, c)
          else case bcache_get_locked d lba c of
            (GetWait, c1) \<Rightarrow> (BWait, c1)
          | (Got i False, c1) \<Rightarrow> (BOk i, c1)
          | (Got i True, c1) \<Rightarrow>
              (BOk i, upd_buf i (\<lambda>b. b\<lparr>b_data := replicate (d_block_size (devs c d)) 0, b_valid := True\<rparr>) c1))"

definition bdirty :: "nat \<Rightarrow> bcache \<Rightarrow> bcache" where
  "bdirty i c =
     (let c1 = (if b_dirty (buf c i) then c
                else (upd_buf i (\<lambda>b. b\<lparr>b_dirty := True\<rparr>) c)\<lparr>bcache_dirty_count := bcache_dirty_count c + 1\<rparr>)
      in if bcache_dirty_count c1 > BCACHE_DIRTY_LIMIT
         then (case find (\<lambda>j. b_dirty (buf c1 j) \<and> b_refcount (buf c1 j) = 0 \<and> \<not> b_busy (buf c1 j)) (rev (bcache_lru c1)) of
                 None \<Rightarrow> c1
               | Some j \<Rightarrow> snd (bcache_flush_locked j c1))
         else c1)"

definition bwrite :: "nat \<Rightarrow> bcache \<Rightarrow> bool \<times> bcache" where
  "bwrite i c =
     (let b = buf c i in
      case b_device b of
        None \<Rightarrow> (False, c)
      | Some d \<Rightarrow>
          if \<not> d_ops (devs c d) \<or> \<not> d_has_write (devs c d) then (False, c)
          else (case write_blocks d (b_lba b) (take (b_block_size b) (b_data b)) c of
                  (False, c1) \<Rightarrow> (False, c1)
                | (True, c1) \<Rightarrow>
                    (True, if b_dirty (buf c1 i)
                           then (upd_buf i (\<lambda>b. b\<lparr>b_dirty := False\<rparr>) c1)\<lparr>bcache_dirty_count := bcache_dirty_count c1 - 1\<rparr>
                           else c1)))"

definition brelse :: "nat \<Rightarrow> bcache \<Rightarrow> bcache" where
  "brelse i c = bcache_release_locked i c"

definition flush_buffer :: "ptr \<Rightarrow> nat \<Rightarrow> bcache \<Rightarrow> bcache" where
  "flush_buffer d i c =
     (if b_device (buf c i) = Some d \<and> b_dirty (buf c i) \<and> b_valid (buf c i) then snd (bcache_flush_locked i c) else c)"

definition block_cache_flush_device :: "ptr \<Rightarrow> bcache \<Rightarrow> bcache" where
  "block_cache_flush_device d c = fold (flush_buffer d) [0..<BCACHE_MAX_BUFFERS] c"

definition invalidate_buffer :: "ptr \<Rightarrow> nat \<Rightarrow> bcache \<Rightarrow> bcache" where
  "invalidate_buffer d i c =
     (if b_device (buf c i) \<noteq> Some d then c
      else let c1 = flush_buffer d i c;
               c2 = (if b_valid (buf c1 i) then bcache_hash_remove i c1 else c1);
               c3 = upd_buf i (\<lambda>b. b\<lparr>b_valid := False, b_dirty := False, b_device := None, b_lba := 0, b_block_size := 0\<rparr>) c2
           in bcache_lru_push_front i (bcache_lru_detach i c3))"

definition block_cache_invalidate_device :: "ptr \<Rightarrow> bcache \<Rightarrow> bcache" where
  "block_cache_invalidate_device d c = fold (invalidate_buffer d) [0..<BCACHE_MAX_BUFFERS] c"

section \<open>The state of the cache\<close>

definition writable :: "bcache \<Rightarrow> ptr \<Rightarrow> bool" where
  "writable c d \<longleftrightarrow> d_ops (devs c d) \<and> d_has_write (devs c d)"

text \<open>Buffers that the hash table knows: the valid ones and those of \<open>F\<close>, about to be filled.\<close>

definition keyed :: "nat set \<Rightarrow> bcache \<Rightarrow> nat \<Rightarrow> bool" where
  "keyed F c i \<longleftrightarrow> b_valid (buf c i) \<or> i \<in> F"

text \<open>
  Structure: the list of use holds the allocated buffers; the buffers of \<open>H\<close> are held by a caller, the
  others idle; the hash table finds exactly the keyed buffers, and no two of them are for the same block.
\<close>

definition lru_ok :: "nat set \<Rightarrow> bcache \<Rightarrow> bool" where
  "lru_ok H c \<longleftrightarrow> distinct (bcache_lru c) \<and> set (bcache_lru c) = {i. i < BCACHE_MAX_BUFFERS \<and> b_allocated (buf c i)}
     \<and> H \<subseteq> set (bcache_lru c)
     \<and> (\<forall>i\<in>set (bcache_lru c). (b_busy (buf c i) \<longleftrightarrow> i \<in> H) \<and> b_refcount (buf c i) = (if i \<in> H then 1 else 0))
     \<and> (\<forall>i. b_valid (buf c i) \<longrightarrow> i \<in> set (bcache_lru c))"

definition hash_ok :: "nat set \<Rightarrow> bcache \<Rightarrow> bool" where
  "hash_ok F c \<longleftrightarrow> (\<forall>k. distinct (bcache_hash c k)) \<and> (\<forall>k i. i \<in> set (bcache_hash c k) \<longleftrightarrow> keyed F c i \<and> buf_key i c = k)
     \<and> (\<forall>i j. keyed F c i \<longrightarrow> keyed F c j \<longrightarrow> b_device (buf c i) = b_device (buf c j) \<longrightarrow> b_lba (buf c i) = b_lba (buf c j) \<longrightarrow> i = j)
     \<and> (\<forall>i\<in>F. \<not> b_valid (buf c i))"

text \<open>
  Contents: a keyed buffer has the size of its device's blocks; a valid buffer that is not dirty, and not of
  \<open>W\<close>, about to be written, agrees with the medium; a dirty one is valid and can be written back.
\<close>

definition data_ok :: "nat set \<Rightarrow> nat set \<Rightarrow> bcache \<Rightarrow> bool" where
  "data_ok F W c \<longleftrightarrow>
     (\<forall>i. keyed F c i \<longrightarrow> (\<exists>d. b_device (buf c i) = Some d \<and> \<not> bad_device (Some d) c \<and> b_block_size (buf c i) = d_block_size (devs c d)))
     \<and> (\<forall>i. b_valid (buf c i) \<longrightarrow> length (b_data (buf c i)) = b_block_size (buf c i))
     \<and> (\<forall>i. b_dirty (buf c i) \<longrightarrow> b_valid (buf c i) \<and> (\<forall>d. b_device (buf c i) = Some d \<longrightarrow> writable c d))
     \<and> (\<forall>i d. b_valid (buf c i) \<longrightarrow> \<not> b_dirty (buf c i) \<longrightarrow> i \<notin> W \<longrightarrow> b_device (buf c i) = Some d \<longrightarrow> b_data (buf c i) = disk c d (b_lba (buf c i)))
     \<and> (\<forall>d l. \<not> bad_device (Some d) c \<longrightarrow> length (disk c d l) = d_block_size (devs c d))"

definition cinv :: "nat set \<Rightarrow> nat set \<Rightarrow> nat set \<Rightarrow> bcache \<Rightarrow> bool" where
  "cinv H F W c \<longleftrightarrow> lru_ok H c \<and> hash_ok F c \<and> data_ok F W c"

lemma data_okI:
  assumes "\<And>i. keyed F c i \<Longrightarrow> \<exists>d. b_device (buf c i) = Some d \<and> \<not> bad_device (Some d) c \<and> b_block_size (buf c i) = d_block_size (devs c d)"
    "\<And>i. b_valid (buf c i) \<Longrightarrow> length (b_data (buf c i)) = b_block_size (buf c i)"
    "\<And>i. b_dirty (buf c i) \<Longrightarrow> b_valid (buf c i)" "\<And>i d. b_dirty (buf c i) \<Longrightarrow> b_device (buf c i) = Some d \<Longrightarrow> writable c d"
    "\<And>i d. b_valid (buf c i) \<Longrightarrow> \<not> b_dirty (buf c i) \<Longrightarrow> i \<notin> W \<Longrightarrow> b_device (buf c i) = Some d \<Longrightarrow> b_data (buf c i) = disk c d (b_lba (buf c i))"
    "\<And>d l. \<not> bad_device (Some d) c \<Longrightarrow> length (disk c d l) = d_block_size (devs c d)"
  shows "data_ok F W c"
  using assms by (simp add: data_ok_def)

lemma data_okD:
  assumes "data_ok F W c"
  shows "keyed F c i \<Longrightarrow> \<exists>d. b_device (buf c i) = Some d \<and> \<not> bad_device (Some d) c \<and> b_block_size (buf c i) = d_block_size (devs c d)"
    "b_valid (buf c i) \<Longrightarrow> length (b_data (buf c i)) = b_block_size (buf c i)"
    "b_dirty (buf c i) \<Longrightarrow> b_valid (buf c i)" "b_dirty (buf c i) \<Longrightarrow> b_device (buf c i) = Some d \<Longrightarrow> writable c d"
    "b_valid (buf c i) \<Longrightarrow> \<not> b_dirty (buf c i) \<Longrightarrow> i \<notin> W \<Longrightarrow> b_device (buf c i) = Some d \<Longrightarrow> b_data (buf c i) = disk c d (b_lba (buf c i))"
    "\<not> bad_device (Some d) c \<Longrightarrow> length (disk c d l) = d_block_size (devs c d)"
  using assms unfolding data_ok_def by blast+

text \<open>What the cache stands for: the contents of the blocks, whether written back yet or not.\<close>

definition view :: "bcache \<Rightarrow> ptr \<Rightarrow> nat \<Rightarrow> byte list" where
  "view c d l = (case bcache_hash_lookup d l c of Some i \<Rightarrow> b_data (buf c i) | None \<Rightarrow> disk c d l)"

definition cached :: "bcache \<Rightarrow> nat \<Rightarrow> ptr \<Rightarrow> nat \<Rightarrow> bool" where
  "cached c i d l \<longleftrightarrow> b_valid (buf c i) \<and> b_device (buf c i) = Some d \<and> b_lba (buf c i) = l"

lemma lookup_iff:
  assumes "hash_ok F c"
  shows "bcache_hash_lookup d l c = Some i \<longleftrightarrow> cached c i d l"
proof
  assume "bcache_hash_lookup d l c = Some i"
  then show "cached c i d l" by (auto simp: bcache_hash_lookup_def find_Some_iff cached_def)
next
  assume i: "cached c i d l"
  then have "i \<in> set (bcache_hash c (bcache_hash_key d l))" using assms by (auto simp: hash_ok_def keyed_def cached_def buf_key_def)
  then have "bcache_hash_lookup d l c \<noteq> None" using i unfolding bcache_hash_lookup_def find_None_iff cached_def by blast
  then obtain j where j: "bcache_hash_lookup d l c = Some j" by blast
  then have "cached c j d l" by (auto simp: bcache_hash_lookup_def find_Some_iff cached_def)
  then have "j = i" using i assms unfolding hash_ok_def keyed_def cached_def by metis
  then show "bcache_hash_lookup d l c = Some i" using j by simp
qed

lemma view_cached: "hash_ok F c \<Longrightarrow> cached c i d l \<Longrightarrow> view c d l = b_data (buf c i)"
  using lookup_iff[of F c d l i] by (simp add: view_def)

lemma view_uncached: "hash_ok F c \<Longrightarrow> (\<And>i. \<not> cached c i d l) \<Longrightarrow> view c d l = disk c d l"
  by (metis lookup_iff not_None_eq option.case(1) view_def)

text \<open>Two caches with the same valid buffers, up to dirtiness, that agree on what is not cached have the same view.\<close>

lemma view_eqI:
  assumes "hash_ok F c" "hash_ok F' c'"
    and "\<And>i. cached c' i d l \<Longrightarrow> cached c i d l \<and> b_data (buf c' i) = b_data (buf c i)"
    and "\<And>i. cached c i d l \<Longrightarrow> \<not> cached c' i d l \<Longrightarrow> disk c' d l = b_data (buf c i)"
    and "(\<And>i. \<not> cached c i d l) \<Longrightarrow> disk c' d l = disk c d l"
  shows "view c' d l = view c d l"
proof (cases "\<exists>i. cached c i d l")
  case True
  then obtain i where i: "cached c i d l" by blast
  show ?thesis
  proof (cases "cached c' i d l")
    case True
    then show ?thesis using view_cached[OF assms(2) True] view_cached[OF assms(1) i] assms(3) by simp
  next
    case False
    have "\<not> cached c' j d l" for j
    proof
      assume j: "cached c' j d l"
      then have "cached c j d l" using assms(3) by blast
      then have "j = i" using i lookup_iff[OF assms(1)] by (metis option.inject)
      then show False using False j by simp
    qed
    then show ?thesis using view_uncached[OF assms(2)] view_cached[OF assms(1) i] assms(4)[OF i False] by simp
  qed
next
  case False
  then have "\<not> cached c' i d l" for i using assms(3) by blast
  then show ?thesis using False view_uncached[OF assms(2)] view_uncached[OF assms(1)] assms(5) by metis
qed

section \<open>Writing back\<close>

lemma buf_upd_buf [simp]: "buf (upd_buf i f c) j = (if j = i then f (buf c i) else buf c j)"
  by (simp add: upd_buf_def)

lemma upd_buf_sel [simp]:
  "bcache_hash (upd_buf i f c) = bcache_hash c" "bcache_lru (upd_buf i f c) = bcache_lru c" "devs (upd_buf i f c) = devs c"
  "disk (upd_buf i f c) = disk c" "rd_ok (upd_buf i f c) = rd_ok c" "wr_ok (upd_buf i f c) = wr_ok c" "io_no (upd_buf i f c) = io_no c"
  "bcache_dirty_count (upd_buf i f c) = bcache_dirty_count c"
  by (simp_all add: upd_buf_def)

text \<open>The part of the state that operations of the cache never change.\<close>

definition same_world :: "bcache \<Rightarrow> bcache \<Rightarrow> bool" where
  "same_world c c' \<longleftrightarrow> devs c' = devs c \<and> rd_ok c' = rd_ok c \<and> wr_ok c' = wr_ok c"

lemma same_world_refl [simp]: "same_world c c"
  by (simp add: same_world_def)

lemma same_world_trans: "same_world a b \<Longrightarrow> same_world b c \<Longrightarrow> same_world a c"
  by (simp add: same_world_def)

lemma bad_device_devs: "devs c' = devs c \<Longrightarrow> bad_device d c' = bad_device d c"
  by (simp add: bad_device_def split: option.splits)

definition written_back :: "nat \<Rightarrow> ptr \<Rightarrow> bcache \<Rightarrow> bcache" where
  "written_back i d c = (upd_buf i (\<lambda>b. b\<lparr>b_dirty := False\<rparr>) c)
     \<lparr>io_no := io_no c + 1, disk := (disk c)(d := (disk c d)(b_lba (buf c i) := b_data (buf c i))), bcache_dirty_count := bcache_dirty_count c - 1\<rparr>"

lemma flush_dirty:
  assumes "data_ok F W c" "\<forall>n. wr_ok c n" "b_dirty (buf c i)"
  obtains d where "b_device (buf c i) = Some d" "b_valid (buf c i)" "bcache_flush_locked i c = (True, written_back i d c)"
proof -
  have v: "b_valid (buf c i)" using assms(1,3) by (simp add: data_ok_def)
  then obtain d where d: "b_device (buf c i) = Some d" "writable c d" "length (b_data (buf c i)) = b_block_size (buf c i)"
    using assms(1,3) unfolding data_ok_def keyed_def by metis
  have "bcache_flush_locked i c = (True, written_back i d c)"
    using v d assms(2,3) by (simp add: bcache_flush_locked_def write_blocks_def writable_def Let_def written_back_def upd_buf_def)
  then show ?thesis using that d(1) v by blast
qed

lemma flush_clean: "\<not> b_dirty (buf c i) \<Longrightarrow> bcache_flush_locked i c = (True, c)"
  by (simp add: bcache_flush_locked_def Let_def split: option.splits)

lemma hash_ok_cong:
  assumes "hash_ok F c" "\<And>j. keyed F' c' j = keyed F c j" "\<And>j. b_device (buf c' j) = b_device (buf c j)"
    "\<And>j. b_lba (buf c' j) = b_lba (buf c j)" "bcache_hash c' = bcache_hash c" "\<And>j. j \<in> F' \<Longrightarrow> \<not> b_valid (buf c' j)"
  shows "hash_ok F' c'"
proof -
  have k: "buf_key j c' = buf_key j c" for j unfolding buf_key_def assms(3,4) by (rule refl)
  show ?thesis using assms(1,6) unfolding hash_ok_def assms(2-5) k by blast
qed

text \<open>Changes that leave the cached contents alone.\<close>

lemma same_contents:
  assumes "\<And>j. b_valid (buf c' j) = b_valid (buf c j)" "\<And>j. b_device (buf c' j) = b_device (buf c j)"
    "\<And>j. b_lba (buf c' j) = b_lba (buf c j)" "\<And>j. b_data (buf c' j) = b_data (buf c j)"
    "\<And>j. b_block_size (buf c' j) = b_block_size (buf c j)" "\<And>j. b_dirty (buf c' j) = b_dirty (buf c j)"
    "bcache_hash c' = bcache_hash c" "devs c' = devs c" "disk c' = disk c"
  shows "hash_ok F c' = hash_ok F c" "data_ok F W c' = data_ok F W c" "view c' = view c"
proof -
  have k: "keyed F c' = keyed F c" "buf_key j c' = buf_key j c" for j by (auto simp: keyed_def buf_key_def assms)
  show "hash_ok F c' = hash_ok F c" by (simp add: hash_ok_def k assms)
  show "data_ok F W c' = data_ok F W c" by (simp add: data_ok_def k assms bad_device_devs[OF assms(8)] writable_def)
  show "view c' = view c" unfolding view_def bcache_hash_lookup_def assms by (rule refl)
qed

lemma written_back_inv:
  assumes h: "hash_ok F c" and dk: "data_ok F W c" and i: "b_device (buf c i) = Some d" "b_valid (buf c i)" "b_dirty (buf c i)"
  shows "hash_ok F (written_back i d c)" "data_ok F W (written_back i d c)" "view (written_back i d c) = view c"
proof -
  let ?c = "written_back i d c"
  have s: "bcache_lru ?c = bcache_lru c" "bcache_hash ?c = bcache_hash c" "devs ?c = devs c"
    "disk ?c = (disk c)(d := (disk c d)(b_lba (buf c i) := b_data (buf c i)))" by (simp_all add: written_back_def)
  have f: "b_valid (buf ?c j) = b_valid (buf c j)" "b_device (buf ?c j) = b_device (buf c j)" "b_lba (buf ?c j) = b_lba (buf c j)"
    "b_data (buf ?c j) = b_data (buf c j)" "b_block_size (buf ?c j) = b_block_size (buf c j)"
    "b_dirty (buf ?c j) \<longleftrightarrow> j \<noteq> i \<and> b_dirty (buf c j)" for j by (simp_all add: written_back_def)
  have k: "keyed F ?c = keyed F c" "buf_key j ?c = buf_key j c" for j by (auto simp: keyed_def buf_key_def f)
  have u: "j = i" if "b_valid (buf c j)" "b_device (buf c j) = Some d" "b_lba (buf c j) = b_lba (buf c i)" for j
    using h that i unfolding hash_ok_def keyed_def by metis
  show h': "hash_ok F ?c" using h by (simp add: hash_ok_def k f s)
  have "length (b_data (buf c i)) = d_block_size (devs c d)" using dk i unfolding data_ok_def keyed_def by (metis option.inject)
  moreover have "b_data (buf c j) = disk ?c e (b_lba (buf c j))"
    if "b_valid (buf c j)" "\<not> (j \<noteq> i \<and> b_dirty (buf c j))" "j \<notin> W" "b_device (buf c j) = Some e" for j e
  proof (cases "j = i")
    case True
    then show ?thesis unfolding s(4) using that(4) i(1) by simp
  next
    case False
    then have "b_data (buf c j) = disk c e (b_lba (buf c j))" using dk that unfolding data_ok_def by metis
    then show ?thesis unfolding s(4) using u[of j] False that by auto
  qed
  ultimately show "data_ok F W ?c" using dk
    by (intro data_okI) (auto simp: k f s bad_device_devs[OF s(3)] writable_def dest: data_okD)
  have ca: "cached ?c = cached c" by (intro ext) (simp add: cached_def f)
  show "view ?c = view c"
  proof (intro ext)
    fix e l
    show "view ?c e l = view c e l"
    proof (rule view_eqI[OF h h'])
      assume "\<And>j. \<not> cached c j e l"
      then have "\<not> (e = d \<and> l = b_lba (buf c i))" using i by (auto simp: cached_def)
      then show "disk ?c e l = disk c e l" by (auto simp: s)
    qed (simp_all add: ca f)
  qed
qed

lemma flush_spec:
  assumes "hash_ok F c" "data_ok F W c" "\<forall>n. wr_ok c n" "bcache_flush_locked i c = (ok, c')"
  shows "hash_ok F c'" "data_ok F W c'" "view c' = view c" "same_world c c'" "bcache_lru c' = bcache_lru c" "bcache_hash c' = bcache_hash c"
    "\<And>j. buf c' j = (if j = i then (buf c i)\<lparr>b_dirty := False\<rparr> else buf c j)"
proof -
  have "hash_ok F c' \<and> data_ok F W c' \<and> view c' = view c \<and> same_world c c' \<and> bcache_lru c' = bcache_lru c \<and> bcache_hash c' = bcache_hash c
    \<and> (\<forall>j. buf c' j = (if j = i then (buf c i)\<lparr>b_dirty := False\<rparr> else buf c j))"
  proof (cases "b_dirty (buf c i)")
    case True
    obtain d where d: "b_device (buf c i) = Some d" "b_valid (buf c i)" "bcache_flush_locked i c = (True, written_back i d c)"
      by (rule flush_dirty[OF assms(2,3) True])
    then have "c' = written_back i d c" using assms(4) by simp
    then show ?thesis using written_back_inv[OF assms(1,2) d(1,2) True] by (simp add: written_back_def same_world_def)
  next
    case False
    then have "c' = c" using flush_clean[OF False] assms(4) by simp
    moreover have "(buf c i)\<lparr>b_dirty := False\<rparr> = buf c i" using False by simp
    ultimately show ?thesis using assms(1,2) by simp
  qed
  then show "hash_ok F c'" "data_ok F W c'" "view c' = view c" "same_world c c'" "bcache_lru c' = bcache_lru c" "bcache_hash c' = bcache_hash c"
    "\<And>j. buf c' j = (if j = i then (buf c i)\<lparr>b_dirty := False\<rparr> else buf c j)" by simp_all
qed

lemma lru_ok_cong:
  assumes "bcache_lru c' = bcache_lru c" "\<And>j. b_valid (buf c' j) = b_valid (buf c j)" "\<And>j. b_busy (buf c' j) = b_busy (buf c j)"
    "\<And>j. b_refcount (buf c' j) = b_refcount (buf c j)" "\<And>j. b_allocated (buf c' j) = b_allocated (buf c j)"
  shows "lru_ok H c' = lru_ok H c"
  unfolding lru_ok_def assms by (rule refl)

lemma flush_cinv:
  assumes "cinv H F W c" "\<forall>n. wr_ok c n" "bcache_flush_locked i c = (ok, c')"
  shows "cinv H F W c'"
proof -
  have "hash_ok F c" "data_ok F W c" using assms(1) by (simp_all add: cinv_def)
  note sp = flush_spec[OF this assms(2,3)]
  have "lru_ok H c' = lru_ok H c" by (rule lru_ok_cong) (simp_all add: sp(5,7))
  then show ?thesis using sp(1,2) assms(1) by (simp add: cinv_def)
qed

section \<open>Getting a buffer\<close>

definition lru_touch :: "nat \<Rightarrow> bcache \<Rightarrow> bcache" where
  "lru_touch i c = bcache_lru_push_front i (bcache_lru_detach i c)"

lemma lru_touch_sel [simp]:
  "bcache_pool (lru_touch i c) = bcache_pool c" "bcache_hash (lru_touch i c) = bcache_hash c" "devs (lru_touch i c) = devs c"
  "disk (lru_touch i c) = disk c" "rd_ok (lru_touch i c) = rd_ok c" "wr_ok (lru_touch i c) = wr_ok c"
  "bcache_lru (lru_touch i c) = i # filter (\<lambda>j. j \<noteq> i) (bcache_lru c)"
  by (simp_all add: lru_touch_def bcache_lru_push_front_def bcache_lru_detach_def)

lemma hit_spec:
  assumes inv: "cinv {} {} {} c" and i: "cached c i d l"
  defines "c' \<equiv> lru_touch i (upd_buf i (\<lambda>b. b\<lparr>b_busy := True, b_refcount := u32 (b_refcount b + 1)\<rparr>) c)"
  shows "bcache_get_locked d l c = (Got i False, c')" "cinv {i} {} {} c'" "view c' = view c" "same_world c c'" "buf c' i = (buf c i)\<lparr>b_busy := True, b_refcount := 1\<rparr>"
proof -
  have h: "hash_ok {} c" and l: "lru_ok {} c" and dk: "data_ok {} {} c" using inv by (simp_all add: cinv_def)
  have v: "b_valid (buf c i)" using i by (simp add: cached_def)
  then have il: "i \<in> set (bcache_lru c)" "\<not> b_busy (buf c i)" "b_refcount (buf c i) = 0"
    using l unfolding lru_ok_def by auto
  have "bcache_hash_lookup d l c = Some i" using lookup_iff[OF h] i by blast
  then show "bcache_get_locked d l c = (Got i False, c')" using il by (simp add: bcache_get_locked_def lru_touch_def c'_def)
  have "hash_ok {} c' = hash_ok {} c" "data_ok {} {} c' = data_ok {} {} c" and vw: "view c' = view c"
    by (rule same_contents; simp add: c'_def)+
  moreover have "lru_ok {i} c'" using l il unfolding lru_ok_def c'_def by (auto simp: u32_def)
  ultimately show "cinv {i} {} {} c'" using h dk by (simp add: cinv_def)
  show "view c' = view c" by (rule vw)
  show "same_world c c'" by (simp add: same_world_def c'_def)
  show "buf c' i = (buf c i)\<lparr>b_busy := True, b_refcount := 1\<rparr>" using il by (simp add: c'_def u32_def)
qed

text \<open>The victim is idle, and it is the only allocated buffer that may be missing in the list of use.\<close>

definition victim_ok :: "nat \<Rightarrow> bcache \<Rightarrow> bool" where
  "victim_ok i c \<longleftrightarrow> distinct (bcache_lru c) \<and> insert i (set (bcache_lru c)) = {j. j < BCACHE_MAX_BUFFERS \<and> b_allocated (buf c j)}
     \<and> (\<forall>j\<in>insert i (set (bcache_lru c)). \<not> b_busy (buf c j) \<and> b_refcount (buf c j) = 0)
     \<and> (\<forall>j. b_valid (buf c j) \<longrightarrow> j \<in> set (bcache_lru c))"

lemma pick_victim_spec:
  assumes inv: "cinv {} {} {} c"
  obtains i c1 where "pick_victim c = (Some i, c1)" "victim_ok i c1" "hash_ok {} c1" "data_ok {} {} c1" "view c1 = view c" "same_world c c1"
    "\<forall>j d l. cached c1 j d l = cached c j d l"
proof (cases "bcache_lru c = []")
  case False
  have l: "lru_ok {} c" "hash_ok {} c" "data_ok {} {} c" using inv by (simp_all add: cinv_def)
  obtain xs x where e: "bcache_lru c = xs @ [x]" using False by (cases "bcache_lru c" rule: rev_cases) auto
  then have x: "x \<in> set (bcache_lru c)" by simp
  then have "b_refcount (buf c x) = 0" "\<not> b_busy (buf c x)" using l(1) unfolding lru_ok_def by auto
  then have "bcache_select_victim c = Some x" unfolding bcache_select_victim_def e by simp
  then have p: "pick_victim c = (Some x, c)" by (simp add: pick_victim_def)
  have "victim_ok x c" using l(1) x unfolding lru_ok_def victim_ok_def by auto
  then show ?thesis using that[OF p] l by simp
next
  case True
  have l: "lru_ok {} c" "hash_ok {} c" "data_ok {} {} c" using inv by (simp_all add: cinv_def)
  have none: "\<not> b_allocated (buf c j)" if "j < BCACHE_MAX_BUFFERS" for j using l(1) True that unfolding lru_ok_def by auto
  have nv: "\<not> b_valid (buf c j)" for j using l(1) True unfolding lru_ok_def by auto
  have nd: "\<not> b_dirty (buf c j)" for j using l(3) nv unfolding data_ok_def by blast
  have "[0..<BCACHE_MAX_BUFFERS] = 0 # [Suc 0..<BCACHE_MAX_BUFFERS]" by (rule upt_conv_Cons) (simp add: BCACHE_MAX_BUFFERS_def)
  moreover have "\<not> b_allocated (buf c 0)" by (rule none) (simp add: BCACHE_MAX_BUFFERS_def)
  ultimately have al: "bcache_alloc_locked c = (Some 0, upd_buf 0 (\<lambda>b. b\<lparr>b_allocated := True\<rparr>) c)"
    by (simp add: bcache_alloc_locked_def)
  define c1 where "c1 = upd_buf 0 (\<lambda>b. b\<lparr>b_refcount := 0, b_dirty := False, b_valid := False, b_busy := False,
      b_device := None, b_lba := 0, b_block_size := 0\<rparr>) (upd_buf 0 (\<lambda>b. b\<lparr>b_allocated := True\<rparr>) c)"
  have p: "pick_victim c = (Some 0, c1)" using True al by (simp add: pick_victim_def bcache_select_victim_def c1_def)
  have ne: "bcache_hash c k = []" for k using l(2) nv unfolding hash_ok_def keyed_def by (metis empty_iff list.set_sel(1))
  have nv1: "\<not> b_valid (buf c1 j)" "\<not> b_dirty (buf c1 j)" for j using nv nd by (simp_all add: c1_def)
  have vo: "victim_ok 0 c1" using True none nv by (auto simp: victim_ok_def c1_def BCACHE_MAX_BUFFERS_def)
  have h1: "hash_ok {} c1" using nv1 ne unfolding hash_ok_def keyed_def by (simp add: c1_def)
  have d1: "data_ok {} {} c1"
    using l(3) nv1 unfolding data_ok_def keyed_def by (simp add: c1_def bad_device_def)
  have "view c1 = view c" by (intro ext) (simp add: view_def bcache_hash_lookup_def ne c1_def)
  moreover have "\<forall>j d l. cached c1 j d l = cached c j d l" using nv nv1 by (simp add: cached_def)
  moreover have "same_world c c1" by (simp add: same_world_def c1_def)
  ultimately show ?thesis using that[OF p vo h1 d1] by blast
qed

lemma hash_ok_evict:
  assumes "hash_ok {} c" "\<And>b. \<not> b_valid (f b)"
  shows "hash_ok {} (upd_buf i f (if b_valid (buf c i) then bcache_hash_remove i c else c))"
    (is "hash_ok {} ?c")
proof -
  have m: "j \<in> set (bcache_hash ?c k) \<longleftrightarrow> j \<noteq> i \<and> j \<in> set (bcache_hash c k)" for j k
  proof (cases "b_valid (buf c i)")
    case True
    then have "i \<in> set (bcache_hash c k) \<longleftrightarrow> k = buf_key i c" for k using assms(1) by (auto simp: hash_ok_def keyed_def)
    moreover have "distinct (bcache_hash c k)" for k using assms(1) by (simp add: hash_ok_def)
    ultimately show ?thesis using True by (auto simp: bcache_hash_remove_def)
  next
    case False
    then have "i \<notin> set (bcache_hash c k)" for k using assms(1) by (auto simp: hash_ok_def keyed_def)
    then show ?thesis using False by auto
  qed
  have b: "buf ?c j = (if j = i then f (buf c i) else buf c j)" for j by (simp add: bcache_hash_remove_def)
  have dist: "distinct (bcache_hash ?c k)" for k using assms(1) by (simp add: hash_ok_def bcache_hash_remove_def)
  have key: "buf_key j ?c = buf_key j c" if "j \<noteq> i" for j using that unfolding buf_key_def b by simp
  have kd: "keyed {} ?c j \<longleftrightarrow> j \<noteq> i \<and> keyed {} c j" for j unfolding keyed_def b using assms(2) by simp
  have u: "x = y" if "keyed {} c x" "keyed {} c y" "b_device (buf c x) = b_device (buf c y)" "b_lba (buf c x) = b_lba (buf c y)" for x y
    using assms(1) that unfolding hash_ok_def by blast
  show ?thesis unfolding hash_ok_def
  proof (intro conjI allI impI)
    show "distinct (bcache_hash ?c k)" for k by (rule dist)
    show "j \<in> set (bcache_hash ?c k) \<longleftrightarrow> keyed {} ?c j \<and> buf_key j ?c = k" for k j
      unfolding m kd using key[of j] assms(1) by (auto simp: hash_ok_def)
    show "x = y" if "keyed {} ?c x" "keyed {} ?c y" "b_device (buf ?c x) = b_device (buf ?c y)" "b_lba (buf ?c x) = b_lba (buf ?c y)" for x y
      using that u[of x y] unfolding kd b by simp
  qed simp
qed

lemma hash_ok_insert:
  assumes "hash_ok {} c" "\<not> b_valid (buf c i)" "\<And>j. \<not> cached c j d l" "b_device (buf c i) = Some d" "b_lba (buf c i) = l"
  shows "hash_ok {i} (bcache_hash_insert i c)"
proof -
  let ?c = "bcache_hash_insert i c"
  have b: "bcache_pool ?c = bcache_pool c" by (simp add: bcache_hash_insert_def)
  have kd: "keyed {i} ?c j \<longleftrightarrow> keyed {} c j \<or> j = i" for j unfolding keyed_def b by auto
  have key: "buf_key j ?c = buf_key j c" for j unfolding buf_key_def b by simp
  have nin: "i \<notin> set (bcache_hash c k)" for k using assms(1,2) by (auto simp: hash_ok_def keyed_def)
  have mem: "j \<in> set (bcache_hash c k) \<longleftrightarrow> keyed {} c j \<and> buf_key j c = k" for j k using assms(1) by (simp add: hash_ok_def)
  have m: "j \<in> set (bcache_hash ?c k) \<longleftrightarrow> j \<in> set (bcache_hash c k) \<or> j = i \<and> k = buf_key i c" for j k
    by (auto simp: bcache_hash_insert_def)
  have u: "x = y" if "keyed {} c x" "keyed {} c y" "b_device (buf c x) = b_device (buf c y)" "b_lba (buf c x) = b_lba (buf c y)" for x y
    using assms(1) that unfolding hash_ok_def by blast
  have n: "\<not> (b_device (buf c j) = b_device (buf c i) \<and> b_lba (buf c j) = b_lba (buf c i))" if "keyed {} c j" for j
    using assms(3)[of j] assms(4,5) that unfolding cached_def keyed_def by auto
  show ?thesis unfolding hash_ok_def
  proof (intro conjI allI impI ballI)
    have di: "distinct (bcache_hash c k)" for k using assms(1) by (simp add: hash_ok_def)
    show "distinct (bcache_hash ?c k)" for k by (simp add: bcache_hash_insert_def di nin)
    show "j \<in> set (bcache_hash ?c k) \<longleftrightarrow> keyed {i} ?c j \<and> buf_key j ?c = k" for k j
      unfolding m kd key mem by blast
    show "x = y" if "keyed {i} ?c x" "keyed {i} ?c y" "b_device (buf ?c x) = b_device (buf ?c y)" "b_lba (buf ?c x) = b_lba (buf ?c y)" for x y
      using that u[of x y] n[of x] n[of y] unfolding kd b by metis
    show "\<not> b_valid (buf ?c j)" if "j \<in> {i}" for j using that assms(2) unfolding b by simp
  qed
qed

text \<open>Turning the victim into a buffer for block \<open>l\<close> of \<open>d\<close>, which is not cached: the view stays.\<close>

lemma claim_spec:
  assumes vo: "victim_ok i c" and h: "hash_ok {} c" and dk: "data_ok {} {} c" and w: "\<forall>n. wr_ok c n"
    and nc: "\<And>j. \<not> cached c j d l" and bd: "\<not> bad_device (Some d) c"
  defines "c' \<equiv> claim_victim d l i c"
  shows "cinv {i} {i} {} c'" "view c' = view c" "same_world c c'" "b_device (buf c' i) = Some d" "b_lba (buf c' i) = l"
    "b_refcount (buf c' i) = 1"
proof -
  define c1 where "c1 = upd_buf i (\<lambda>b. b\<lparr>b_busy := True\<rparr>) c"
  define c2 where "c2 = (if b_valid (buf c1 i) \<and> b_dirty (buf c1 i) then snd (bcache_flush_locked i c1) else c1)"
  define c3 where "c3 = (if b_valid (buf c2 i) then bcache_hash_remove i c2 else c2)"
  define c4 where "c4 = upd_buf i (\<lambda>b. b\<lparr>b_device := Some d, b_lba := l, b_block_size := d_block_size (devs c d),
      b_valid := False, b_dirty := False, b_refcount := 1\<rparr>) c3"
  have c': "c' = lru_touch i (bcache_hash_insert i c4)"
    unfolding c'_def claim_victim_def Let_def c1_def[symmetric] c2_def[symmetric] c3_def[symmetric] c4_def[symmetric] lru_touch_def by (rule refl)
  have e1: "hash_ok {} c1 = hash_ok {} c" "data_ok {} {} c1 = data_ok {} {} c" "view c1 = view c"
    by (rule same_contents; simp add: c1_def)+
  obtain ok cf where fl: "bcache_flush_locked i c1 = (ok, cf)" by fastforce
  have "\<forall>n. wr_ok c1 n" using w by (simp add: c1_def)
  note fs = flush_spec[OF _ _ this fl, of "{}" "{}", unfolded e1, OF h dk]
  have b2: "buf c2 j = (if j = i then (buf c i)\<lparr>b_busy := True, b_dirty := False\<rparr> else buf c j)" for j
  proof -
    have "\<not> b_dirty (buf c i)" if "\<not> b_valid (buf c i)" using data_okD(3)[OF dk] that by blast
    then show ?thesis using fs(7)[of j] fl by (auto simp: c2_def c1_def)
  qed
  have h2: "hash_ok {} c2" "data_ok {} {} c2" "view c2 = view c" "same_world c c2" "bcache_lru c2 = bcache_lru c"
    using fs(1-5) fl e1 h dk by (auto simp: c2_def c1_def same_world_def)
  have ca2: "cached c2 j e m = cached c j e m" for j e m by (simp add: cached_def b2)
  have h4: "hash_ok {} c4"
    unfolding c4_def c3_def by (rule hash_ok_evict[OF h2(1)]) simp
  have s4: "devs c4 = devs c" "disk c4 = disk c2" "bcache_lru c4 = bcache_lru c" "rd_ok c4 = rd_ok c" "wr_ok c4 = wr_ok c"
    using h2(4,5) by (simp_all add: c4_def c3_def bcache_hash_remove_def same_world_def)
  have b4: "buf c4 j = (if j = i then (buf c i)\<lparr>b_busy := True, b_device := Some d, b_lba := l, b_block_size := d_block_size (devs c d),
      b_valid := False, b_dirty := False, b_refcount := 1\<rparr> else buf c j)" for j
    using b2 by (simp add: c4_def c3_def bcache_hash_remove_def)
  have ca4: "cached c4 j e m \<longleftrightarrow> j \<noteq> i \<and> cached c j e m" for j e m by (simp add: cached_def b4)
  have h5: "hash_ok {i} (bcache_hash_insert i c4)" by (rule hash_ok_insert[OF h4, of i d l]) (use nc in \<open>simp_all add: b4 ca4\<close>)
  have s5: "bcache_pool (bcache_hash_insert i c4) = bcache_pool c4" "devs (bcache_hash_insert i c4) = devs c4"
    "disk (bcache_hash_insert i c4) = disk c4" "bcache_lru (bcache_hash_insert i c4) = bcache_lru c4"
    "rd_ok (bcache_hash_insert i c4) = rd_ok c4" "wr_ok (bcache_hash_insert i c4) = wr_ok c4" by (simp_all add: bcache_hash_insert_def)
  have b5: "buf c' j = buf c4 j" for j by (simp add: c' s5)
  have hc: "hash_ok {i} c'" using same_contents(1)[of "bcache_hash_insert i c4" c' "{i}"] h5 by (simp add: c')
  have lc: "lru_ok {i} c'" using vo s4(3) unfolding victim_ok_def lru_ok_def b5 b4 by (auto simp: c' s5)
  have bad': "bad_device x c' = bad_device x c" for x by (rule bad_device_devs) (simp add: c' s5 s4)
  have dc: "data_ok {i} {} c'"
  proof (rule data_okI)
    fix j
    assume "keyed {i} c' j"
    then show "\<exists>d. b_device (buf c' j) = Some d \<and> \<not> bad_device (Some d) c' \<and> b_block_size (buf c' j) = d_block_size (devs c' d)"
      using bd data_okD(1)[OF dk, of j] unfolding keyed_def b5 b4 bad' by (auto simp: c' s5 s4)
  next
    fix j
    show "b_valid (buf c' j) \<Longrightarrow> length (b_data (buf c' j)) = b_block_size (buf c' j)"
      and "b_dirty (buf c' j) \<Longrightarrow> b_valid (buf c' j)"
      using data_okD(2,3)[OF dk, of j] unfolding b5 b4 by (auto split: if_splits)
    show "writable c' e" if "b_dirty (buf c' j)" "b_device (buf c' j) = Some e" for e
      using that data_okD(4)[OF dk, of j e] unfolding b5 b4 writable_def by (auto simp: c' s5 s4 split: if_splits)
    show "b_data (buf c' j) = disk c' e (b_lba (buf c' j))" if "b_valid (buf c' j)" "\<not> b_dirty (buf c' j)" "j \<notin> {}" "b_device (buf c' j) = Some e" for e
      using that data_okD(5)[OF h2(2), of j e] unfolding b5 b4 b2 by (auto simp: c' s5 s4 split: if_splits)
  next
    fix e m
    show "\<not> bad_device (Some e) c' \<Longrightarrow> length (disk c' e m) = d_block_size (devs c' e)"
      using data_okD(6)[OF h2(2), of e m] bad' bad_device_devs[of c2 c] h2(4) by (simp add: c' s5 s4 same_world_def)
  qed
  show "cinv {i} {i} {} c'" using hc lc dc by (simp add: cinv_def)
  have "view c' e m = view c2 e m" for e m
  proof (rule view_eqI[OF h2(1) hc])
    fix j
    show "cached c' j e m \<Longrightarrow> cached c2 j e m \<and> b_data (buf c' j) = b_data (buf c2 j)"
      by (auto simp: cached_def b5 b4 b2 split: if_splits)
    assume j: "cached c2 j e m" "\<not> cached c' j e m"
    then have "j = i" by (auto simp: cached_def b5 b4 b2 split: if_splits)
    then show "disk c' e m = b_data (buf c2 j)"
      using j(1) data_okD(5)[OF h2(2), of j e] by (simp add: cached_def b2 c' s5 s4)
  qed (simp add: c' s5 s4)
  then show "view c' = view c" using h2(3) by (intro ext) simp
  show "same_world c c'" by (simp add: same_world_def c' s5 s4)
  show "b_device (buf c' i) = Some d" "b_lba (buf c' i) = l" "b_refcount (buf c' i) = 1" by (simp_all add: b5 b4)
qed

section \<open>Filling, dirtying and releasing the buffer that is held\<close>

text \<open>The held buffer gets the contents \<open>x\<close>; whether it was valid before or about to be filled.\<close>

lemma fill_spec:
  assumes inv: "cinv {i} F W c" and F: "F \<subseteq> {i}" "W \<subseteq> {i}" and i: "keyed F c i" "b_device (buf c i) = Some d"
    and x: "length x = d_block_size (devs c d)"
    and b: "\<And>j. buf c' j = (if j = i then (buf c i)\<lparr>b_data := x, b_valid := True, b_block_size := d_block_size (devs c d)\<rparr> else buf c j)"
    and s: "bcache_hash c' = bcache_hash c" "bcache_lru c' = bcache_lru c" "devs c' = devs c" "disk c' = disk c"
  shows "cinv {i} {} {i} c'" "view c' = (view c)(d := (view c d)(b_lba (buf c i) := x))"
    "x = disk c d (b_lba (buf c i)) \<Longrightarrow> cinv {i} {} {} c'"
proof -
  have h: "hash_ok F c" and l: "lru_ok {i} c" and dk: "data_ok F W c" using inv by (simp_all add: cinv_def)
  have kd: "keyed {} c' j = keyed F c j" for j using i(1) F(1) by (auto simp: keyed_def b)
  have h': "hash_ok {} c'" by (rule hash_ok_cong[OF h kd]) (simp_all add: b s)
  have l': "lru_ok {i} c'" using l unfolding lru_ok_def s by (auto simp: b)
  have bad': "bad_device e c' = bad_device e c" for e by (rule bad_device_devs) (simp add: s)
  have bsz: "\<not> bad_device (Some d) c" "b_block_size (buf c i) = d_block_size (devs c d)"
    using data_okD(1)[OF dk i(1)] i(2) by auto
  have dk': "data_ok {} W' c'" if "i \<in> W' \<or> x = disk c d (b_lba (buf c i))" for W'
  proof (rule data_okI)
    fix j
    assume "keyed {} c' j"
    then show "\<exists>d. b_device (buf c' j) = Some d \<and> \<not> bad_device (Some d) c' \<and> b_block_size (buf c' j) = d_block_size (devs c' d)"
      using data_okD(1)[OF dk, of j] i(2) bsz unfolding kd bad' by (auto simp: b s)
  next
    fix j
    show "b_valid (buf c' j) \<Longrightarrow> length (b_data (buf c' j)) = b_block_size (buf c' j)" "b_dirty (buf c' j) \<Longrightarrow> b_valid (buf c' j)"
      using data_okD(2,3)[OF dk, of j] x by (auto simp: b split: if_splits)
    show "writable c' e" if "b_dirty (buf c' j)" "b_device (buf c' j) = Some e" for e
      using that data_okD(4)[OF dk, of j e] unfolding writable_def by (auto simp: b s split: if_splits)
    show "b_data (buf c' j) = disk c' e (b_lba (buf c' j))" if "b_valid (buf c' j)" "\<not> b_dirty (buf c' j)" "j \<notin> W'" "b_device (buf c' j) = Some e" for e
    proof (cases "j = i")
      case True
      then show ?thesis using that \<open>i \<in> W' \<or> x = disk c d (b_lba (buf c i))\<close> i(2) by (simp add: b s)
    next
      case False
      then have "j \<notin> W" using F(2) by blast
      then show ?thesis using False that data_okD(5)[OF dk, of j e] by (simp add: b s)
    qed
  next
    fix e m
    show "\<not> bad_device (Some e) c' \<Longrightarrow> length (disk c' e m) = d_block_size (devs c' e)"
      using data_okD(6)[OF dk, of e m] unfolding bad' by (simp add: s)
  qed
  show "cinv {i} {} {i} c'" using h' l' dk'[of "{i}"] by (simp add: cinv_def)
  show "x = disk c d (b_lba (buf c i)) \<Longrightarrow> cinv {i} {} {} c'" using h' l' dk'[of "{}"] by (simp add: cinv_def)
  have ci: "cached c' i d (b_lba (buf c i))" using i(2) by (simp add: cached_def b)
  show "view c' = (view c)(d := (view c d)(b_lba (buf c i) := x))"
  proof (intro ext)
    fix e m
    show "view c' e m = ((view c)(d := (view c d)(b_lba (buf c i) := x))) e m"
    proof (cases "e = d \<and> m = b_lba (buf c i)")
      case True
      then show ?thesis using view_cached[OF h' ci] by (simp add: b)
    next
      case False
      then have ca: "cached c' j e m = cached c j e m" for j using i(2) by (auto simp: cached_def b)
      have "view c' e m = view c e m"
      proof (rule view_eqI[OF h h'])
        show "cached c' j e m \<Longrightarrow> cached c j e m \<and> b_data (buf c' j) = b_data (buf c j)" for j
          using ca[of j] False i(2) by (auto simp: cached_def b split: if_splits)
      qed (simp_all add: ca s)
      then show ?thesis using False by auto
    qed
  qed
qed

lemma bdirty_spec:
  assumes inv: "cinv {i} {} {i} c" and v: "b_valid (buf c i)" and d: "b_device (buf c i) = Some d" "writable c d" and w: "\<forall>n. wr_ok c n"
  shows "cinv {i} {} {} (bdirty i c)" "view (bdirty i c) = view c" "same_world c (bdirty i c)" "b_refcount (buf (bdirty i c) i) = b_refcount (buf c i)"
proof -
  define c1 where "c1 = (if b_dirty (buf c i) then c
      else (upd_buf i (\<lambda>b. b\<lparr>b_dirty := True\<rparr>) c)\<lparr>bcache_dirty_count := bcache_dirty_count c + 1\<rparr>)"
  have h: "hash_ok {} c" and l: "lru_ok {i} c" and dk: "data_ok {} {i} c" using inv by (simp_all add: cinv_def)
  have b: "buf c1 j = (if j = i then (buf c i)\<lparr>b_dirty := True\<rparr> else buf c j)" for j by (simp add: c1_def)
  have s: "bcache_hash c1 = bcache_hash c" "bcache_lru c1 = bcache_lru c" "devs c1 = devs c" "disk c1 = disk c"
    "wr_ok c1 = wr_ok c" "rd_ok c1 = rd_ok c" by (simp_all add: c1_def)
  have kd: "keyed {} c1 j = keyed {} c j" for j by (simp add: keyed_def b)
  have h1: "hash_ok {} c1" by (rule hash_ok_cong[OF h kd]) (simp_all add: b s)
  have l1: "lru_ok {i} c1 = lru_ok {i} c" by (rule lru_ok_cong) (simp_all add: s b)
  have bad': "bad_device e c1 = bad_device e c" for e by (rule bad_device_devs) (simp add: s)
  have dk1: "data_ok {} {} c1"
  proof (rule data_okI)
    fix j
    show "keyed {} c1 j \<Longrightarrow> \<exists>d. b_device (buf c1 j) = Some d \<and> \<not> bad_device (Some d) c1 \<and> b_block_size (buf c1 j) = d_block_size (devs c1 d)"
      using data_okD(1)[OF dk, of j] unfolding kd bad' by (auto simp: b s)
    show "b_valid (buf c1 j) \<Longrightarrow> length (b_data (buf c1 j)) = b_block_size (buf c1 j)" "b_dirty (buf c1 j) \<Longrightarrow> b_valid (buf c1 j)"
      using data_okD(2,3)[OF dk, of j] v by (auto simp: b)
    show "writable c1 e" if "b_dirty (buf c1 j)" "b_device (buf c1 j) = Some e" for e
      using that data_okD(4)[OF dk, of j e] d unfolding writable_def by (auto simp: b s split: if_splits)
    show "b_data (buf c1 j) = disk c1 e (b_lba (buf c1 j))" if "b_valid (buf c1 j)" "\<not> b_dirty (buf c1 j)" "j \<notin> {}" "b_device (buf c1 j) = Some e" for e
      using that data_okD(5)[OF dk, of j e] by (auto simp: b s split: if_splits)
  next
    fix e m
    show "\<not> bad_device (Some e) c1 \<Longrightarrow> length (disk c1 e m) = d_block_size (devs c1 e)"
      using data_okD(6)[OF dk, of e m] unfolding bad' by (simp add: s)
  qed
  have "view c1 e m = view c e m" for e m by (rule view_eqI[OF h h1]) (auto simp: cached_def b s split: if_splits)
  then have v1: "view c1 = view c" by (intro ext)
  have inv1: "cinv {i} {} {} c1" using h1 l1 l dk1 by (simp add: cinv_def)
  have w1: "\<forall>n. wr_ok c1 n" using w by (simp add: s)
  have sw: "same_world c c1" by (simp add: same_world_def s)
  have r1: "b_refcount (buf c1 i) = b_refcount (buf c i)" by (simp add: b)
  show "cinv {i} {} {} (bdirty i c)" "view (bdirty i c) = view c" "same_world c (bdirty i c)" "b_refcount (buf (bdirty i c) i) = b_refcount (buf c i)"
  proof -
    have "bdirty i c = c1 \<or> (\<exists>j. bdirty i c = snd (bcache_flush_locked j c1))"
      unfolding bdirty_def c1_def[symmetric] Let_def by (auto split: option.splits)
    then consider "bdirty i c = c1" | j ok where "bcache_flush_locked j c1 = (ok, bdirty i c)" by (metis prod.collapse)
    then have "cinv {i} {} {} (bdirty i c) \<and> view (bdirty i c) = view c \<and> same_world c (bdirty i c) \<and> b_refcount (buf (bdirty i c) i) = b_refcount (buf c i)"
    proof cases
      case 1
      then show ?thesis using inv1 v1 sw r1 by simp
    next
      case 2
      show ?thesis using flush_cinv[OF inv1 w1 2] flush_spec(3,4,7)[OF h1 dk1 w1 2] v1 r1 same_world_trans[OF sw] by auto
    qed
    then show "cinv {i} {} {} (bdirty i c)" "view (bdirty i c) = view c" "same_world c (bdirty i c)" "b_refcount (buf (bdirty i c) i) = b_refcount (buf c i)" by simp_all
  qed
qed

lemma brelse_spec:
  assumes inv: "cinv {i} {} {} c"
  shows "cinv {} {} {} (brelse i c)" "view (brelse i c) = view c" "same_world c (brelse i c)"
proof -
  have h: "hash_ok {} c" and l: "lru_ok {i} c" and dk: "data_ok {} {} c" using inv by (simp_all add: cinv_def)
  have il: "i \<in> set (bcache_lru c)" "b_refcount (buf c i) = 1" using l unfolding lru_ok_def by auto
  define c' where "c' = lru_touch i (upd_buf i (\<lambda>b. b\<lparr>b_refcount := b_refcount b - 1, b_busy := False\<rparr>) c)"
  have e: "brelse i c = c'" using il by (simp add: brelse_def bcache_release_locked_def lru_touch_def c'_def)
  have "hash_ok {} c' = hash_ok {} c" "data_ok {} {} c' = data_ok {} {} c" and vw: "view c' = view c"
    by (rule same_contents; simp add: c'_def)+
  moreover have "lru_ok {} c'" using l il unfolding lru_ok_def c'_def by auto
  ultimately show "cinv {} {} {} (brelse i c)" "view (brelse i c) = view c" using h dk unfolding e by (simp_all add: cinv_def)
  show "same_world c (brelse i c)" unfolding e by (simp add: same_world_def c'_def)
qed

text \<open>The buffer that was to be filled is given up after a failed read.\<close>

lemma abandon_spec:
  assumes inv: "cinv {i} {i} {} c"
  defines "c' \<equiv> bcache_lru_push_front i (bcache_lru_detach i (bcache_hash_remove i
      (upd_buf i (\<lambda>b. b\<lparr>b_valid := False, b_refcount := 0, b_busy := False\<rparr>) c)))"
  shows "cinv {} {} {} c'" "view c' = view c" "same_world c c'"
proof -
  have h: "hash_ok {i} c" and l: "lru_ok {i} c" and dk: "data_ok {i} {} c" using inv by (simp_all add: cinv_def)
  have nv: "\<not> b_valid (buf c i)" using h by (simp add: hash_ok_def)
  define c1 where "c1 = bcache_hash_remove i (upd_buf i (\<lambda>b. b\<lparr>b_valid := False, b_refcount := 0, b_busy := False\<rparr>) c)"
  have c': "c' = lru_touch i c1" by (simp add: c'_def c1_def lru_touch_def)
  have b: "buf c' j = (if j = i then (buf c i)\<lparr>b_valid := False, b_refcount := 0, b_busy := False\<rparr> else buf c j)" for j
    by (simp add: c' c1_def bcache_hash_remove_def)
  have s: "devs c' = devs c" "disk c' = disk c" "wr_ok c' = wr_ok c" "rd_ok c' = rd_ok c"
    "bcache_lru c' = i # filter (\<lambda>j. j \<noteq> i) (bcache_lru c)" by (simp_all add: c' c1_def bcache_hash_remove_def)
  have key: "buf_key j c' = buf_key j c" for j unfolding buf_key_def b by simp
  have mem: "j \<in> set (bcache_hash c k) \<longleftrightarrow> keyed {i} c j \<and> buf_key j c = k" and di: "distinct (bcache_hash c k)" for j k
    using h by (simp_all add: hash_ok_def)
  have hs: "bcache_hash c' = (bcache_hash c)(buf_key i c := remove1 i (bcache_hash c (buf_key i c)))"
    by (simp add: c' c1_def bcache_hash_remove_def buf_key_def)
  have kd: "keyed {} c' j \<longleftrightarrow> j \<noteq> i \<and> keyed {i} c j" for j unfolding keyed_def b by auto
  have m: "j \<in> set (bcache_hash c' k) \<longleftrightarrow> j \<noteq> i \<and> j \<in> set (bcache_hash c k)" for j k
    unfolding hs using di mem[of i k] by (auto simp: keyed_def mem)
  have u: "x = y" if "keyed {i} c x" "keyed {i} c y" "b_device (buf c x) = b_device (buf c y)" "b_lba (buf c x) = b_lba (buf c y)" for x y
    using h that unfolding hash_ok_def by blast
  have h': "hash_ok {} c'" unfolding hash_ok_def
  proof (intro conjI allI impI)
    show "distinct (bcache_hash c' k)" for k unfolding hs using di by simp
    show "j \<in> set (bcache_hash c' k) \<longleftrightarrow> keyed {} c' j \<and> buf_key j c' = k" for k j unfolding m kd key mem by blast
    show "x = y" if "keyed {} c' x" "keyed {} c' y" "b_device (buf c' x) = b_device (buf c' y)" "b_lba (buf c' x) = b_lba (buf c' y)" for x y
      using that u[of x y] unfolding kd b by simp
  qed simp
  have l': "lru_ok {} c'" using l unfolding lru_ok_def s by (auto simp: b)
  have bad': "bad_device e c' = bad_device e c" for e by (rule bad_device_devs) (simp add: s)
  have dk': "data_ok {} {} c'"
  proof (rule data_okI)
    fix j
    show "keyed {} c' j \<Longrightarrow> \<exists>d. b_device (buf c' j) = Some d \<and> \<not> bad_device (Some d) c' \<and> b_block_size (buf c' j) = d_block_size (devs c' d)"
      using data_okD(1)[OF dk, of j] unfolding kd bad' by (auto simp: b s)
    show "b_valid (buf c' j) \<Longrightarrow> length (b_data (buf c' j)) = b_block_size (buf c' j)" "b_dirty (buf c' j) \<Longrightarrow> b_valid (buf c' j)"
      using data_okD(2,3)[OF dk, of j] nv by (auto simp: b split: if_splits)
    show "writable c' e" if "b_dirty (buf c' j)" "b_device (buf c' j) = Some e" for e
      using that data_okD(4)[OF dk, of j e] unfolding writable_def by (auto simp: b s split: if_splits)
    show "b_data (buf c' j) = disk c' e (b_lba (buf c' j))" if "b_valid (buf c' j)" "\<not> b_dirty (buf c' j)" "j \<notin> {}" "b_device (buf c' j) = Some e" for e
      using that data_okD(5)[OF dk, of j e] by (auto simp: b s split: if_splits)
  next
    fix e m
    show "\<not> bad_device (Some e) c' \<Longrightarrow> length (disk c' e m) = d_block_size (devs c' e)"
      using data_okD(6)[OF dk, of e m] unfolding bad' by (simp add: s)
  qed
  show "cinv {} {} {} c'" using h' l' dk' by (simp add: cinv_def)
  have "view c' e m = view c e m" for e m by (rule view_eqI[OF h h']) (use nv in \<open>auto simp: cached_def b s split: if_splits\<close>)
  then show "view c' = view c" by (intro ext)
  show "same_world c c'" by (simp add: same_world_def s)
qed

section \<open>The operations on an idle cache\<close>

text \<open>Between two operations no buffer is held; with working write-backs, a call never waits.\<close>

lemma get_spec:
  assumes inv: "cinv {} {} {} c" and w: "\<forall>n. wr_ok c n" and bd: "\<not> bad_device (Some d) c"
  obtains i c1 where "bcache_get_locked d l c = (Got i False, c1)" "cinv {i} {} {} c1" "view c1 = view c" "same_world c c1"
      "b_device (buf c1 i) = Some d" "b_lba (buf c1 i) = l" "b_valid (buf c1 i)"
  | i c1 where "bcache_get_locked d l c = (Got i True, c1)" "cinv {i} {i} {} c1" "view c1 = view c" "same_world c c1"
      "b_device (buf c1 i) = Some d" "b_lba (buf c1 i) = l" "view c d l = disk c1 d l"
proof (cases "\<exists>i. cached c i d l")
  case True
  then obtain i where i: "cached c i d l" by blast
  note hs = hit_spec[OF inv i]
  show ?thesis by (rule that(1)[OF hs(1-4)]) (use hs(5) i in \<open>simp_all add: cached_def\<close>)
next
  case False
  have h: "hash_ok {} c" using inv by (simp add: cinv_def)
  obtain i c1 where p: "pick_victim c = (Some i, c1)" "victim_ok i c1" "hash_ok {} c1" "data_ok {} {} c1" "view c1 = view c" "same_world c c1"
    "\<forall>j d l. cached c1 j d l = cached c j d l" by (rule pick_victim_spec[OF inv])
  have nl: "bcache_hash_lookup d l c = None" using False lookup_iff[OF h] by (metis not_None_eq)
  have w1: "\<forall>n. wr_ok c1 n" and bd1: "\<not> bad_device (Some d) c1"
    using w bd bad_device_devs[of c1 c] p(6) by (simp_all add: same_world_def)
  have nc: "\<not> cached c1 j d l" for j using False p(7) by blast
  note cl = claim_spec[OF p(2-4) w1 nc bd1]
  have g: "bcache_get_locked d l c = (Got i True, claim_victim d l i c1)" using nl p(1) by (simp add: bcache_get_locked_def)
  have "view c d l = disk (claim_victim d l i c1) d l"
  proof -
    have hc: "hash_ok {i} (claim_victim d l i c1)" using cl(1) by (simp add: cinv_def)
    have "\<not> cached (claim_victim d l i c1) j d l" for j
    proof
      assume j: "cached (claim_victim d l i c1) j d l"
      then have "j = i" using hc cl(4,5) unfolding hash_ok_def keyed_def cached_def by (metis insertI1)
      then show False using j hc by (auto simp: hash_ok_def cached_def)
    qed
    from view_uncached[OF hc this] show ?thesis using cl(2) p(5) by simp
  qed
  then show ?thesis using that(2)[OF g] cl p(5,6) same_world_trans by metis
qed

lemma bread_spec:
  assumes inv: "cinv {} {} {} c" and w: "\<forall>n. wr_ok c n" and bd: "\<not> bad_device (Some d) c"
    and rd: "d_ops (devs c d)" "d_has_read (devs c d)"
  obtains c1 where "bread (Some d) l c = (BNull, c1)" "cinv {} {} {} c1" "view c1 = view c" "same_world c c1" "\<exists>n. \<not> rd_ok c n"
  | i c1 where "bread (Some d) l c = (BOk i, c1)" "cinv {i} {} {} c1" "view c1 = view c" "same_world c c1" "b_data (buf c1 i) = view c d l"
proof (rule get_spec[OF inv w bd, of l])
  fix i c1
  assume g: "bcache_get_locked d l c = (Got i False, c1)" "cinv {i} {} {} c1" "view c1 = view c" "same_world c c1"
    "b_device (buf c1 i) = Some d" "b_lba (buf c1 i) = l" "b_valid (buf c1 i)"
  have "bread (Some d) l c = (BOk i, c1)" using g(1) bd rd by (simp add: bread_def)
  moreover have "view c1 d l = b_data (buf c1 i)"
    by (rule view_cached[of "{}"]) (use g(2,5-7) in \<open>simp_all add: cinv_def cached_def\<close>)
  ultimately show ?thesis using that(2) g(2-4) by simp
next
  fix i c1
  assume g: "bcache_get_locked d l c = (Got i True, c1)" "cinv {i} {i} {} c1" "view c1 = view c" "same_world c c1"
    "b_device (buf c1 i) = Some d" "b_lba (buf c1 i) = l" "view c d l = disk c1 d l"
  define c2 where "c2 = c1\<lparr>io_no := io_no c1 + 1\<rparr>"
  have s2: "bcache_pool c2 = bcache_pool c1" "bcache_hash c2 = bcache_hash c1" "bcache_lru c2 = bcache_lru c1" "devs c2 = devs c1"
    "disk c2 = disk c1" "rd_ok c2 = rd_ok c1" "wr_ok c2 = wr_ok c1" by (simp_all add: c2_def)
  have inv2: "cinv {i} {i} {} c2" "view c2 = view c1"
    using same_contents[of c2 c1] lru_ok_cong[of c2 c1] g(2) by (simp_all add: cinv_def s2)
  have sw2: "same_world c c2" using g(4) by (simp add: same_world_def s2)
  show ?thesis
  proof (cases "rd_ok c1 (io_no c1)")
    case False
    note ab = abandon_spec[OF inv2(1)]
    have "bread (Some d) l c = (BNull, bcache_lru_push_front i (bcache_lru_detach i (bcache_hash_remove i
        (upd_buf i (\<lambda>b. b\<lparr>b_valid := False, b_refcount := 0, b_busy := False\<rparr>) c2))))"
      using g(1) bd rd False by (simp add: bread_def read_blocks_def c2_def)
    moreover have "\<exists>n. \<not> rd_ok c n" using False g(4) by (auto simp: same_world_def)
    ultimately show ?thesis using that(1) ab(1) ab(2) inv2(2) g(3) same_world_trans[OF sw2 ab(3)] by simp
  next
    case True
    define c3 where "c3 = upd_buf i (\<lambda>b. b\<lparr>b_data := disk c1 d l, b_valid := True, b_dirty := False, b_block_size := d_block_size (devs c d)\<rparr>) c2"
    have r: "bread (Some d) l c = (BOk i, c3)" using g(1) bd rd True by (simp add: bread_def read_blocks_def c2_def c3_def)
    have dv: "devs c1 = devs c" using g(4) by (simp add: same_world_def)
    have dk: "data_ok {i} {} c2" "hash_ok {i} c2" using inv2(1) by (simp_all add: cinv_def)
    have nv: "\<not> b_dirty (buf c2 i)" using data_okD(3)[OF dk(1), of i] dk(2) by (auto simp: hash_ok_def)
    have "length (disk c1 d l) = d_block_size (devs c2 d)"
      using data_okD(6)[OF dk(1), of d l] bd bad_device_devs[of c2 c "Some d"] dv by (simp add: s2)
    note fs = fill_spec[OF inv2(1) _ _ _ _ this, of c3]
    have b3: "buf c3 j = (if j = i then (buf c2 i)\<lparr>b_data := disk c1 d l, b_valid := True, b_block_size := d_block_size (devs c2 d)\<rparr> else buf c2 j)" for j
      using nv dv by (simp add: c3_def s2)
    have "cinv {i} {} {} c3" and "view c3 = (view c2)(d := (view c2 d)(b_lba (buf c2 i) := disk c1 d l))"
      by (rule fs; use b3 g(5,6) in \<open>simp add: keyed_def c3_def s2\<close>)+
    moreover have "(view c2)(d := (view c2 d)(b_lba (buf c2 i) := disk c1 d l)) = view c"
      using inv2(2) g(3,6,7) by (simp add: s2 fun_upd_idem)
    moreover have "b_data (buf c3 i) = view c d l" using g(7) by (simp add: c3_def)
    moreover have "same_world c c3" using sw2 by (simp add: c3_def same_world_def)
    ultimately show ?thesis using that(2)[OF r] by simp
  qed
qed

text \<open>Writing a block, as \<^verbatim>\<open>block_device_write\<close> does it: get, fill, mark dirty, release.\<close>

lemma bget_write_spec:
  assumes inv: "cinv {} {} {} c" and w: "\<forall>n. wr_ok c n" and bd: "\<not> bad_device (Some d) c" and wr: "writable c d"
    and x: "length x = d_block_size (devs c d)"
  obtains i c1 where "bget (Some d) l c = (BOk i, c1)"
    and "let c2 = brelse i (bdirty i (upd_buf i (\<lambda>b. b\<lparr>b_data := x, b_block_size := d_block_size (devs c d), b_valid := True\<rparr>) c1))
         in cinv {} {} {} c2 \<and> view c2 = (view c)(d := (view c d)(l := x)) \<and> same_world c c2"
proof -
  have fin: "let c2 = brelse i (bdirty i c3) in cinv {} {} {} c2 \<and> view c2 = (view c)(d := (view c d)(l := x)) \<and> same_world c c2"
    if k: "cinv {i} F {} c1" "F \<subseteq> {i}" "keyed F c1 i" "view c1 = view c" "same_world c c1" "b_device (buf c1 i) = Some d" "b_lba (buf c1 i) = l"
      and b: "\<And>j. buf c3 j = (if j = i then (buf c1 i)\<lparr>b_data := x, b_valid := True, b_block_size := d_block_size (devs c1 d)\<rparr> else buf c1 j)"
      and s: "bcache_hash c3 = bcache_hash c1" "bcache_lru c3 = bcache_lru c1" "devs c3 = devs c1" "disk c3 = disk c1" "same_world c1 c3" for i F c1 c3
  proof -
    have dv: "devs c1 = devs c" using k(5) by (simp add: same_world_def)
    have "length x = d_block_size (devs c1 d)" using x dv by simp
    note fs = fill_spec[OF k(1,2) empty_subsetI k(3,6) this b s(1-4)]
    have w3: "\<forall>n. wr_ok c3 n" and wr3: "writable c3 d" using w wr k(5) s(5) by (simp_all add: same_world_def writable_def)
    have "b_valid (buf c3 i)" "b_device (buf c3 i) = Some d" using k(6) by (simp_all add: b)
    note bs = bdirty_spec[OF fs(1) this wr3 w3]
    note br = brelse_spec[OF bs(1)]
    show ?thesis unfolding Let_def
      using br bs(2) fs(2) k(4,7) same_world_trans[OF same_world_trans[OF same_world_trans[OF k(5) s(5)] bs(3)] br(3)] by simp
  qed
  show ?thesis
  proof (rule get_spec[OF inv w bd, of l])
    fix i c1
    assume g: "bcache_get_locked d l c = (Got i False, c1)" "cinv {i} {} {} c1" "view c1 = view c" "same_world c c1"
      "b_device (buf c1 i) = Some d" "b_lba (buf c1 i) = l" "b_valid (buf c1 i)"
    have r: "bget (Some d) l c = (BOk i, c1)" using g(1) bd by (simp add: bget_def)
    have dv: "devs c1 = devs c" using g(4) by (simp add: same_world_def)
    show ?thesis by (rule that[OF r], rule fin[OF g(2) _ _ g(3-6)]) (simp_all add: keyed_def g(7) dv same_world_def)
  next
    fix i c1
    assume g: "bcache_get_locked d l c = (Got i True, c1)" "cinv {i} {i} {} c1" "view c1 = view c" "same_world c c1"
      "b_device (buf c1 i) = Some d" "b_lba (buf c1 i) = l" "view c d l = disk c1 d l"
    have r: "bget (Some d) l c = (BOk i, upd_buf i (\<lambda>b. b\<lparr>b_data := replicate (d_block_size (devs c d)) 0, b_valid := True\<rparr>) c1)"
      using g(1) bd by (simp add: bget_def)
    have dv: "devs c1 = devs c" using g(4) by (simp add: same_world_def)
    show ?thesis by (rule that[OF r], rule fin[OF g(2) _ _ g(3-6)]) (simp_all add: keyed_def dv same_world_def)
  qed
qed

lemma flush_device_loop:
  assumes "cinv {} {} {} c" "\<forall>n. wr_ok c n"
  shows "cinv {} {} {} (fold (flush_buffer d) is c) \<and> view (fold (flush_buffer d) is c) = view c \<and> same_world c (fold (flush_buffer d) is c)
     \<and> (\<forall>j. cached (fold (flush_buffer d) is c) j = cached c j \<and> (b_dirty (buf (fold (flush_buffer d) is c) j) \<longrightarrow> b_dirty (buf c j)
            \<and> (j \<in> set is \<longrightarrow> b_device (buf c j) \<noteq> Some d)))"
  using assms
proof (induction "is" arbitrary: c)
  case (Cons i "is")
  define c1 where "c1 = flush_buffer d i c"
  have h: "hash_ok {} c" "data_ok {} {} c" using Cons.prems(1) by (simp_all add: cinv_def)
  have st: "cinv {} {} {} c1 \<and> view c1 = view c \<and> same_world c c1 \<and> (\<forall>j. cached c1 j = cached c j \<and> b_device (buf c1 j) = b_device (buf c j)
      \<and> (b_dirty (buf c1 j) \<longrightarrow> b_dirty (buf c j) \<and> (j = i \<longrightarrow> b_device (buf c j) \<noteq> Some d)))"
  proof (cases "b_device (buf c i) = Some d \<and> b_dirty (buf c i) \<and> b_valid (buf c i)")
    case True
    obtain ok c2 where f: "bcache_flush_locked i c = (ok, c2)" by fastforce
    then have "c1 = c2" using True by (simp add: c1_def flush_buffer_def)
    then show ?thesis using flush_cinv[OF Cons.prems f] flush_spec(3,4,7)[OF h Cons.prems(2) f] by (auto simp: cached_def fun_eq_iff)
  next
    case False
    then have "c1 = c" unfolding c1_def flush_buffer_def by argo
    then show ?thesis using Cons.prems(1) False data_okD(3)[OF h(2), of i] by auto
  qed
  then have w1: "\<forall>n. wr_ok c1 n" using Cons.prems(2) by (simp add: same_world_def)
  have ih: "cinv {} {} {} (fold (flush_buffer d) is c1) \<and> view (fold (flush_buffer d) is c1) = view c1 \<and> same_world c1 (fold (flush_buffer d) is c1)
     \<and> (\<forall>j. cached (fold (flush_buffer d) is c1) j = cached c1 j \<and> (b_dirty (buf (fold (flush_buffer d) is c1) j) \<longrightarrow> b_dirty (buf c1 j)
            \<and> (j \<in> set is \<longrightarrow> b_device (buf c1 j) \<noteq> Some d)))" using Cons.IH[of c1] st w1 by blast
  have e: "fold (flush_buffer d) (i # is) c = fold (flush_buffer d) is c1" by (simp add: c1_def)
  have t: "same_world c (fold (flush_buffer d) is c1)" using same_world_trans st ih by blast
  show ?case unfolding e using st ih t by auto
qed simp

end
