(* ===== verification/Block_Device.thy ===== *)
theory Block_Device
  imports Block_Cache
begin

text \<open>
  Block devices: \<^verbatim>\<open>src/kernel/block/block_device.c\<close>, above the buffer cache.

  The list of registered devices is \<open>registered\<close>, the head first. Reading and writing go block by block
  through the cache; a call that has to wait for a buffer yields \<open>IoWait\<close>. The request queue of the file
  is compiled out (\<^verbatim>\<open>#if 0\<close>) and not modelled; the fields it would use are left out of the descriptor.
\<close>

definition BLOCK_DEVICE_READAHEAD_WINDOW :: nat where
  "BLOCK_DEVICE_READAHEAD_WINDOW = 4"

definition UINT64_MAX :: nat where
  "UINT64_MAX = 2 ^ 64 - 1"

record block_sys =
  cache :: bcache
  registered :: "ptr list"
  bd_initialized :: bool

definition block_device_system_initialize :: "block_sys \<Rightarrow> block_sys" where
  "block_device_system_initialize s = \<lparr>cache = block_cache_initialize (cache s), registered = [], bd_initialized = True\<rparr>"

definition name_is :: "string \<Rightarrow> block_sys \<Rightarrow> ptr \<Rightarrow> bool" where
  "name_is name s d \<longleftrightarrow> take 32 (d_name (devs (cache s) d)) = take 32 name"

definition block_device_name_exists :: "string \<Rightarrow> block_sys \<Rightarrow> bool" where
  "block_device_name_exists name s \<longleftrightarrow> (\<exists>d\<in>set (registered s). name_is name s d)"

definition upd_dev :: "ptr \<Rightarrow> (block_device \<Rightarrow> block_device) \<Rightarrow> bcache \<Rightarrow> bcache" where
  "upd_dev d f c = c\<lparr>devs := (devs c)(d := f (devs c d))\<rparr>"

definition block_device_register :: "ptr option \<Rightarrow> block_sys \<Rightarrow> bool \<times> block_sys" where
  "block_device_register device s =
     (case device of
        None \<Rightarrow> (False, s)
      | Some d \<Rightarrow>
          if \<not> bd_initialized s \<or> \<not> d_ops (devs (cache s) d) then (False, s)
          else if d_block_size (devs (cache s) d) = 0 then (False, s)
          else if block_device_name_exists (d_name (devs (cache s) d)) s then (False, s)
          else (True, s\<lparr>cache := upd_dev d (\<lambda>x. x\<lparr>d_readahead_last_lba := UINT64_MAX, d_readahead_last_count := 0\<rparr>) (cache s),
                        registered := d # registered s\<rparr>))"

definition block_device_unregister :: "ptr option \<Rightarrow> block_sys \<Rightarrow> block_sys" where
  "block_device_unregister device s =
     (case device of
        None \<Rightarrow> s
      | Some d \<Rightarrow>
          if \<not> bd_initialized s then s
          else s\<lparr>cache := block_cache_invalidate_device d (cache s), registered := remove1 d (registered s)\<rparr>)"

definition block_device_lookup :: "string option \<Rightarrow> block_sys \<Rightarrow> ptr option" where
  "block_device_lookup name s =
     (case name of
        None \<Rightarrow> None
      | Some n \<Rightarrow> if \<not> bd_initialized s then None else find (name_is n s) (registered s))"

definition block_device_first :: "block_sys \<Rightarrow> ptr option" where
  "block_device_first s = (if \<not> bd_initialized s \<or> registered s = [] then None else Some (hd (registered s)))"

definition block_device_next :: "ptr option \<Rightarrow> block_sys \<Rightarrow> ptr option" where
  "block_device_next cur s =
     (case cur of
        None \<Rightarrow> None
      | Some d \<Rightarrow> (case dropWhile (\<lambda>x. x \<noteq> d) (registered s) of _ # n # _ \<Rightarrow> Some n | _ \<Rightarrow> None))"

section \<open>Reading and writing\<close>

datatype 'a io = IoRet 'a | IoWait

definition block_device_validate :: "ptr option \<Rightarrow> bcache \<Rightarrow> bool" where
  "block_device_validate device c =
     (case device of None \<Rightarrow> False
      | Some d \<Rightarrow> d_ops (devs c d) \<and> d_has_read (devs c d) \<and> d_block_size (devs c d) \<noteq> 0)"

text \<open>The loop of \<^verbatim>\<open>block_device_readahead\<close>; its result only tells whether it waits.\<close>

fun readahead_loop :: "ptr \<Rightarrow> nat list \<Rightarrow> bcache \<Rightarrow> unit io \<times> bcache" where
  "readahead_loop d [] c = (IoRet (), c)"
| "readahead_loop d (l # ls) c =
     (case bread (Some d) l c of
        (BWait, c1) \<Rightarrow> (IoWait, c1)
      | (BNull, c1) \<Rightarrow> (IoRet (), c1)
      | (BOk i, c1) \<Rightarrow> readahead_loop d ls (brelse i c1))"

definition block_device_readahead :: "ptr \<Rightarrow> nat \<Rightarrow> nat \<Rightarrow> bcache \<Rightarrow> unit io \<times> bcache" where
  "block_device_readahead d start window c =
     (if \<not> d_ops (devs c d) \<or> \<not> d_has_read (devs c d) then (IoRet (), c)
      else if start \<ge> d_block_count (devs c d) then (IoRet (), c)
      else let remaining = d_block_count (devs c d) - start;
               n = (if window < remaining then window else u32 remaining)
           in readahead_loop d [start..<start + n] c)"

fun read_loop :: "ptr \<Rightarrow> nat list \<Rightarrow> bcache \<Rightarrow> byte list option io \<times> bcache" where
  "read_loop d [] c = (IoRet (Some []), c)"
| "read_loop d (l # ls) c =
     (case bread (Some d) (u64 l) c of
        (BWait, c1) \<Rightarrow> (IoWait, c1)
      | (BNull, c1) \<Rightarrow> (IoRet None, c1)
      | (BOk i, c1) \<Rightarrow>
          (case read_loop d ls (brelse i c1) of
             (IoRet (Some bs), c2) \<Rightarrow> (IoRet (Some (take (d_block_size (devs c d)) (b_data (buf c1 i)) @ bs)), c2)
           | r \<Rightarrow> r))"

text \<open>The bytes that end up in the buffer, or \<open>None\<close> for the result \<^verbatim>\<open>false\<close>.\<close>

definition block_device_read :: "ptr option \<Rightarrow> nat \<Rightarrow> nat \<Rightarrow> bcache \<Rightarrow> byte list option io \<times> bcache" where
  "block_device_read device lba n c =
     (case device of
        None \<Rightarrow> (IoRet None, c)
      | Some d \<Rightarrow>
          if \<not> block_device_validate device c \<or> n = 0 then (IoRet None, c)
          else if u64 (lba + n) > d_block_count (devs c d) then (IoRet None, c)
          else let dv = devs c d;
                   sequential = (d_readahead_last_count dv > 0 \<and> d_readahead_last_lba dv \<noteq> UINT64_MAX
                                 \<and> lba = u64 (d_readahead_last_lba dv + d_readahead_last_count dv))
               in case read_loop d [lba..<lba + n] c of
                    (IoRet (Some bs), c1) \<Rightarrow>
                      (let c2 = upd_dev d (\<lambda>x. x\<lparr>d_readahead_last_lba := lba, d_readahead_last_count := u32 n\<rparr>) c1
                       in if sequential \<or> n > 1
                          then (case block_device_readahead d (u64 (lba + n)) BLOCK_DEVICE_READAHEAD_WINDOW c2 of
                                  (IoWait, c3) \<Rightarrow> (IoWait, c3)
                                | (IoRet _, c3) \<Rightarrow> (IoRet (Some bs), c3))
                          else (IoRet (Some bs), c2))
                  | r \<Rightarrow> r)"

fun write_loop :: "ptr \<Rightarrow> nat list \<Rightarrow> byte list \<Rightarrow> bcache \<Rightarrow> bool io \<times> bcache" where
  "write_loop d [] src c = (IoRet True, c)"
| "write_loop d (l # ls) src c =
     (let bs = d_block_size (devs c d) in
      case bget (Some d) (u64 l) c of
        (BWait, c1) \<Rightarrow> (IoWait, c1)
      | (BNull, c1) \<Rightarrow> (IoRet False, c1)
      | (BOk i, c1) \<Rightarrow>
          write_loop d ls (drop bs src)
            (brelse i (bdirty i (upd_buf i (\<lambda>b. b\<lparr>b_data := take bs src, b_block_size := bs, b_valid := True\<rparr>) c1))))"

definition block_device_write :: "ptr option \<Rightarrow> nat \<Rightarrow> byte list \<Rightarrow> nat \<Rightarrow> bcache \<Rightarrow> bool io \<times> bcache" where
  "block_device_write device lba src n c =
     (case device of
        None \<Rightarrow> (IoRet False, c)
      | Some d \<Rightarrow>
          if n = 0 then (IoRet False, c)
          else if \<not> d_ops (devs c d) \<or> \<not> d_has_write (devs c d) then (IoRet False, c)
          else if u64 (lba + n) > d_block_count (devs c d) then (IoRet False, c)
          else write_loop d [lba..<lba + n] src c)"

text \<open>The driver's own \<^verbatim>\<open>flush\<close> is one more of its calls.\<close>

definition block_device_flush :: "ptr option \<Rightarrow> bcache \<Rightarrow> bool \<times> bcache" where
  "block_device_flush device c =
     (case device of
        None \<Rightarrow> (True, c)
      | Some d \<Rightarrow>
          if \<not> d_ops (devs c d) \<or> \<not> d_has_flush (devs c d) then (True, c)
          else let c1 = block_cache_flush_device d c in (wr_ok c1 (io_no c1), c1\<lparr>io_no := io_no c1 + 1\<rparr>))"

section \<open>Refinement of a disk\<close>

text \<open>A driver that works on device \<open>d\<close>: blocks of a supported size, readable, writable, and write-backs do not fail.\<close>

definition device_ok :: "bcache \<Rightarrow> ptr \<Rightarrow> bool" where
  "device_ok c d \<longleftrightarrow> \<not> bad_device (Some d) c \<and> d_ops (devs c d) \<and> d_has_read (devs c d) \<and> d_has_write (devs c d) \<and> (\<forall>n. wr_ok c n)"

abbreviation idle :: "bcache \<Rightarrow> bool" where
  "idle c \<equiv> cinv {} {} {} c"

lemma device_ok_same_world: "same_world c c' \<Longrightarrow> device_ok c' d = device_ok c d"
  unfolding device_ok_def same_world_def using bad_device_devs by metis

lemma read_loop_spec:
  assumes "idle c" "device_ok c d" "\<forall>l\<in>set ls. l < 2 ^ 64"
  shows "case read_loop d ls c of (r, c') \<Rightarrow>
      idle c' \<and> view c' = view c \<and> same_world c c'
      \<and> (r = IoRet (Some (concat (map (view c d) ls))) \<or> r = IoRet None \<and> (\<exists>n. \<not> rd_ok c n))"
  using assms
proof (induction ls arbitrary: c)
  case (Cons l ls)
  have ok: "\<forall>n. wr_ok c n" "\<not> bad_device (Some d) c" "d_ops (devs c d)" "d_has_read (devs c d)" using Cons.prems(2) by (simp_all add: device_ok_def)
  have u: "u64 l = l" using Cons.prems(3) by (simp add: u64_small)
  show ?case
  proof (rule bread_spec[OF Cons.prems(1) ok, of l])
    fix c1
    assume "bread (Some d) l c = (BNull, c1)" "idle c1" "view c1 = view c" "same_world c c1" "\<exists>n. \<not> rd_ok c n"
    then show ?thesis by (simp add: u)
  next
    fix i c1
    assume b: "bread (Some d) l c = (BOk i, c1)" "cinv {i} {} {} c1" "view c1 = view c" "same_world c c1" "b_data (buf c1 i) = view c d l"
    note br = brelse_spec[OF b(2)]
    have sw: "same_world c (brelse i c1)" by (rule same_world_trans[OF b(4) br(3)])
    obtain r c2 where rl: "read_loop d ls (brelse i c1) = (r, c2)" by fastforce
    have ih: "idle c2 \<and> view c2 = view c \<and> same_world (brelse i c1) c2
        \<and> (r = IoRet (Some (concat (map (view c d) ls))) \<or> r = IoRet None \<and> (\<exists>n. \<not> rd_ok (brelse i c1) n))"
      using Cons.IH[OF br(1)] Cons.prems(2,3) device_ok_same_world[OF sw] br(2) b(3) rl by simp
    have "length (view c d l) = d_block_size (devs c d)"
    proof -
      have dk: "data_ok {} {} c" "hash_ok {} c" using Cons.prems(1) by (simp_all add: cinv_def)
      show ?thesis
      proof (cases "bcache_hash_lookup d l c")
        case None
        then show ?thesis using data_okD(6)[OF dk(1) ok(2)] by (simp add: view_def)
      next
        case (Some j)
        then have "cached c j d l" using lookup_iff[OF dk(2)] by blast
        then show ?thesis using Some data_okD(1,2)[OF dk(1), of j] by (auto simp: view_def cached_def keyed_def)
      qed
    qed
    then have "take (d_block_size (devs c d)) (b_data (buf c1 i)) = view c d l" using b(5) by simp
    moreover have "same_world c c2" using same_world_trans sw ih by blast
    moreover have "rd_ok (brelse i c1) = rd_ok c" using sw by (simp add: same_world_def)
    ultimately show ?thesis using ih b(1) rl by (auto simp: u)
  qed
qed simp

lemma readahead_loop_spec:
  assumes "idle c" "device_ok c d"
  shows "case readahead_loop d ls c of (r, c') \<Rightarrow> r = IoRet () \<and> idle c' \<and> view c' = view c \<and> same_world c c'"
  using assms
proof (induction ls arbitrary: c)
  case (Cons l ls)
  have ok: "\<forall>n. wr_ok c n" "\<not> bad_device (Some d) c" "d_ops (devs c d)" "d_has_read (devs c d)" using Cons.prems(2) by (simp_all add: device_ok_def)
  show ?case
  proof (rule bread_spec[OF Cons.prems(1) ok, of l])
    fix c1
    assume "bread (Some d) l c = (BNull, c1)" "idle c1" "view c1 = view c" "same_world c c1" "\<exists>n. \<not> rd_ok c n"
    then show ?thesis by simp
  next
    fix i c1
    assume b: "bread (Some d) l c = (BOk i, c1)" "cinv {i} {} {} c1" "view c1 = view c" "same_world c c1" "b_data (buf c1 i) = view c d l"
    note br = brelse_spec[OF b(2)]
    have sw: "same_world c (brelse i c1)" by (rule same_world_trans[OF b(4) br(3)])
    have "device_ok (brelse i c1) d" using device_ok_same_world[OF sw] Cons.prems(2) by blast
    from Cons.IH[OF br(1) this] show ?thesis using b(1,3) br(2) same_world_trans[OF sw] by (auto split: prod.splits)
  qed
qed simp

text \<open>The blocks of \<open>d\<close> from \<open>l\<close> on replaced by consecutive pieces of \<open>src\<close>.\<close>

fun put_blocks :: "ptr \<Rightarrow> nat \<Rightarrow> nat list \<Rightarrow> byte list \<Rightarrow> (ptr \<Rightarrow> nat \<Rightarrow> byte list) \<Rightarrow> (ptr \<Rightarrow> nat \<Rightarrow> byte list)" where
  "put_blocks d bs [] src v = v"
| "put_blocks d bs (l # ls) src v = put_blocks d bs ls (drop bs src) (v(d := (v d)(l := take bs src)))"

lemma write_loop_spec:
  assumes "idle c" "device_ok c d" "\<forall>l\<in>set ls. l < 2 ^ 64" "length src = length ls * d_block_size (devs c d)"
  shows "case write_loop d ls src c of (r, c') \<Rightarrow>
      r = IoRet True \<and> idle c' \<and> view c' = put_blocks d (d_block_size (devs c d)) ls src (view c) \<and> same_world c c'"
  using assms
proof (induction ls arbitrary: c src)
  case (Cons l ls)
  have ok: "\<forall>n. wr_ok c n" "\<not> bad_device (Some d) c" "writable c d" using Cons.prems(2) by (simp_all add: device_ok_def writable_def)
  have u: "u64 l = l" using Cons.prems(3) by (simp add: u64_small)
  have x: "length (take (d_block_size (devs c d)) src) = d_block_size (devs c d)" using Cons.prems(4) by simp
  obtain i c1 where g: "bget (Some d) l c = (BOk i, c1)"
    and c2: "let c2 = brelse i (bdirty i (upd_buf i (\<lambda>b. b\<lparr>b_data := take (d_block_size (devs c d)) src, b_block_size := d_block_size (devs c d), b_valid := True\<rparr>) c1))
         in idle c2 \<and> view c2 = (view c)(d := (view c d)(l := take (d_block_size (devs c d)) src)) \<and> same_world c c2"
    by (rule bget_write_spec[OF Cons.prems(1) ok x])
  define c2 where "c2 = brelse i (bdirty i (upd_buf i (\<lambda>b. b\<lparr>b_data := take (d_block_size (devs c d)) src, b_block_size := d_block_size (devs c d), b_valid := True\<rparr>) c1))"
  have e: "write_loop d (l # ls) src c = write_loop d ls (drop (d_block_size (devs c d)) src) c2" using g by (simp add: u c2_def Let_def)
  note c2' = c2[folded c2_def, unfolded Let_def]
  have dv: "devs c2 = devs c" using c2' by (simp add: same_world_def)
  have ok2: "device_ok c2 d" using device_ok_same_world c2' Cons.prems(2) by blast
  have ls: "\<forall>l\<in>set ls. l < 2 ^ 64" "length (drop (d_block_size (devs c d)) src) = length ls * d_block_size (devs c2 d)"
    using Cons.prems(3,4) by (simp_all add: dv)
  obtain r c3 where wl: "write_loop d ls (drop (d_block_size (devs c d)) src) c2 = (r, c3)" by fastforce
  have ih: "r = IoRet True \<and> idle c3 \<and> view c3 = put_blocks d (d_block_size (devs c2 d)) ls (drop (d_block_size (devs c d)) src) (view c2) \<and> same_world c2 c3"
    using Cons.IH[OF c2'[THEN conjunct1] ok2 ls] unfolding wl prod.case .
  have v: "put_blocks d (d_block_size (devs c d)) (l # ls) src (view c) = put_blocks d (d_block_size (devs c2 d)) ls (drop (d_block_size (devs c d)) src) (view c2)"
    unfolding put_blocks.simps dv c2'[THEN conjunct2, THEN conjunct1] by (rule refl)
  have "same_world c c3" using same_world_trans c2' ih by blast
  then show ?case unfolding e wl prod.case v using ih by blast
qed simp

lemma put_blocks_at:
  assumes "bs * n \<le> length src"
  shows "put_blocks d bs [l..<l + n] src v e m =
    (if e = d \<and> l \<le> m \<and> m < l + n then take bs (drop ((m - l) * bs) src) else v e m)"
  using assms
proof (induction n arbitrary: l src v)
  case (Suc n)
  have up: "[l..<l + Suc n] = l # [Suc l..<Suc l + n]" by (simp add: upt_conv_Cons)
  have len: "bs * n \<le> length (drop bs src)" using Suc.prems by simp
  have "take bs (drop ((m - Suc l) * bs) (drop bs src)) = take bs (drop ((m - l) * bs) src)" if "Suc l \<le> m"
  proof -
    have "(m - Suc l) * bs + bs = (m - l) * bs" using that by (metis Suc_diff_Suc Suc_le_lessD mult_Suc add.commute)
    then show ?thesis by simp
  qed
  then show ?case unfolding up put_blocks.simps Suc.IH[OF len] by (auto simp: not_less_eq_eq)
qed auto

text \<open>Noting the end of the last read for the read-ahead changes nothing that matters.\<close>

lemma readahead_note:
  fixes c :: bcache and d :: ptr and a b :: nat
  defines "c' \<equiv> upd_dev d (\<lambda>x. x\<lparr>d_readahead_last_lba := a, d_readahead_last_count := b\<rparr>) c"
  shows "idle c' = idle c" "view c' = view c" "device_ok c' e = device_ok c e"
proof -
  have s: "bcache_pool c' = bcache_pool c" "bcache_hash c' = bcache_hash c" "bcache_lru c' = bcache_lru c" "disk c' = disk c" "wr_ok c' = wr_ok c"
    "\<And>e. d_block_size (devs c' e) = d_block_size (devs c e)" "\<And>e. d_ops (devs c' e) = d_ops (devs c e)"
    "\<And>e. d_has_read (devs c' e) = d_has_read (devs c e)" "\<And>e. d_has_write (devs c' e) = d_has_write (devs c e)"
    by (simp_all add: c'_def upd_dev_def)
  have bad: "bad_device x c' = bad_device x c" for x by (simp add: bad_device_def s split: option.splits)
  have k: "keyed {} c' = keyed {} c" "buf_key j c' = buf_key j c" for j by (simp_all add: keyed_def buf_key_def s fun_eq_iff)
  show "idle c' = idle c" by (simp add: cinv_def lru_ok_def hash_ok_def data_ok_def writable_def k bad s)
  show "view c' = view c" unfolding view_def bcache_hash_lookup_def s by (rule refl)
  show "device_ok c' e = device_ok c e" by (simp add: device_ok_def bad s)
qed

lemma readahead_spec:
  assumes "idle c" "device_ok c d"
  shows "case block_device_readahead d l n c of (r, c') \<Rightarrow> r = IoRet () \<and> idle c' \<and> view c' = view c"
proof -
  have "block_device_readahead d l n c = (IoRet (), c) \<or> (\<exists>ls. block_device_readahead d l n c = readahead_loop d ls c)"
    unfolding block_device_readahead_def Let_def by auto
  then show ?thesis using readahead_loop_spec[OF assms] assms(1) by (fastforce split: prod.splits)
qed

lemma flush_durable:
  assumes "idle c" "device_ok c d"
  defines "c' \<equiv> block_cache_flush_device d c"
  shows "idle c'" "view c' = view c" "disk c' d = view c d"
proof -
  have w: "\<forall>n. wr_ok c n" using assms(2) by (simp add: device_ok_def)
  note fl = flush_device_loop[OF assms(1) w, where d = d and ?is = "[0..<BCACHE_MAX_BUFFERS]", folded block_cache_flush_device_def c'_def]
  then show i: "idle c'" and v: "view c' = view c" by blast+
  have h: "hash_ok {} c'" "data_ok {} {} c'" using i by (simp_all add: cinv_def)
  have "disk c' d l = view c' d l" for l
  proof (cases "\<exists>j. cached c' j d l")
    case True
    then obtain j where j: "cached c' j d l" by blast
    then have "cached c j d l" using fl by metis
    then have jc: "b_device (buf c j) = Some d" "j < BCACHE_MAX_BUFFERS"
      using assms(1) by (auto simp: cached_def cinv_def lru_ok_def)
    then have "\<not> b_dirty (buf c' j)" using fl by auto
    then show ?thesis using view_cached[OF h(1) j] data_okD(5)[OF h(2), of j d] j by (simp add: cached_def)
  next
    case False
    then show ?thesis using view_uncached[OF h(1)] by metis
  qed
  then show "disk c' d = view c d" using v by (intro ext) simp
qed

text \<open>A cache that has just been initialized.\<close>

lemma initialize_idle:
  assumes "\<not> bcache_initialized c" "\<forall>d l. \<not> bad_device (Some d) c \<longrightarrow> length (disk c d l) = d_block_size (devs c d)"
  shows "idle (block_cache_initialize c)" "view (block_cache_initialize c) = disk c"
proof -
  let ?c = "block_cache_initialize c"
  have s: "bcache_pool ?c = (\<lambda>_. zero_buffer)" "bcache_hash ?c = (\<lambda>_. [])" "bcache_lru ?c = []" "devs ?c = devs c" "disk ?c = disk c"
    using assms(1) by (simp_all add: block_cache_initialize_def)
  have "bad_device x ?c = bad_device x c" for x by (rule bad_device_devs) (rule s)
  then show "idle ?c" using assms(2)
    by (simp add: cinv_def lru_ok_def hash_ok_def data_ok_def keyed_def s zero_buffer_def)
  show "view ?c = disk c" by (intro ext) (simp add: view_def bcache_hash_lookup_def s)
qed

definition demo_blocks :: bcache where
  "demo_blocks = block_cache_initialize
     \<lparr>bcache_pool = (\<lambda>_. zero_buffer), bcache_hash = (\<lambda>_. []), bcache_lru = [], bcache_dirty_count = 0, bcache_initialized = False,
      devs = (\<lambda>_. \<lparr>d_name = ''disk0'', d_block_size = 2, d_block_count = 10, d_ops = True, d_has_read = True, d_has_write = True,
                   d_has_flush = True, d_readahead_last_lba = UINT64_MAX, d_readahead_last_count = 0\<rparr>),
      disk = (\<lambda>_ _. [0, 0]), rd_ok = (\<lambda>_. True), wr_ok = (\<lambda>_. True), io_no = 0\<rparr>"

lemma demo_blocks_ok: "idle demo_blocks" "view demo_blocks = (\<lambda>_ _. [0, 0])" "device_ok demo_blocks d"
  "devs demo_blocks d = \<lparr>d_name = ''disk0'', d_block_size = 2, d_block_count = 10, d_ops = True, d_has_read = True, d_has_write = True,
                   d_has_flush = True, d_readahead_last_lba = UINT64_MAX, d_readahead_last_count = 0\<rparr>"
  unfolding demo_blocks_def
  by (subst initialize_idle; simp)+ (simp_all add: device_ok_def bad_device_def block_cache_initialize_def BCACHE_MAX_BLOCK_BYTES_def)

section \<open>Properties\<close>





lemma flush_lru: "bcache_lru (snd (bcache_flush_locked i c)) = bcache_lru c"
  by (simp add: bcache_flush_locked_def write_blocks_def Let_def split: option.splits)

lemma claim_lru: "bcache_lru (claim_victim d l i c) = i # filter (\<lambda>j. j \<noteq> i) (bcache_lru c)"
  by (simp add: claim_victim_def Let_def bcache_lru_push_front_def bcache_lru_detach_def bcache_hash_insert_def bcache_hash_remove_def flush_lru)

text \<open>
  A buffer is taken from the never-used ones only if no buffer in use is idle. So, as long as callers
  hold one buffer at a time, the cache consists of a single buffer, whatever the size of its pool.
\<close>

theorem sequential_use_keeps_one_buffer:
  assumes "idle c" "length (bcache_lru c) \<le> 1" "bcache_get_locked d l c = (r, c')"
  shows "length (bcache_lru c') \<le> 1"
proof -
  have "bcache_lru c' \<in> {bcache_lru c} \<union> {i # filter (\<lambda>j. j \<noteq> i) (bcache_lru c) |i. i \<in> set (bcache_lru c) \<or> bcache_lru c = []}"
  proof (cases "bcache_hash_lookup d l c")
    case (Some i)
    then have "cached c i d l" using assms(1) lookup_iff by (auto simp: cinv_def)
    then have "i \<in> set (bcache_lru c)" using assms(1) by (auto simp: cached_def cinv_def lru_ok_def)
    then show ?thesis using assms(3) Some
      by (auto simp: bcache_get_locked_def bcache_lru_push_front_def bcache_lru_detach_def split: if_splits)
  next
    case None
    obtain v c1 where p: "pick_victim c = (v, c1)" by fastforce
    then have "bcache_lru c1 = bcache_lru c \<and> (\<forall>i. v = Some i \<longrightarrow> i \<in> set (bcache_lru c) \<or> bcache_lru c = [])"
    proof (cases "bcache_lru c = []")
      case True
      then show ?thesis using p by (auto simp: pick_victim_def bcache_alloc_locked_def split: option.splits prod.splits)
    next
      case False
      obtain xs x where e: "bcache_lru c = xs @ [x]" using False by (cases "bcache_lru c" rule: rev_cases) auto
      then have x: "x \<in> set (bcache_lru c)" by simp
      then have "b_refcount (buf c x) = 0" "\<not> b_busy (buf c x)" using assms(1) unfolding cinv_def lru_ok_def by auto
      then have "bcache_select_victim c = Some x" unfolding bcache_select_victim_def e by simp
      then show ?thesis using p x by (auto simp: pick_victim_def)
    qed
    then show ?thesis using assms(3) None p
      by (cases v) (auto simp: bcache_get_locked_def claim_lru)
  qed
  then show ?thesis using assms(2) by (cases "bcache_lru c") auto
qed

end
