(* ===== verification/Devfs.thy ===== *)
theory Devfs
  imports File_Table
begin

text \<open>
  Character devices and \<^verbatim>\<open>/dev\<close>: \<^verbatim>\<open>src/kernel/fs/devfs/devfs.c\<close>, with the path information that every file
  system hands to the layer above (\<^verbatim>\<open>include/kernel/fs/core.h\<close>).

  A driver owns its \<^verbatim>\<open>char_device_t\<close> object; \<open>d_devices\<close> holds these objects, which \<^verbatim>\<open>char_device_register\<close> writes to
  when it chooses a number. \<open>d_entries\<close> is the chain \<^verbatim>\<open>devfs_devices\<close> (address of the entry, address of the
  device), \<open>d_majors\<close> the table of majors with their chains of minor ranges. The function pointer \<^verbatim>\<open>device->open\<close>
  is one of the functions the kernel's drivers have, the constructors of \<open>char_open\<close>. Numbers of type \<^verbatim>\<open>dev_t\<close> are
  naturals below \<^verbatim>\<open>2^64\<close>; the masks and shifts of \<^verbatim>\<open>MAJOR\<close>, \<^verbatim>\<open>MINOR\<close> and \<^verbatim>\<open>MKDEV\<close> are division and remainder.
\<close>

section \<open>Path information\<close>

definition S_IFMT :: u32w where "S_IFMT = 0xF000"
definition S_IFDIR :: u32w where "S_IFDIR = 0x4000"
definition S_IFCHR :: u32w where "S_IFCHR = 0x2000"
definition S_IFREG :: u32w where "S_IFREG = 0x8000"

definition S_ISCHR :: "u32w \<Rightarrow> bool" where
  "S_ISCHR m \<longleftrightarrow> m AND S_IFMT = S_IFCHR"

definition S_ISDIR :: "u32w \<Rightarrow> bool" where
  "S_ISDIR m \<longleftrightarrow> m AND S_IFMT = S_IFDIR"

record fs_dir_entry =
  de_name :: string
  de_is_directory :: bool
  de_size :: nat

text \<open>\<open>has_mode\<close>, \<open>has_rdev\<close> and \<open>has_times\<close> with their values are options; the DOS attributes likewise.\<close>

record fs_path_info =
  pi_is_directory :: bool
  pi_is_read_only :: bool
  pi_block_size :: nat
  pi_inode :: nat
  pi_size :: nat
  pi_mode :: "u32w option"
  pi_rdev :: "nat option"
  pi_times :: "(timespec \<times> timespec \<times> timespec) option"
  pi_dos :: "(8 word \<times> bool \<times> bool \<times> bool) option"

definition empty_info :: fs_path_info where
  "empty_info = \<lparr>pi_is_directory = False, pi_is_read_only = False, pi_block_size = 0, pi_inode = 0, pi_size = 0,
     pi_mode = None, pi_rdev = None, pi_times = None, pi_dos = None\<rparr>"

record kstat =
  st_mode :: u32w
  st_nlink :: nat
  st_size :: nat
  st_blksize :: nat
  st_blocks :: nat
  st_ino :: nat
  st_rdev :: nat
  st_times :: "nat \<times> nat \<times> nat"
  st_flags :: "8 word"
  st_dos :: "8 word"

definition empty_stat :: kstat where
  "empty_stat = \<lparr>st_mode = 0, st_nlink = 0, st_size = 0, st_blksize = 0, st_blocks = 0, st_ino = 0, st_rdev = 0,
     st_times = (0, 0, 0), st_flags = 0, st_dos = 0\<rparr>"

definition info_mode :: "fs_path_info \<Rightarrow> u32w" where
  "info_mode i =
     (case pi_mode i of
        Some m \<Rightarrow> m
      | None \<Rightarrow> if pi_is_directory i then S_IFDIR OR (if pi_is_read_only i then 0x16D else 0x1ED)
                else S_IFREG OR (if pi_is_read_only i then 0x124 else 0x1A4))"

definition fs_path_info_to_stat :: "fs_path_info option \<Rightarrow> kstat" where
  "fs_path_info_to_stat info =
     (case info of
        None \<Rightarrow> empty_stat
      | Some i \<Rightarrow>
          \<lparr>st_mode = info_mode i, st_nlink = 1, st_size = pi_size i,
           st_blksize = (if pi_block_size i \<noteq> 0 then pi_block_size i else 512), st_blocks = u64 (pi_size i + 511) div 512,
           st_ino = pi_inode i, st_rdev = (case pi_rdev i of Some d \<Rightarrow> d | None \<Rightarrow> 0),
           st_times = (case pi_times i of Some (a, m, c) \<Rightarrow> (tv_sec a, tv_sec m, tv_sec c) | None \<Rightarrow> (0, 0, 0)),
           st_flags = (case pi_dos i of None \<Rightarrow> 0
                       | Some (_, h, sy, ar) \<Rightarrow> 1 OR (if h then 2 else 0) OR (if sy then 4 else 0) OR (if ar then 8 else 0)),
           st_dos = (case pi_dos i of None \<Rightarrow> 0 | Some (b, _) \<Rightarrow> b)\<rparr>)"

section \<open>Device numbers\<close>

definition DEV_MAJOR_MASK :: nat where "DEV_MAJOR_MASK = 2 ^ 12 - 1"
definition DEV_MINOR_MASK :: nat where "DEV_MINOR_MASK = 2 ^ 20 - 1"

definition MKDEV :: "nat \<Rightarrow> nat \<Rightarrow> nat" where
  "MKDEV ma mi = (ma mod 2 ^ 12) * 2 ^ 20 + mi mod 2 ^ 20"

definition MAJOR :: "nat \<Rightarrow> nat" where
  "MAJOR dev = (dev div 2 ^ 20) mod 2 ^ 12"

definition MINOR :: "nat \<Rightarrow> nat" where
  "MINOR dev = dev mod 2 ^ 20"

definition CHAR_DEVICE_DYNAMIC_MAJOR_MIN :: nat where "CHAR_DEVICE_DYNAMIC_MAJOR_MIN = 10"
definition CHAR_DEVICE_MAJOR_COUNT :: nat where "CHAR_DEVICE_MAJOR_COUNT = DEV_MAJOR_MASK + 1"

section \<open>The registry\<close>

datatype char_open =
    devfs_null_open | devfs_zero_open | devfs_tty0_open | devfs_console_open | devfs_fb0_open | devfs_serial_open
  | ps2kb_device_open

record char_device =
  cd_name :: "string option"
  cd_access_mode :: u32w
  cd_open :: "char_open option"
  cd_dev :: nat
  cd_minor_count :: nat

record char_minor_allocation =
  ma_start :: nat
  ma_count :: nat
  ma_device :: ptr

record char_major_state =
  mj_reserved :: bool
  mj_allocations :: "(ptr \<times> char_minor_allocation) list"

record dev_sys = fsys +
  d_devices :: "ptr \<Rightarrow> char_device option"
  d_entries :: "(ptr \<times> ptr) list"
  d_ready :: bool
  d_next_major :: nat
  d_majors :: "nat \<Rightarrow> char_major_state"
  d_builtins :: bool

definition devfs_init_once :: "'a dev_sys_scheme \<Rightarrow> 'a dev_sys_scheme" where
  "devfs_init_once s =
     (if d_ready s then s
      else s\<lparr>d_entries := [], d_next_major := CHAR_DEVICE_DYNAMIC_MAJOR_MIN,
             d_majors := (\<lambda>k. if k < CHAR_DEVICE_DYNAMIC_MAJOR_MIN \<and> k < CHAR_DEVICE_MAJOR_COUNT
                              then d_majors s k\<lparr>mj_reserved := True\<rparr> else d_majors s k),
             d_ready := True\<rparr>)"

definition has_name :: "string \<Rightarrow> 'a dev_sys_scheme \<Rightarrow> ptr \<Rightarrow> bool" where
  "has_name name s d = (map_option cd_name (d_devices s d) = Some (Some name))"

definition devfs_find_by_name :: "string \<Rightarrow> 'a dev_sys_scheme \<Rightarrow> (ptr \<times> ptr) option" where
  "devfs_find_by_name name s = find (\<lambda>(e, d). has_name name s d) (d_entries s)"

definition has_dev :: "nat \<Rightarrow> 'a dev_sys_scheme \<Rightarrow> ptr \<Rightarrow> bool" where
  "has_dev dev s d =
     (case d_devices s d of
        None \<Rightarrow> False
      | Some cd \<Rightarrow>
          MAJOR (cd_dev cd) = MAJOR dev \<and> MINOR dev \<ge> MINOR (cd_dev cd) \<and>
          MINOR dev < u32 (MINOR (cd_dev cd) + (if cd_minor_count cd = 0 then 1 else cd_minor_count cd)))"

definition devfs_find_by_dev :: "nat \<Rightarrow> 'a dev_sys_scheme \<Rightarrow> (ptr \<times> ptr) option" where
  "devfs_find_by_dev dev s = find (\<lambda>(e, d). has_dev dev s d) (d_entries s)"

text \<open>The last minor of a range, in the arithmetic of \<^verbatim>\<open>unsigned int\<close>.\<close>

definition range_end :: "nat \<Rightarrow> nat \<Rightarrow> nat" where
  "range_end start cnt = u32 (start + cnt + (2 ^ 32 - 1))"

definition ranges_meet :: "nat \<Rightarrow> nat \<Rightarrow> char_minor_allocation \<Rightarrow> bool" where
  "ranges_meet start cnt al \<longleftrightarrow> \<not> (range_end start cnt < ma_start al \<or> start > range_end (ma_start al) (ma_count al))"

definition char_major_has_overlap :: "nat \<Rightarrow> nat \<Rightarrow> nat \<Rightarrow> 'a dev_sys_scheme \<Rightarrow> bool" where
  "char_major_has_overlap major start cnt s \<longleftrightarrow>
     major \<ge> CHAR_DEVICE_MAJOR_COUNT \<or> list_ex (\<lambda>(a, al). ranges_meet start cnt al) (mj_allocations (d_majors s major))"

definition set_allocations ::
    "nat \<Rightarrow> (ptr \<times> char_minor_allocation) list \<Rightarrow> 'a dev_sys_scheme \<Rightarrow> 'a dev_sys_scheme" where
  "set_allocations major xs s = s\<lparr>d_majors := (d_majors s)(major := d_majors s major\<lparr>mj_allocations := xs\<rparr>)\<rparr>"

definition char_major_track_range ::
    "ptr \<Rightarrow> nat \<Rightarrow> nat \<Rightarrow> nat \<Rightarrow> 'a dev_sys_scheme \<Rightarrow> (errno + nat) \<times> 'a dev_sys_scheme" where
  "char_major_track_range d major start cnt s =
     (if major \<ge> CHAR_DEVICE_MAJOR_COUNT then (Inl ERANGE, s)
      else if char_major_has_overlap major start cnt s then (Inl EEXIST, s)
      else case kmalloc_obj (fmem s) of
        (None, m) \<Rightarrow> (Inl ENOMEM, s\<lparr>fmem := m\<rparr>)
      | (Some a, m) \<Rightarrow>
          (Inr 0, set_allocations major
             ((a, \<lparr>ma_start = start, ma_count = cnt, ma_device = d\<rparr>) # mj_allocations (d_majors s major)) (s\<lparr>fmem := m\<rparr>)))"

text \<open>Both chains are searched for the first element of the device, which is unlinked and freed.\<close>

definition char_major_untrack_range :: "ptr \<Rightarrow> 'a dev_sys_scheme \<Rightarrow> 'a dev_sys_scheme" where
  "char_major_untrack_range d s =
     (case d_devices s d of
        None \<Rightarrow> s
      | Some cd \<Rightarrow>
          (let major = MAJOR (cd_dev cd); xs = mj_allocations (d_majors s major) in
           if major \<ge> CHAR_DEVICE_MAJOR_COUNT then s
           else case List.extract (\<lambda>(a, al). ma_device al = d) xs of
             None \<Rightarrow> s
           | Some (ys, (a, al), zs) \<Rightarrow> (set_allocations major (ys @ zs) s)\<lparr>fmem := kfree_obj a (fmem s)\<rparr>))"

definition char_major_is_reserved :: "nat \<Rightarrow> 'a dev_sys_scheme \<Rightarrow> bool" where
  "char_major_is_reserved major s \<longleftrightarrow> major \<ge> CHAR_DEVICE_MAJOR_COUNT \<or> mj_reserved (d_majors s major)"

definition char_major_is_unused :: "nat \<Rightarrow> 'a dev_sys_scheme \<Rightarrow> bool" where
  "char_major_is_unused major s \<longleftrightarrow>
     major < CHAR_DEVICE_MAJOR_COUNT \<and> \<not> mj_reserved (d_majors s major) \<and> mj_allocations (d_majors s major) = []"

function scan_majors :: "nat \<Rightarrow> 'a dev_sys_scheme \<Rightarrow> nat option" where
  "scan_majors major s =
     (if major < CHAR_DEVICE_MAJOR_COUNT
      then if char_major_is_unused major s then Some major else scan_majors (major + 1) s
      else None)"
  by auto
termination by (relation "measure (\<lambda>(major, s). CHAR_DEVICE_MAJOR_COUNT - major)") auto

declare scan_majors.simps [simp del]

definition allocate_dynamic_dev :: "nat \<Rightarrow> 'a dev_sys_scheme \<Rightarrow> nat \<times> 'a dev_sys_scheme" where
  "allocate_dynamic_dev minor_count s =
     (let cnt = (if minor_count = 0 then 1 else minor_count) in
      if cnt = 0 \<or> cnt > DEV_MINOR_MASK + 1 then (0, s)
      else let start = max (d_next_major s) CHAR_DEVICE_DYNAMIC_MAJOR_MIN
           in case (case scan_majors start s of None \<Rightarrow> scan_majors CHAR_DEVICE_DYNAMIC_MAJOR_MIN s | Some k \<Rightarrow> Some k) of
                None \<Rightarrow> (0, s)
              | Some k \<Rightarrow> (MKDEV k 0, s\<lparr>d_next_major := k + 1\<rparr>))"

definition upd_device :: "ptr \<Rightarrow> (char_device \<Rightarrow> char_device) \<Rightarrow> 'a dev_sys_scheme \<Rightarrow> 'a dev_sys_scheme" where
  "upd_device d f s = s\<lparr>d_devices := (d_devices s)(d := map_option f (d_devices s d))\<rparr>"

definition devfs_register_entry :: "ptr \<Rightarrow> 'a dev_sys_scheme \<Rightarrow> (errno + nat) \<times> 'a dev_sys_scheme" where
  "devfs_register_entry d s =
     (case kmalloc_obj (fmem s) of
        (None, m) \<Rightarrow> (Inl ENOMEM, s\<lparr>fmem := m\<rparr>)
      | (Some a, m) \<Rightarrow> (Inr 0, s\<lparr>fmem := m, d_entries := (a, d) # d_entries s\<rparr>))"

definition devfs_unregister_entry :: "ptr \<Rightarrow> 'a dev_sys_scheme \<Rightarrow> 'a dev_sys_scheme" where
  "devfs_unregister_entry d s =
     (case List.extract (\<lambda>(e, d'). d' = d) (d_entries s) of
        None \<Rightarrow> s
      | Some (ys, (e, d'), zs) \<Rightarrow> s\<lparr>d_entries := ys @ zs, fmem := kfree_obj e (fmem s)\<rparr>)"

text \<open>The part of \<^verbatim>\<open>char_device_register\<close> after the number has been chosen; \<open>orig\<close> is the number to restore.\<close>

definition register_range :: "ptr \<Rightarrow> nat \<Rightarrow> nat \<Rightarrow> nat \<Rightarrow> 'a dev_sys_scheme \<Rightarrow> (errno + nat) \<times> 'a dev_sys_scheme" where
  "register_range d dev cnt orig s =
     (let major = MAJOR dev; base = MINOR dev; restore = upd_device d (\<lambda>cd. cd\<lparr>cd_dev := orig\<rparr>) in
      if range_end base cnt > DEV_MINOR_MASK then (Inl ERANGE, restore s)
      else if char_major_has_overlap major base cnt s then (Inl EEXIST, restore s)
      else case char_major_track_range d major base cnt s of
        (Inl e, s1) \<Rightarrow> (Inl e, restore s1)
      | (Inr _, s1) \<Rightarrow>
          (case devfs_register_entry d s1 of
             (Inl e, s2) \<Rightarrow> (Inl e, restore (char_major_untrack_range d s2))
           | (Inr r, s2) \<Rightarrow>
               (let s3 = upd_device d (\<lambda>cd. cd\<lparr>cd_minor_count := cnt\<rparr>) s2
                in (Inr r, if major \<ge> d_next_major s3 then s3\<lparr>d_next_major := major + 1\<rparr> else s3))))"

definition char_device_register :: "ptr option \<Rightarrow> 'a dev_sys_scheme \<Rightarrow> (errno + nat) \<times> 'a dev_sys_scheme" where
  "char_device_register device s0 =
     (case device of
        None \<Rightarrow> (Inl EINVAL, s0)
      | Some d \<Rightarrow>
          (case d_devices s0 d of
             None \<Rightarrow> (Inl EINVAL, s0)
           | Some cd \<Rightarrow>
               (case cd_name cd of
                  None \<Rightarrow> (Inl EINVAL, s0)
                | Some name \<Rightarrow>
                    if cd_open cd = None \<or> cd_access_mode cd = 0 then (Inl EINVAL, s0)
                    else let s = devfs_init_once s0; cnt = (if cd_minor_count cd = 0 then 1 else cd_minor_count cd) in
                      if devfs_find_by_name name s \<noteq> None then (Inl EEXIST, s)
                      else if cnt > DEV_MINOR_MASK + 1 then (Inl ERANGE, s)
                      else if cd_dev cd = 0
                      then (case allocate_dynamic_dev cnt s of
                              (dev, s1) \<Rightarrow>
                                if dev = 0 then (Inl ENOSPC, s1)
                                else register_range d dev cnt 0 (upd_device d (\<lambda>cd. cd\<lparr>cd_dev := dev\<rparr>) s1))
                      else register_range d (cd_dev cd) cnt (cd_dev cd) s)))"

definition char_device_unregister :: "ptr option \<Rightarrow> 'a dev_sys_scheme \<Rightarrow> 'a dev_sys_scheme" where
  "char_device_unregister device s =
     (case device of
        None \<Rightarrow> s
      | Some d \<Rightarrow> char_major_untrack_range d (devfs_unregister_entry d (devfs_init_once s)))"

definition char_device_lookup :: "nat \<Rightarrow> 'a dev_sys_scheme \<Rightarrow> ptr option \<times> 'a dev_sys_scheme" where
  "char_device_lookup dev s = (let s1 = devfs_init_once s in (map_option snd (devfs_find_by_dev dev s1), s1))"

definition char_device_reserve_major :: "nat \<Rightarrow> 'a dev_sys_scheme \<Rightarrow> 'a dev_sys_scheme" where
  "char_device_reserve_major major s =
     (let s1 = devfs_init_once s in
      if major \<ge> CHAR_DEVICE_MAJOR_COUNT then s1
      else s1\<lparr>d_majors := (d_majors s1)(major := d_majors s1 major\<lparr>mj_reserved := True\<rparr>)\<rparr>)"

definition char_device_iterate :: "(char_device \<Rightarrow> 'c \<Rightarrow> 'c) option \<Rightarrow> 'c \<Rightarrow> 'a dev_sys_scheme \<Rightarrow> 'c \<times> 'a dev_sys_scheme" where
  "char_device_iterate fn c s =
     (case fn of
        None \<Rightarrow> (c, s)
      | Some f \<Rightarrow> (let s1 = devfs_init_once s in (fold f (List.map_filter (\<lambda>(e, d). d_devices s1 d) (d_entries s1)) c, s1)))"

section \<open>The files of devices\<close>

definition devfs_null_ops :: file_ops where
  "devfs_null_ops = \<lparr>op_table = ''devfs_null'', op_read = True, op_write = True, op_close = False, op_seek = False, op_ioctl = False, op_mmap = False,
     op_stat = True, op_chmod = False, op_utimens = False\<rparr>"

definition devfs_zero_ops :: file_ops where
  "devfs_zero_ops = \<lparr>op_table = ''devfs_zero'', op_read = True, op_write = True, op_close = False, op_seek = False, op_ioctl = False, op_mmap = False,
     op_stat = True, op_chmod = False, op_utimens = False\<rparr>"

definition ps2kb_file_ops :: file_ops where
  "ps2kb_file_ops = \<lparr>op_table = ''ps2kb_file'', op_read = True, op_write = False, op_close = True, op_seek = False, op_ioctl = False, op_mmap = False,
     op_stat = True, op_chmod = False, op_utimens = False\<rparr>"

definition devfs_null_read :: "nat \<Rightarrow> errno + byte list" where
  "devfs_null_read len = Inr []"

definition devfs_null_write :: "byte list \<Rightarrow> errno + nat" where
  "devfs_null_write bs = Inr (length bs)"

definition devfs_zero_read :: "ptr option \<Rightarrow> nat \<Rightarrow> errno + byte list" where
  "devfs_zero_read buffer len = (if buffer = None then Inl EINVAL else Inr (replicate len 0))"

text \<open>What the open function of a device asks \<^verbatim>\<open>file_create\<close> for.\<close>

fun device_file :: "char_open \<Rightarrow> u32w \<Rightarrow> file_ops \<times> u32w" where
  "device_file devfs_null_open access = (devfs_null_ops, access)"
| "device_file devfs_zero_open access = (devfs_zero_ops, access)"
| "device_file devfs_tty0_open access = (tty_console_file_ops, FILE_MODE_READ OR FILE_MODE_WRITE)"
| "device_file devfs_console_open access = (framebuffer_console_file_ops, FILE_MODE_WRITE)"
| "device_file devfs_fb0_open access = (framebuffer_device_file_ops, FILE_MODE_READ OR FILE_MODE_WRITE)"
| "device_file devfs_serial_open access = (serial_file_ops, FILE_MODE_WRITE)"
| "device_file ps2kb_device_open access = (ps2kb_file_ops, FILE_MODE_READ)"

definition device_open :: "ptr \<Rightarrow> char_device \<Rightarrow> char_open \<Rightarrow> 'a dev_sys_scheme \<Rightarrow> (errno + ptr) \<times> 'a dev_sys_scheme" where
  "device_open d cd opn s =
     (case device_file opn (cd_access_mode cd) of
        (ops, md) \<Rightarrow>
          (case file_create (Some ops) (Some d) md s of
             (None, s1) \<Rightarrow> (Inl ENOMEM, s1)
           | (Some f, s1) \<Rightarrow> (Inr f, s1)))"

text \<open>The mode asked for by the flags of \<^verbatim>\<open>open\<close>: the same switch in every file system.\<close>

definition requested_mode :: "u32w \<Rightarrow> u32w" where
  "requested_mode flags =
     (if flags AND 3 = 1 then FILE_MODE_WRITE else if flags AND 3 = 2 then FILE_MODE_READ OR FILE_MODE_WRITE else FILE_MODE_READ)"

definition skip_slashes :: "string \<Rightarrow> string" where
  "skip_slashes path = dropWhile (\<lambda>c. c = CHR ''/'') path"

definition devfs_lookup_device :: "string \<Rightarrow> 'a dev_sys_scheme \<Rightarrow> ptr option" where
  "devfs_lookup_device path s = map_option snd (devfs_find_by_name (skip_slashes path) s)"

definition devfs_open :: "string option \<Rightarrow> u32w \<Rightarrow> 'a dev_sys_scheme \<Rightarrow> (errno + ptr) \<times> 'a dev_sys_scheme" where
  "devfs_open path flags s =
     (case path of
        None \<Rightarrow> (Inl EINVAL, s)
      | Some pth \<Rightarrow>
          (case devfs_lookup_device pth s of
             None \<Rightarrow> (Inl ENOENT, s)
           | Some d \<Rightarrow>
               (case d_devices s d of
                  None \<Rightarrow> (Inl ENOENT, s)
                | Some cd \<Rightarrow>
                    if cd_access_mode cd AND requested_mode flags \<noteq> requested_mode flags then (Inl EACCES, s)
                    else case cd_open cd of
                      None \<Rightarrow> (Inl EINVAL, s)
                    | Some opn \<Rightarrow>
                        (case device_open d cd opn s of
                           (Inl e, s1) \<Rightarrow> (Inl e, s1)
                         | (Inr f, s1) \<Rightarrow>
                             (Inr f, s1\<lparr>fobjs := (fobjs s1)(f := map_option (\<lambda>ob. ob\<lparr>f_mode := cd_access_mode cd, f_private := Some d\<rparr>)
                                                            (fobjs s1 f))\<rparr>)))))"

definition devfs_mode_for_device :: "char_device \<Rightarrow> u32w" where
  "devfs_mode_for_device cd =
     S_IFCHR OR ((if cd_access_mode cd AND FILE_MODE_READ \<noteq> 0 then 0x124 else 0)
                 OR (if cd_access_mode cd AND FILE_MODE_WRITE \<noteq> 0 then 0x92 else 0))"

definition devfs_fill_info :: "nat \<Rightarrow> char_device \<Rightarrow> fs_path_info" where
  "devfs_fill_info now cd =
     (let t = timespec_of_us now in
      empty_info\<lparr>pi_block_size := 4096, pi_inode := cd_dev cd, pi_mode := Some (devfs_mode_for_device cd),
        pi_is_read_only := (cd_access_mode cd AND FILE_MODE_WRITE = 0), pi_rdev := Some (cd_dev cd), pi_times := Some (t, t, t)\<rparr>)"

definition devfs_stat :: "nat \<Rightarrow> string option \<Rightarrow> 'a dev_sys_scheme \<Rightarrow> fs_path_info option" where
  "devfs_stat now path s =
     (case path of
        None \<Rightarrow> None
      | Some pth \<Rightarrow>
          if pth = [] \<or> pth = ''/''
          then (let t = timespec_of_us now in
                Some (empty_info\<lparr>pi_is_directory := True, pi_mode := Some (S_IFDIR OR 0x16D), pi_is_read_only := True,
                        pi_block_size := 4096, pi_times := Some (t, t, t)\<rparr>))
          else case devfs_lookup_device pth s of
            None \<Rightarrow> None
          | Some d \<Rightarrow> map_option (devfs_fill_info now) (d_devices s d))"

definition devfs_file_stat :: "nat \<Rightarrow> ptr option \<Rightarrow> 'a dev_sys_scheme \<Rightarrow> errno + kstat" where
  "devfs_file_stat now priv s =
     (case priv of
        None \<Rightarrow> Inl EINVAL
      | Some d \<Rightarrow>
          (case d_devices s d of
             None \<Rightarrow> Inl EINVAL
           | Some cd \<Rightarrow> Inr (fs_path_info_to_stat (Some (devfs_fill_info now cd))\<lparr>st_rdev := cd_dev cd\<rparr>)))"

text \<open>Directory listings: the iterator of the caller gets the entries in turn until it declines.\<close>

fun iterate :: "(fs_dir_entry \<Rightarrow> 'c \<Rightarrow> bool \<times> 'c) \<Rightarrow> fs_dir_entry list \<Rightarrow> 'c \<Rightarrow> 'c" where
  "iterate iter [] c = c"
| "iterate iter (e # es) c = (case iter e c of (True, c') \<Rightarrow> iterate iter es c' | (False, c') \<Rightarrow> c')"

definition listable :: "string option \<Rightarrow> bool" where
  "listable path \<longleftrightarrow> path = None \<or> path = Some [] \<or> path = Some ''/''"

definition devfs_list ::
    "string option \<Rightarrow> (fs_dir_entry \<Rightarrow> 'c \<Rightarrow> bool \<times> 'c) \<Rightarrow> 'c \<Rightarrow> 'a dev_sys_scheme \<Rightarrow> bool \<times> 'c" where
  "devfs_list path iter c s =
     (if \<not> listable path then (False, c)
      else (True, iterate iter
              (map (\<lambda>cd. \<lparr>de_name = take 255 (case cd_name cd of Some n \<Rightarrow> n | None \<Rightarrow> []), de_is_directory = False, de_size = 0\<rparr>)
                 (List.map_filter (\<lambda>(e, d). d_devices s d) (d_entries s))) c))"

definition devfs_unlink :: "errno + nat" where
  "devfs_unlink = Inl ENOSYS"

section \<open>The built-in devices\<close>

definition builtin_devices :: "(ptr \<Rightarrow> char_device option) \<Rightarrow> ptr list \<Rightarrow> ptr \<Rightarrow> char_device option" where
  "builtin_devices devs at = devs(at ! 0 \<mapsto> \<lparr>cd_name = Some ''null'', cd_access_mode = FILE_MODE_WRITE, cd_open = Some devfs_null_open,
                                            cd_dev = MKDEV 1 3, cd_minor_count = 1\<rparr>,
                                at ! 1 \<mapsto> \<lparr>cd_name = Some ''zero'', cd_access_mode = FILE_MODE_READ, cd_open = Some devfs_zero_open,
                                            cd_dev = MKDEV 1 5, cd_minor_count = 1\<rparr>,
                                at ! 2 \<mapsto> \<lparr>cd_name = Some ''tty0'', cd_access_mode = FILE_MODE_READ OR FILE_MODE_WRITE,
                                            cd_open = Some devfs_tty0_open, cd_dev = MKDEV 4 0, cd_minor_count = 1\<rparr>,
                                at ! 3 \<mapsto> \<lparr>cd_name = Some ''fb0'', cd_access_mode = FILE_MODE_READ OR FILE_MODE_WRITE,
                                            cd_open = Some devfs_fb0_open, cd_dev = MKDEV 29 0, cd_minor_count = 1\<rparr>,
                                at ! 4 \<mapsto> \<lparr>cd_name = Some ''console'', cd_access_mode = FILE_MODE_WRITE, cd_open = Some devfs_console_open,
                                            cd_dev = MKDEV 5 1, cd_minor_count = 1\<rparr>,
                                at ! 5 \<mapsto> \<lparr>cd_name = Some ''ttyS0'', cd_access_mode = FILE_MODE_WRITE, cd_open = Some devfs_serial_open,
                                            cd_dev = MKDEV 4 64, cd_minor_count = 1\<rparr>)"

text \<open>The six static objects stand at the addresses \<open>at\<close>; a failure to register one is only reported.\<close>

definition char_device_system_initialize :: "ptr list \<Rightarrow> 'a dev_sys_scheme \<Rightarrow> 'a dev_sys_scheme" where
  "char_device_system_initialize at s =
     (let s1 = devfs_init_once s in
      if d_builtins s1 then s1
      else fold (\<lambda>d s. snd (char_device_register (Some d) s)) (take 6 at) (s1\<lparr>d_builtins := True\<rparr>))"

section \<open>The life of the registry\<close>

text \<open>
  Drivers fill in device objects that are not registered, and call the operations in any order. The registry starts
  with empty chains.
\<close>

definition regs :: "'a dev_sys_scheme \<Rightarrow> ptr set" where
  "regs s = snd ` set (d_entries s)"

inductive reg_reach :: "'a dev_sys_scheme \<Rightarrow> bool" where
  rr_start: "d_entries s = [] \<Longrightarrow> \<forall>k. mj_allocations (d_majors s k) = [] \<Longrightarrow> reg_reach s"
| rr_driver: "reg_reach s \<Longrightarrow> d \<notin> regs s \<Longrightarrow> reg_reach (s\<lparr>d_devices := (d_devices s)(d \<mapsto> cd)\<rparr>)"
| rr_register: "reg_reach s \<Longrightarrow> reg_reach (snd (char_device_register dv s))"
| rr_unregister: "reg_reach s \<Longrightarrow> reg_reach (char_device_unregister dv s)"
| rr_lookup: "reg_reach s \<Longrightarrow> reg_reach (snd (char_device_lookup dev s))"
| rr_iterate: "reg_reach s \<Longrightarrow> reg_reach (snd (char_device_iterate fn () s))"
| rr_reserve: "reg_reach s \<Longrightarrow> reg_reach (char_device_reserve_major k s)"
| rr_open: "reg_reach s \<Longrightarrow> reg_reach (snd (devfs_open path flags s))"

text \<open>At boot, with the object of \<^verbatim>\<open>/dev/null\<close> at address 1 and memory for two allocations.\<close>

definition boot_devs :: dev_sys where
  "boot_devs = \<lparr>fobjs = (\<lambda>_. None), tables = (\<lambda>_ _. (None, 0)), err_no = None,
     fmem = \<lparr>live = [], answers = [Some 100, Some 101]\<rparr>,
     d_devices = [1 \<mapsto> \<lparr>cd_name = Some ''null'', cd_access_mode = FILE_MODE_WRITE, cd_open = Some devfs_null_open,
                        cd_dev = MKDEV 1 3, cd_minor_count = 1\<rparr>],
     d_entries = [], d_ready = False, d_next_major = 10, d_majors = (\<lambda>_. \<lparr>mj_reserved = False, mj_allocations = []\<rparr>),
     d_builtins = False\<rparr>"

section \<open>The registry as a map from numbers to devices\<close>

definition dev_ok :: "char_device option \<Rightarrow> bool" where
  "dev_ok c = (case c of None \<Rightarrow> False | Some cd \<Rightarrow>
     cd_name cd \<noteq> None \<and> cd_open cd \<noteq> None \<and> 1 \<le> cd_minor_count cd \<and> MINOR (cd_dev cd) + cd_minor_count cd \<le> 2 ^ 20)"

definition alloc_triples :: "nat \<Rightarrow> 'a dev_sys_scheme \<Rightarrow> (ptr \<times> nat \<times> nat) list" where
  "alloc_triples k s = map (\<lambda>(a, al). (ma_device al, ma_start al, ma_count al)) (mj_allocations (d_majors s k))"

definition dev_triples :: "nat \<Rightarrow> 'a dev_sys_scheme \<Rightarrow> (ptr \<times> nat \<times> nat) set" where
  "dev_triples k s = {(d, MINOR (cd_dev cd), cd_minor_count cd) | d cd.
     d \<in> regs s \<and> d_devices s d = Some cd \<and> MAJOR (cd_dev cd) = k}"

definition reg_ok :: "'a dev_sys_scheme \<Rightarrow> bool" where
  "reg_ok s \<longleftrightarrow> (d_ready s \<or> d_entries s = []) \<and> distinct (map snd (d_entries s)) \<and> (\<forall>d \<in> regs s. dev_ok (d_devices s d)) \<and>
     (\<forall>d \<in> regs s. \<forall>d' \<in> regs s. \<forall>nm. has_name nm s d \<longrightarrow> has_name nm s d' \<longrightarrow> d = d') \<and>
     (\<forall>d \<in> regs s. \<forall>d' \<in> regs s. \<forall>dev. has_dev dev s d \<longrightarrow> has_dev dev s d' \<longrightarrow> d = d') \<and>
     (\<forall>k. distinct (map fst (alloc_triples k s)) \<and> set (alloc_triples k s) = dev_triples k s)"

lemma MAJOR_less: "MAJOR dev < CHAR_DEVICE_MAJOR_COUNT"
  by (simp add: MAJOR_def CHAR_DEVICE_MAJOR_COUNT_def DEV_MAJOR_MASK_def)

lemma MINOR_less: "MINOR dev < 2 ^ 20"
  by (simp add: MINOR_def)

lemma MAJOR_MKDEV [simp]: "k < CHAR_DEVICE_MAJOR_COUNT \<Longrightarrow> MAJOR (MKDEV k m) = k"
  by (simp add: MAJOR_def MKDEV_def CHAR_DEVICE_MAJOR_COUNT_def DEV_MAJOR_MASK_def)

lemma MINOR_MKDEV [simp]: "m < 2 ^ 20 \<Longrightarrow> MINOR (MKDEV k m) = m"
  by (simp add: MINOR_def MKDEV_def)

lemma has_dev_iff:
  assumes "dev_ok (Some cd)" "d_devices s d = Some cd"
  shows "has_dev dev s d \<longleftrightarrow> MAJOR dev = MAJOR (cd_dev cd) \<and> MINOR (cd_dev cd) \<le> MINOR dev \<and>
     MINOR dev < MINOR (cd_dev cd) + cd_minor_count cd"
  using assms by (auto simp: has_dev_def dev_ok_def u32_def)

lemma range_end_eq:
  assumes "1 \<le> cnt" "start + cnt \<le> 2 ^ 32"
  shows "range_end start cnt = start + cnt - 1"
proof -
  obtain n where n: "cnt = Suc n" using assms(1) by (cases cnt) auto
  have "start + Suc n + (2 ^ 32 - 1) = (start + n) + 2 ^ 32" by simp
  then have "range_end start cnt = ((start + n) + 2 ^ 32) mod 2 ^ 32" by (simp only: range_end_def u32_def n)
  also have "\<dots> = start + n" using assms(2) n by (simp only: mod_add_self2) simp
  finally show ?thesis using n by simp
qed

text \<open>The overlap test is exact: it finds a range exactly when some number of the new range has a device already.\<close>

lemma overlap_iff:
  assumes ok: "reg_ok s" and k: "k < CHAR_DEVICE_MAJOR_COUNT" and cnt: "1 \<le> cnt" "base + cnt \<le> 2 ^ 20"
  shows "char_major_has_overlap k base cnt s \<longleftrightarrow>
     (\<exists>dev. \<exists>d \<in> regs s. MAJOR dev = k \<and> base \<le> MINOR dev \<and> MINOR dev < base + cnt \<and> has_dev dev s d)"
proof -
  have devs: "dev_ok (d_devices s d)" if "d \<in> regs s" for d using ok that by (auto simp: reg_ok_def)
  have tri: "set (alloc_triples k s) = dev_triples k s" using ok unfolding reg_ok_def by blast
  have "char_major_has_overlap k base cnt s \<longleftrightarrow>
      (\<exists>(d, st, c) \<in> set (alloc_triples k s). \<not> (base + cnt - 1 < st \<or> base > range_end st c))"
    using k range_end_eq[of cnt base] cnt by (simp add: char_major_has_overlap_def ranges_meet_def alloc_triples_def list_ex_iff case_prod_unfold)
  also have "\<dots> \<longleftrightarrow> (\<exists>d \<in> regs s. \<exists>cd. d_devices s d = Some cd \<and> MAJOR (cd_dev cd) = k \<and>
      MINOR (cd_dev cd) \<le> base + cnt - 1 \<and> base \<le> MINOR (cd_dev cd) + cd_minor_count cd - 1)" (is "_ \<longleftrightarrow> (\<exists>d \<in> regs s. ?Q d)")
  proof -
    have re: "range_end (MINOR (cd_dev cd)) (cd_minor_count cd) = MINOR (cd_dev cd) + cd_minor_count cd - 1"
      if "d \<in> regs s" "d_devices s d = Some cd" for d cd
      using devs[OF that(1)] that(2) by (intro range_end_eq) (auto simp: dev_ok_def)
    have tr: "(\<exists>(d, st, c) \<in> dev_triples k s. P st c) \<longleftrightarrow> (\<exists>d \<in> regs s. \<exists>cd. d_devices s d = Some cd \<and> MAJOR (cd_dev cd) = k \<and>
        P (MINOR (cd_dev cd)) (cd_minor_count cd))" for P by (auto simp: dev_triples_def)
    show ?thesis unfolding tri tr by (intro bex_cong refl ex_cong1 conj_cong) (simp add: re not_less)
  qed
  also have "\<dots> \<longleftrightarrow> (\<exists>dev. \<exists>d \<in> regs s. MAJOR dev = k \<and> base \<le> MINOR dev \<and> MINOR dev < base + cnt \<and> has_dev dev s d)"
  proof (intro iffI)
    assume "\<exists>d \<in> regs s. ?Q d"
    then obtain d cd where d: "d \<in> regs s" "d_devices s d = Some cd" "MAJOR (cd_dev cd) = k"
      "MINOR (cd_dev cd) \<le> base + cnt - 1" "base \<le> MINOR (cd_dev cd) + cd_minor_count cd - 1" by blast
    have okd: "dev_ok (Some cd)" using devs[OF d(1)] d(2) by simp
    define m where "m = max base (MINOR (cd_dev cd))"
    have m: "m < 2 ^ 20" "base \<le> m" "m < base + cnt" "MINOR (cd_dev cd) \<le> m" "m < MINOR (cd_dev cd) + cd_minor_count cd"
      using d(4,5) cnt okd by (auto simp: m_def dev_ok_def)
    have "MAJOR (MKDEV k m) = k" "MINOR (MKDEV k m) = m" using k m(1) by simp_all
    moreover from this have "has_dev (MKDEV k m) s d" using has_dev_iff[OF okd d(2)] m d(3) by simp
    ultimately show "\<exists>dev. \<exists>d \<in> regs s. MAJOR dev = k \<and> base \<le> MINOR dev \<and> MINOR dev < base + cnt \<and> has_dev dev s d"
      using m d(1) by metis
  next
    assume "\<exists>dev. \<exists>d \<in> regs s. MAJOR dev = k \<and> base \<le> MINOR dev \<and> MINOR dev < base + cnt \<and> has_dev dev s d"
    then obtain dev d where d: "d \<in> regs s" "MAJOR dev = k" "base \<le> MINOR dev" "MINOR dev < base + cnt" "has_dev dev s d" by blast
    obtain cd where cd: "d_devices s d = Some cd" using d(5) by (auto simp: has_dev_def split: option.splits)
    have "dev_ok (Some cd)" using devs[OF d(1)] cd by simp
    then show "\<exists>d \<in> regs s. ?Q d" using d cd has_dev_iff[of cd s d dev] by fastforce
  qed
  finally show ?thesis .
qed

definition dev_map :: "'a dev_sys_scheme \<Rightarrow> nat \<Rightarrow> ptr option" where
  "dev_map s dev = map_option snd (devfs_find_by_dev dev s)"

lemma reg_okD:
  assumes "reg_ok s"
  shows "d \<in> regs s \<Longrightarrow> dev_ok (d_devices s d)"
    and "d \<in> regs s \<Longrightarrow> d' \<in> regs s \<Longrightarrow> has_name nm s d \<Longrightarrow> has_name nm s d' \<Longrightarrow> d = d'"
    and "d \<in> regs s \<Longrightarrow> d' \<in> regs s \<Longrightarrow> has_dev dev s d \<Longrightarrow> has_dev dev s d' \<Longrightarrow> d = d'"
    and "distinct (map fst (alloc_triples k s))" "set (alloc_triples k s) = dev_triples k s"
    and "d_ready s \<or> d_entries s = []" "distinct (map snd (d_entries s))"
  using assms unfolding reg_ok_def by (elim conjE, blast)+

lemma reg_okI:
  assumes "d_ready s \<or> d_entries s = []" "distinct (map snd (d_entries s))"
    and "\<And>d. d \<in> regs s \<Longrightarrow> dev_ok (d_devices s d)"
    and "\<And>d d' nm. d \<in> regs s \<Longrightarrow> d' \<in> regs s \<Longrightarrow> has_name nm s d \<Longrightarrow> has_name nm s d' \<Longrightarrow> d = d'"
    and "\<And>d d' dev. d \<in> regs s \<Longrightarrow> d' \<in> regs s \<Longrightarrow> has_dev dev s d \<Longrightarrow> has_dev dev s d' \<Longrightarrow> d = d'"
    and "\<And>k. distinct (map fst (alloc_triples k s))" "\<And>k. set (alloc_triples k s) = dev_triples k s"
  shows "reg_ok s"
  unfolding reg_ok_def by (intro conjI ballI allI impI) (fact assms | erule (3) assms(4,5) | erule assms(3))+

lemma find_pair_Some:
  assumes "\<forall>d \<in> snd ` set xs. \<forall>d' \<in> snd ` set xs. P d \<longrightarrow> P d' \<longrightarrow> d = d'"
  shows "map_option snd (find (\<lambda>(e, d). P d) xs) = Some d \<longleftrightarrow> d \<in> snd ` set xs \<and> P d"
proof (cases "find (\<lambda>(e, d). P d) xs")
  case None
  then have "\<forall>x \<in> set xs. \<not> P (snd x)" by (auto simp: find_None_iff)
  then show ?thesis using None by auto
next
  case (Some x)
  then have "x \<in> set xs" "P (snd x)" by (auto simp: find_Some_iff in_set_conv_nth)
  then show ?thesis using assms Some by auto
qed

lemma dev_map_Some: "reg_ok s \<Longrightarrow> dev_map s dev = Some d \<longleftrightarrow> d \<in> regs s \<and> has_dev dev s d"
  unfolding dev_map_def devfs_find_by_dev_def regs_def
  by (rule find_pair_Some) (use reg_okD(3) regs_def in blast)

lemma dev_map_None: "reg_ok s \<Longrightarrow> dev_map s dev = None \<longleftrightarrow> (\<forall>d \<in> regs s. \<not> has_dev dev s d)"
  using dev_map_Some[of s dev] by (metis not_None_eq)

lemma lookup_name_Some: "reg_ok s \<Longrightarrow> devfs_lookup_device pth s = Some d \<longleftrightarrow> d \<in> regs s \<and> has_name (skip_slashes pth) s d"
  unfolding devfs_lookup_device_def devfs_find_by_name_def regs_def
  by (rule find_pair_Some) (use reg_okD(2) regs_def in blast)

lemma find_by_name_None: "devfs_find_by_name nm s = None \<longleftrightarrow> (\<forall>d \<in> regs s. \<not> has_name nm s d)"
  by (auto simp: devfs_find_by_name_def find_None_iff regs_def)

text \<open>What the registry promises depends on the chains and on the registered devices only.\<close>

lemma registry_cong:
  assumes "d_entries s' = d_entries s" "\<forall>d \<in> regs s. d_devices s' d = d_devices s d"
    "\<And>k. mj_allocations (d_majors s' k) = mj_allocations (d_majors s k)"
  shows "regs s' = regs s" "d \<in> regs s \<Longrightarrow> has_dev dev s' d = has_dev dev s d"
    "d \<in> regs s \<Longrightarrow> has_name nm s' d = has_name nm s d" "alloc_triples k s' = alloc_triples k s" "dev_triples k s' = dev_triples k s"
proof -
  show r: "regs s' = regs s" by (simp add: regs_def assms(1))
  show "has_dev dev s' d = has_dev dev s d" if "d \<in> regs s" using that by (simp add: has_dev_def assms(2))
  show "has_name nm s' d = has_name nm s d" if "d \<in> regs s" using that by (simp add: has_name_def assms(2))
  show "alloc_triples k s' = alloc_triples k s" by (simp add: alloc_triples_def assms(3))
  show "dev_triples k s' = dev_triples k s" unfolding dev_triples_def r using assms(2) by (metis (no_types, lifting))
qed

lemma reg_ok_cong:
  assumes "reg_ok s" "d_entries s' = d_entries s" "\<forall>d \<in> regs s. d_devices s' d = d_devices s d"
    "\<And>k. mj_allocations (d_majors s' k) = mj_allocations (d_majors s k)" "d_ready s \<Longrightarrow> d_ready s'"
  shows "reg_ok s'" "dev_map s' = dev_map s"
proof -
  note c = registry_cong[OF assms(2-4)]
  have rd: "d_ready s' \<or> d_entries s' = []" using reg_okD(6)[OF assms(1)] assms(2,5) by auto
  show ok: "reg_ok s'"
  proof (rule reg_okI[OF rd], unfold c(1))
    show "distinct (map snd (d_entries s'))" using reg_okD(7)[OF assms(1)] assms(2) by simp
  next
    fix d assume d: "d \<in> regs s"
    show "dev_ok (d_devices s' d)" using reg_okD(1)[OF assms(1) d] assms(3) d by simp
  next
    fix d d' nm assume "d \<in> regs s" "d' \<in> regs s" "has_name nm s' d" "has_name nm s' d'"
    then show "d = d'" using reg_okD(2)[OF assms(1)] c(3) by blast
  next
    fix d d' dev assume "d \<in> regs s" "d' \<in> regs s" "has_dev dev s' d" "has_dev dev s' d'"
    then show "d = d'" using reg_okD(3)[OF assms(1)] c(2) by blast
  next
    fix k
    show "distinct (map fst (alloc_triples k s'))" using reg_okD(4)[OF assms(1)] c(4) by metis
    show "set (alloc_triples k s') = dev_triples k s'" using reg_okD(5)[OF assms(1)] c(4,5) by metis
  qed
  show "dev_map s' = dev_map s"
  proof (rule ext)
    fix dev
    have "dev_map s' dev = Some d \<longleftrightarrow> dev_map s dev = Some d" for d
      unfolding dev_map_Some[OF ok] dev_map_Some[OF assms(1)] c(1) using c(2) by blast
    then show "dev_map s' dev = dev_map s dev" by (metis not_None_eq)
  qed
qed

lemma devfs_init_once_ready: "reg_ok s \<Longrightarrow> d_ready (devfs_init_once s)"
  by (simp add: devfs_init_once_def)

lemma devfs_init_once_ok:
  assumes "reg_ok s"
  shows "reg_ok (devfs_init_once s)" "dev_map (devfs_init_once s) = dev_map s" "regs (devfs_init_once s) = regs s"
    "d_devices (devfs_init_once s) = d_devices s"
proof -
  have e: "d_entries (devfs_init_once s) = d_entries s" using reg_okD(6)[OF assms] by (auto simp: devfs_init_once_def)
  show d: "d_devices (devfs_init_once s) = d_devices s" by (simp add: devfs_init_once_def)
  have "mj_allocations (d_majors (devfs_init_once s) k) = mj_allocations (d_majors s k)" for k by (simp add: devfs_init_once_def)
  from reg_ok_cong[OF assms e _ this] show "reg_ok (devfs_init_once s)" "dev_map (devfs_init_once s) = dev_map s"
    using d by (auto simp: devfs_init_once_def)
  show "regs (devfs_init_once s) = regs s" by (simp add: regs_def e)
qed

text \<open>The numbers of a range.\<close>

definition dev_range :: "nat \<Rightarrow> nat \<Rightarrow> nat \<Rightarrow> bool" where
  "dev_range dev cnt x \<longleftrightarrow> MAJOR x = MAJOR dev \<and> MINOR dev \<le> MINOR x \<and> MINOR x < MINOR dev + cnt"

text \<open>Entering a device whose name and numbers are new.\<close>

lemma enter_device:
  assumes ok: "reg_ok s" and d: "d \<notin> regs s" "d_devices s d = Some cd" "cd_name cd = Some nm" "cd_open cd \<noteq> None"
    and nm: "\<forall>d \<in> regs s. \<not> has_name nm s d"
    and cnt: "1 \<le> cnt" "MINOR (cd_dev cd) + cnt \<le> 2 ^ 20"
    and free: "\<forall>x. dev_range (cd_dev cd) cnt x \<longrightarrow> dev_map s x = None"
    and s': "d_entries s' = (e, d) # d_entries s" "d_devices s' = (d_devices s)(d \<mapsto> cd\<lparr>cd_minor_count := cnt\<rparr>)"
      "\<And>k. mj_allocations (d_majors s' k) = (if k = MAJOR (cd_dev cd)
         then (a, \<lparr>ma_start = MINOR (cd_dev cd), ma_count = cnt, ma_device = d\<rparr>) # mj_allocations (d_majors s k)
         else mj_allocations (d_majors s k))" "d_ready s'"
  shows "reg_ok s'" "dev_map s' = (\<lambda>x. if dev_range (cd_dev cd) cnt x then Some d else dev_map s x)"
proof -
  have r: "regs s' = insert d (regs s)" by (simp add: regs_def s'(1))
  have old: "d_devices s' d' = d_devices s d'" "has_name n s' d' = has_name n s d'" "has_dev x s' d' = has_dev x s d'"
    if "d' \<in> regs s" for d' n x using that d(1) by (auto simp: s'(2) has_name_def has_dev_def)
  have new_name: "has_name n s' d \<longleftrightarrow> n = nm" for n by (auto simp: has_name_def s'(2) d(3))
  have okd: "dev_ok (Some (cd\<lparr>cd_minor_count := cnt\<rparr>))" using d(3,4) cnt by (simp add: dev_ok_def)
  have new_dev: "has_dev x s' d \<longleftrightarrow> dev_range (cd_dev cd) cnt x" for x
    using has_dev_iff[OF okd, of s' d x] by (simp add: s'(2) dev_range_def)
  have clash: "\<not> has_dev x s d'" if "d' \<in> regs s" "dev_range (cd_dev cd) cnt x" for x d'
    using free that dev_map_None[OF ok] by blast
  show ok': "reg_ok s'"
  proof (rule reg_okI, unfold r)
    show "distinct (map snd (d_entries s'))" using reg_okD(7)[OF ok] d(1) by (auto simp: s'(1) regs_def)
    fix x assume "x \<in> insert d (regs s)"
    then show "dev_ok (d_devices s' x)" using okd old(1) reg_okD(1)[OF ok] by (auto simp: s'(2))
  next
    fix x y n assume "x \<in> insert d (regs s)" "y \<in> insert d (regs s)" "has_name n s' x" "has_name n s' y"
    then show "x = y" using nm reg_okD(2)[OF ok] old(2) new_name by (metis insert_iff)
  next
    fix x y dev assume "x \<in> insert d (regs s)" "y \<in> insert d (regs s)" "has_dev dev s' x" "has_dev dev s' y"
    then show "x = y" using reg_okD(3)[OF ok] old(3) new_dev clash by (metis insert_iff)
  next
    fix k
    have al: "alloc_triples k s' = (if k = MAJOR (cd_dev cd) then (d, MINOR (cd_dev cd), cnt) # alloc_triples k s else alloc_triples k s)"
      by (simp add: alloc_triples_def s'(3))
    have tr: "dev_triples k s' = (if k = MAJOR (cd_dev cd) then insert (d, MINOR (cd_dev cd), cnt) (dev_triples k s) else dev_triples k s)"
      using d(1) by (auto simp: dev_triples_def r s'(2) split: if_splits)
    have "d \<notin> set (map fst (alloc_triples k s))" using reg_okD(5)[OF ok, of k] d(1) by (auto simp: dev_triples_def)
    then show "distinct (map fst (alloc_triples k s'))" using reg_okD(4)[OF ok, of k] by (auto simp: al)
    show "set (alloc_triples k s') = dev_triples k s'" using reg_okD(5)[OF ok, of k] by (auto simp: al tr)
  qed (use s'(4) in simp)
  show "dev_map s' = (\<lambda>x. if dev_range (cd_dev cd) cnt x then Some d else dev_map s x)"
  proof (rule ext)
    fix x
    have "dev_map s' x = Some y \<longleftrightarrow> (if dev_range (cd_dev cd) cnt x then Some d else dev_map s x) = Some y" for y
      unfolding dev_map_Some[OF ok'] r using dev_map_Some[OF ok, of x y] old(3) new_dev clash d(1) by auto
    then show "dev_map s' x = (if dev_range (cd_dev cd) cnt x then Some d else dev_map s x)" by (metis not_None_eq)
  qed
qed

lemma untouched_registry:
  assumes "reg_ok s" "d \<notin> regs s" "d_entries s' = d_entries s" "d_devices s' = (d_devices s)(d := x)"
    "\<And>k. mj_allocations (d_majors s' k) = mj_allocations (d_majors s k)" "d_ready s' = d_ready s"
  shows "reg_ok s'" "dev_map s' = dev_map s" "regs s' = regs s"
proof -
  have "\<forall>y \<in> regs s. d_devices s' y = d_devices s y" using assms(2,4) by auto
  from reg_ok_cong[OF assms(1,3) this assms(5)] show "reg_ok s'" "dev_map s' = dev_map s" using assms(6) by simp_all
  show "regs s' = regs s" by (simp add: regs_def assms(3))
qed

lemma untrack_head:
  assumes "d_devices s d = Some cd" "mj_allocations (d_majors s (MAJOR (cd_dev cd))) = (a, al) # xs" "ma_device al = d"
  shows "char_major_untrack_range d s = (set_allocations (MAJOR (cd_dev cd)) xs s)\<lparr>fmem := kfree_obj a (fmem s)\<rparr>"
  using assms MAJOR_less[of "cd_dev cd"] by (simp add: char_major_untrack_range_def extract_Cons_code Let_def)

lemma register_range_result:
  assumes ok: "reg_ok s" "d_ready s" and d: "d \<notin> regs s" "d_devices s d = Some cd" "cd_name cd = Some nm" "cd_open cd \<noteq> None"
    and nm: "\<forall>d \<in> regs s. \<not> has_name nm s d" and cnt: "1 \<le> cnt" "cnt \<le> 2 ^ 20"
    and eq: "register_range d (cd_dev cd) cnt orig s = (r, s')"
  shows "case r of
      Inr _ \<Rightarrow> reg_ok s' \<and> (\<forall>x. dev_range (cd_dev cd) cnt x \<longrightarrow> dev_map s x = None) \<and>
        dev_map s' = (\<lambda>x. if dev_range (cd_dev cd) cnt x then Some d else dev_map s x) \<and>
        d_devices s' d = Some (cd\<lparr>cd_minor_count := cnt\<rparr>) \<and> regs s' = insert d (regs s)
    | Inl _ \<Rightarrow> reg_ok s' \<and> dev_map s' = dev_map s \<and> regs s' = regs s"
proof (cases "range_end (MINOR (cd_dev cd)) cnt > DEV_MINOR_MASK \<or> char_major_has_overlap (MAJOR (cd_dev cd)) (MINOR (cd_dev cd)) cnt s")
  case True
  then have "\<exists>e. r = Inl e" "s' = upd_device d (\<lambda>cd. cd\<lparr>cd_dev := orig\<rparr>) s"
    using eq by (auto simp: register_range_def Let_def split: if_splits)
  moreover from this(2) have "reg_ok s'" "dev_map s' = dev_map s" "regs s' = regs s"
    using untouched_registry[OF ok(1) d(1), of s'] by (simp_all add: upd_device_def)
  ultimately show ?thesis by auto
next
  case False
  let ?k = "MAJOR (cd_dev cd)" and ?b = "MINOR (cd_dev cd)"
  have fit: "?b + cnt \<le> 2 ^ 20"
    using False range_end_eq[OF cnt(1), of ?b] MINOR_less[of "cd_dev cd"] cnt by (auto simp: DEV_MINOR_MASK_def)
  have free: "\<forall>x. dev_range (cd_dev cd) cnt x \<longrightarrow> dev_map s x = None"
    using False overlap_iff[OF ok(1) MAJOR_less cnt(1) fit] by (auto simp: dev_range_def dev_map_None[OF ok(1)])
  let ?al = "\<lparr>ma_start = ?b, ma_count = cnt, ma_device = d\<rparr>"
  obtain m am where km: "kmalloc_obj (fmem s) = (am, m)" by force
  show ?thesis
  proof (cases am)
    case None
    then have "r = Inl ENOMEM" "s' = upd_device d (\<lambda>cd. cd\<lparr>cd_dev := orig\<rparr>) (s\<lparr>fmem := m\<rparr>)"
      using eq False km MAJOR_less[of "cd_dev cd"] by (auto simp: register_range_def char_major_track_range_def Let_def)
    moreover from this(2) have "reg_ok s'" "dev_map s' = dev_map s" "regs s' = regs s"
      using untouched_registry[OF ok(1) d(1), of s'] by (simp_all add: upd_device_def)
    ultimately show ?thesis by auto
  next
    case (Some a)
    define s1 where "s1 = set_allocations ?k ((a, ?al) # mj_allocations (d_majors s ?k)) (s\<lparr>fmem := m\<rparr>)"
    have track: "char_major_track_range d ?k ?b cnt s = (Inr 0, s1)"
      using False km Some MAJOR_less[of "cd_dev cd"] by (simp add: char_major_track_range_def s1_def)
    obtain m2 am2 where km2: "kmalloc_obj m = (am2, m2)" by force
    show ?thesis
    proof (cases am2)
      case None
      have "char_major_untrack_range d (s1\<lparr>fmem := m2\<rparr>) = (set_allocations ?k (mj_allocations (d_majors s ?k)) (s1\<lparr>fmem := kfree_obj a m2\<rparr>))"
        using untrack_head[of "s1\<lparr>fmem := m2\<rparr>" d cd a ?al] d(2) by (simp add: s1_def set_allocations_def)
      then have "r = Inl ENOMEM"
        "s' = upd_device d (\<lambda>cd. cd\<lparr>cd_dev := orig\<rparr>) (set_allocations ?k (mj_allocations (d_majors s ?k)) (s1\<lparr>fmem := kfree_obj a m2\<rparr>))"
        using eq False track km2 None by (auto simp: register_range_def devfs_register_entry_def s1_def set_allocations_def Let_def)
      moreover from this(2) have "reg_ok s'" "dev_map s' = dev_map s" "regs s' = regs s"
        using untouched_registry[OF ok(1) d(1), of s'] by (simp_all add: upd_device_def s1_def set_allocations_def)
      ultimately show ?thesis by auto
    next
      case (Some e)
      have r: "r = Inr 0" and s': "d_entries s' = (e, d) # d_entries s" "d_devices s' = (d_devices s)(d \<mapsto> cd\<lparr>cd_minor_count := cnt\<rparr>)"
        "d_ready s'" "d_majors s' = d_majors s1"
        using eq False track km2 Some d(2) ok(2)
        by (auto simp: register_range_def devfs_register_entry_def s1_def set_allocations_def upd_device_def Let_def split: if_splits)
      have "mj_allocations (d_majors s' k) = (if k = ?k then (a, ?al) # mj_allocations (d_majors s k) else mj_allocations (d_majors s k))" for k
        by (simp add: s'(4) s1_def set_allocations_def)
      note en = enter_device[OF ok(1) d nm cnt(1) fit free s'(1,2) this s'(3)]
      then show ?thesis using r free s'(1,2) by (simp add: regs_def)
    qed
  qed
qed

lemma scan_majors_Some: "scan_majors k s = Some j \<Longrightarrow> k \<le> j \<and> char_major_is_unused j s"
proof (induction k s rule: scan_majors.induct)
  case (1 k s)
  show ?case
  proof (cases "k < CHAR_DEVICE_MAJOR_COUNT \<and> \<not> char_major_is_unused k s")
    case True
    then show ?thesis using 1 by (auto simp: scan_majors.simps[of k])
  next
    case False
    then show ?thesis using 1(2) by (auto simp: scan_majors.simps[of k] split: if_splits)
  qed
qed

lemma scan_majors_None: "scan_majors k s = None \<longleftrightarrow> (\<forall>j \<ge> k. \<not> char_major_is_unused j s)"
proof (induction k s rule: scan_majors.induct)
  case (1 k s)
  have big: "\<not> char_major_is_unused j s" if "\<not> j < CHAR_DEVICE_MAJOR_COUNT" for j using that by (simp add: char_major_is_unused_def)
  show ?case
  proof (cases "k < CHAR_DEVICE_MAJOR_COUNT \<and> \<not> char_major_is_unused k s")
    case True
    then have "scan_majors k s = None \<longleftrightarrow> (\<forall>j \<ge> Suc k. \<not> char_major_is_unused j s)"
      using 1 by (simp add: scan_majors.simps[of k])
    also have "\<dots> \<longleftrightarrow> (\<forall>j \<ge> k. \<not> char_major_is_unused j s)" using True by (metis Suc_leD not_less_eq_eq order_antisym)
    finally show ?thesis .
  next
    case False
    then show ?thesis using big by (auto simp: scan_majors.simps[of k] split: if_splits)
  qed
qed

text \<open>A dynamic number belongs to a free major, and there is one unless every major from 10 up is taken.\<close>

lemma allocate_dynamic_dev_result:
  assumes "1 \<le> cnt" "cnt \<le> 2 ^ 20" "allocate_dynamic_dev cnt s = (dev, s1)"
  shows "dev = 0 \<Longrightarrow> s1 = s \<and> (\<forall>k \<ge> 10. \<not> char_major_is_unused k s)"
    and "dev \<noteq> 0 \<Longrightarrow> \<exists>k \<ge> 10. char_major_is_unused k s \<and> dev = MKDEV k 0 \<and> s1 = s\<lparr>d_next_major := k + 1\<rparr>"
proof -
  have nz: "MKDEV k 0 \<noteq> 0" if "10 \<le> k" "char_major_is_unused k s" for k
    using that by (simp add: MKDEV_def char_major_is_unused_def CHAR_DEVICE_MAJOR_COUNT_def DEV_MAJOR_MASK_def)
  define f where "f = (case scan_majors (max (d_next_major s) 10) s of None \<Rightarrow> scan_majors 10 s | Some k \<Rightarrow> Some k)"
  have res: "allocate_dynamic_dev cnt s = (case f of None \<Rightarrow> (0, s) | Some k \<Rightarrow> (MKDEV k 0, s\<lparr>d_next_major := k + 1\<rparr>))"
    using assms(1,2) by (simp add: allocate_dynamic_dev_def DEV_MINOR_MASK_def CHAR_DEVICE_DYNAMIC_MAJOR_MIN_def f_def split: option.splits)
  have some: "10 \<le> k \<and> char_major_is_unused k s" if "f = Some k" for k
    using that scan_majors_Some[of "max (d_next_major s) 10" s k] scan_majors_Some[of 10 s k] by (auto simp: f_def split: option.splits)
  have none: "\<forall>k \<ge> 10. \<not> char_major_is_unused k s" if "f = None"
    using that unfolding f_def scan_majors_None[symmetric] by (auto split: option.splits)
  show "s1 = s \<and> (\<forall>k \<ge> 10. \<not> char_major_is_unused k s)" if "dev = 0"
  proof (cases f)
    case None
    then show ?thesis using assms(3) res none by simp
  next
    case (Some k)
    then show ?thesis using that assms(3) res nz some[OF Some] by simp
  qed
  show "\<exists>k \<ge> 10. char_major_is_unused k s \<and> dev = MKDEV k 0 \<and> s1 = s\<lparr>d_next_major := k + 1\<rparr>" if "dev \<noteq> 0"
  proof (cases f)
    case None
    then show ?thesis using that assms(3) res by simp
  next
    case (Some k)
    then show ?thesis using assms(3) res some[OF Some] by auto
  qed
qed

definition registered :: "ptr \<Rightarrow> 'a dev_sys_scheme \<Rightarrow> (errno + nat) \<times> 'b dev_sys_scheme \<Rightarrow> bool" where
  "registered d s res = (case res of
      (Inr _, s') \<Rightarrow> \<exists>cd. d_devices s' d = Some cd \<and> 1 \<le> cd_minor_count cd \<and>
        (\<forall>x. dev_range (cd_dev cd) (cd_minor_count cd) x \<longrightarrow> dev_map s x = None) \<and>
        dev_map s' = (\<lambda>x. if dev_range (cd_dev cd) (cd_minor_count cd) x then Some d else dev_map s x)
    | (Inl _, s') \<Rightarrow> dev_map s' = dev_map s)"

text \<open>Registering either stops at a check, or goes on with a number of the driver's or of its own choice.\<close>

lemma char_device_register_cases:
  assumes "reg_ok s0" and eq: "char_device_register (Some d) s0 = (r, s')"
  obtains (bad) "\<exists>e. r = Inl e" "s' = s0 \<or> s' = (devfs_init_once s0)"
    | (go) cd nm cnt where "d_devices (devfs_init_once s0) d = Some cd" "cd_name cd = Some nm" "cd_open cd \<noteq> None" "1 \<le> cnt" "cnt \<le> 2 ^ 20"
        "devfs_find_by_name nm (devfs_init_once s0) = None"
        "(if cd_dev cd = 0 then (case allocate_dynamic_dev cnt (devfs_init_once s0) of (dev, s1) \<Rightarrow>
            if dev = 0 then (Inl ENOSPC, s1) else register_range d dev cnt 0 (upd_device d (\<lambda>cd. cd\<lparr>cd_dev := dev\<rparr>) s1))
          else register_range d (cd_dev cd) cnt (cd_dev cd) (devfs_init_once s0)) = (r, s')"
proof (cases "d_devices s0 d")
  case None
  then show thesis using eq bad by (auto simp: char_device_register_def)
next
  case (Some cd)
  define cnt where "cnt = (if cd_minor_count cd = 0 then 1 else cd_minor_count cd)"
  have "1 \<le> cnt" by (simp add: cnt_def)
  show thesis
  proof (cases "cd_name cd = None \<or> cd_open cd = None \<or> cd_access_mode cd = 0 \<or> devfs_find_by_name (the (cd_name cd)) (devfs_init_once s0) \<noteq> None \<or> cnt > DEV_MINOR_MASK + 1")
    case True
    then show thesis using eq Some bad by (auto simp: char_device_register_def Let_def cnt_def split: option.splits if_splits)
  next
    case False
    then obtain nm where nm: "cd_name cd = Some nm" by auto
    have g: "cd_open cd \<noteq> None" "cd_access_mode cd \<noteq> 0" "devfs_find_by_name nm (devfs_init_once s0) = None" "cnt \<le> DEV_MINOR_MASK + 1"
        using False nm by (simp_all add: not_less del: not_None_eq)
      show thesis
      proof (rule go[of cd nm cnt])
        show "d_devices (devfs_init_once s0) d = Some cd" using Some devfs_init_once_ok(4)[OF assms(1)] by simp
        show "cnt \<le> 2 ^ 20" using g(4) by (simp add: DEV_MINOR_MASK_def)
        have "\<not> cnt > DEV_MINOR_MASK + 1" using g(4) by simp
        from eq this show "(if cd_dev cd = 0 then (case allocate_dynamic_dev cnt (devfs_init_once s0) of (dev, s1) \<Rightarrow>
            if dev = 0 then (Inl ENOSPC, s1) else register_range d dev cnt 0 (upd_device d (\<lambda>cd. cd\<lparr>cd_dev := dev\<rparr>) s1))
          else register_range d (cd_dev cd) cnt (cd_dev cd) (devfs_init_once s0)) = (r, s')"
          using Some nm g(1-3) unfolding char_device_register_def Let_def cnt_def by simp
      qed (use nm g \<open>1 \<le> cnt\<close> in auto)
    qed
qed

lemma char_device_register_result:
  assumes ok0: "reg_ok s0" and eq: "char_device_register (Some d) s0 = (r, s')"
  shows "reg_ok s' \<and> registered d s0 (r, s')"
proof -
  let ?s = "devfs_init_once s0"
  note i = devfs_init_once_ok[OF ok0]
  have rdy: "d_ready ?s" by (rule devfs_init_once_ready[OF ok0])
  from ok0 eq show ?thesis
  proof (cases rule: char_device_register_cases)
    case bad
    then show ?thesis using ok0 i by (auto simp: registered_def)
  next
    case (go cd nm cnt)
    have fresh: "\<forall>x \<in> regs ?s. \<not> has_name nm ?s x" using go(6) by (simp add: find_by_name_None)
    then have nreg: "d \<notin> regs ?s" using go(1,2) by (auto simp: has_name_def)
    have fin: "reg_ok s' \<and> registered d s0 (r, s')"
      if "reg_ok t" "d_ready t" "dev_map t = dev_map s0" "d \<notin> regs t" "d_devices t d = Some c" "cd_name c = Some nm" "cd_open c \<noteq> None"
        "\<forall>x \<in> regs t. \<not> has_name nm t x" "register_range d (cd_dev c) cnt orig t = (r, s')" for t c orig
      using register_range_result[OF that(1,2,4-8) go(4,5) that(9)] that(3) go(4) by (cases r) (simp_all add: registered_def cong: if_cong)
    show ?thesis
    proof (cases "cd_dev cd = 0")
      case False
      then show ?thesis using fin[OF i(1) rdy i(2) nreg go(1-3) fresh] go(7) by simp
    next
      case True
      obtain dev s1 where al: "allocate_dynamic_dev cnt ?s = (dev, s1)" by force
      note ar = allocate_dynamic_dev_result[OF go(4,5) al]
      show ?thesis
      proof (cases "dev = 0")
        case True
        then show ?thesis using go(7) \<open>cd_dev cd = 0\<close> al ar(1)[OF True] i(1,2) by (auto simp: registered_def)
      next
        case False
        then obtain k where s1: "s1 = ?s\<lparr>d_next_major := k + 1\<rparr>" using ar(2) by blast
        let ?t = "upd_device d (\<lambda>cd. cd\<lparr>cd_dev := dev\<rparr>) s1" and ?c = "cd\<lparr>cd_dev := dev\<rparr>"
        have t: "reg_ok ?t" "dev_map ?t = dev_map ?s" "regs ?t = regs ?s"
          using untouched_registry[OF i(1) nreg, of ?t "Some ?c"] go(1) by (simp_all add: upd_device_def s1)
        have "\<forall>x \<in> regs ?t. \<not> has_name nm ?t x" using fresh nreg unfolding t(3) by (auto simp: has_name_def upd_device_def s1)
        moreover have "d_devices ?t d = Some ?c" "d_ready ?t" using go(1) rdy by (simp_all add: upd_device_def s1)
        moreover have "register_range d (cd_dev ?c) cnt 0 ?t = (r, s')" using go(7) \<open>cd_dev cd = 0\<close> al False by simp
        ultimately show ?thesis using fin[OF t(1), of ?c 0] t(2,3) i(2) nreg go(2,3) by simp
      qed
    qed
  qed
qed

lemma distinct_key_split:
  assumes "distinct (map fst (u @ x # v))"
  shows "distinct (map fst (u @ v))" "set (u @ v) = {y \<in> set (u @ x # v). fst y \<noteq> fst x}"
  using assms by (auto simp: rev_image_eqI)

text \<open>Taking a registered device out of both chains.\<close>

lemma leave_device:
  assumes ok: "reg_ok s" and d: "d_devices s d = Some cd"
    and e: "d_entries s = ys @ (e, d) # zs" "d_entries s' = ys @ zs"
    and al: "mj_allocations (d_majors s (MAJOR (cd_dev cd))) = as @ (a, al) # bs" "ma_device al = d"
      "\<And>k. mj_allocations (d_majors s' k) = (if k = MAJOR (cd_dev cd) then as @ bs else mj_allocations (d_majors s k))"
    and s': "d_devices s' = d_devices s" "d_ready s' = d_ready s"
  shows "reg_ok s'" "dev_map s' = (\<lambda>x. if dev_map s x = Some d then None else dev_map s x)"
proof -
  have dist: "d \<notin> snd ` set ys" "d \<notin> snd ` set zs" using reg_okD(7)[OF ok] e(1) by auto
  have r: "regs s' = regs s - {d}" using dist by (auto simp: regs_def e)
  have same: "has_name n s' = has_name n s" "has_dev x s' = has_dev x s" for n x
    by (simp_all add: fun_eq_iff has_name_def has_dev_def s'(1))
  show ok': "reg_ok s'"
  proof (rule reg_okI, unfold r same s'(1))
    show "d_ready s' \<or> d_entries s' = []" using reg_okD(6)[OF ok] e s'(2) by auto
    show "distinct (map snd (d_entries s'))" using reg_okD(7)[OF ok] by (auto simp: e)
  next
    fix k
    let ?f = "\<lambda>(a, al). (ma_device al, ma_start al, ma_count al)"
    have tr: "dev_triples k s' = {t \<in> dev_triples k s. fst t \<noteq> d}" by (auto simp: dev_triples_def r s'(1))
    note t = reg_okD(4,5)[OF ok, of k]
    have "distinct (map fst (alloc_triples k s')) \<and> set (alloc_triples k s') = dev_triples k s'"
    proof (cases "k = MAJOR (cd_dev cd)")
      case True
      have split: "alloc_triples k s = map ?f as @ ?f (a, al) # map ?f bs" "alloc_triples k s' = map ?f as @ map ?f bs"
        using True al by (simp_all add: alloc_triples_def)
      have "fst (?f (a, al)) = d" using al(2) by simp
      with distinct_key_split[OF t(1)[unfolded split(1)]] show ?thesis unfolding tr t(2)[symmetric] split by metis
    next
      case False
      then have "\<forall>x \<in> dev_triples k s. fst x \<noteq> d" using d by (auto simp: dev_triples_def)
      moreover have "alloc_triples k s' = alloc_triples k s" using False al by (simp add: alloc_triples_def)
      ultimately show ?thesis using tr t by auto
    qed
    then show "distinct (map fst (alloc_triples k s'))" "set (alloc_triples k s') = dev_triples k s'" by simp_all
  qed (use reg_okD(1-3)[OF ok] in blast)+
  show "dev_map s' = (\<lambda>x. if dev_map s x = Some d then None else dev_map s x)"
  proof (rule ext)
    fix x
    have "dev_map s' x = Some y \<longleftrightarrow> (if dev_map s x = Some d then None else dev_map s x) = Some y" for y
      unfolding dev_map_Some[OF ok'] r same using dev_map_Some[OF ok, of x] reg_okD(3)[OF ok] by auto
    then show "dev_map s' x = (if dev_map s x = Some d then None else dev_map s x)" by (metis not_None_eq)
  qed
qed

lemma char_device_unregister_result:
  assumes "reg_ok s0"
  shows "reg_ok (char_device_unregister (Some d) s0) \<and>
     dev_map (char_device_unregister (Some d) s0) = (\<lambda>x. if dev_map s0 x = Some d then None else dev_map s0 x)"
proof -
  let ?s = "devfs_init_once s0" and ?s' = "char_device_unregister (Some d) s0"
  note i = devfs_init_once_ok[OF assms]
  show ?thesis
  proof (cases "d \<in> regs ?s")
    case False
    have e: "devfs_unregister_entry d ?s = ?s"
    proof -
      have "List.extract (\<lambda>(e, d'). d' = d) (d_entries ?s) = None" using False by (force simp: regs_def extract_None_iff)
      then show ?thesis by (simp add: devfs_unregister_entry_def)
    qed
    have u: "char_major_untrack_range d ?s = ?s"
    proof (cases "d_devices ?s d")
      case (Some cd)
      have "d \<notin> fst ` set (alloc_triples (MAJOR (cd_dev cd)) ?s)"
        unfolding reg_okD(5)[OF i(1)] using False by (auto simp: dev_triples_def)
      then have "List.extract (\<lambda>(a, al). ma_device al = d) (mj_allocations (d_majors ?s (MAJOR (cd_dev cd)))) = None"
        by (force simp: extract_None_iff alloc_triples_def)
      then show ?thesis using Some by (simp add: char_major_untrack_range_def Let_def)
    qed (simp add: char_major_untrack_range_def)
    have "dev_map s0 x \<noteq> Some d" for x using False i dev_map_Some[OF assms, of x d] by simp
    then show ?thesis using i e u by (simp add: char_device_unregister_def)
  next
    case True
    then obtain cd where cd: "d_devices ?s d = Some cd" using reg_okD(1)[OF i(1) True] by (auto simp: dev_ok_def split: option.splits)
    have "List.extract (\<lambda>(e, d'). d' = d) (d_entries ?s) \<noteq> None" using True by (auto simp: regs_def extract_None_iff)
    then obtain ys e d' zs where ex: "List.extract (\<lambda>(e, d'). d' = d) (d_entries ?s) = Some (ys, (e, d'), zs)" by auto
    then have ent: "d_entries ?s = ys @ (e, d) # zs" "d' = d" by (auto simp: extract_Some_iff)
    have "(d, MINOR (cd_dev cd), cd_minor_count cd) \<in> set (alloc_triples (MAJOR (cd_dev cd)) ?s)"
      unfolding reg_okD(5)[OF i(1)] using True cd by (auto simp: dev_triples_def)
    then have "List.extract (\<lambda>(a, al). ma_device al = d) (mj_allocations (d_majors ?s (MAJOR (cd_dev cd)))) \<noteq> None"
      by (auto simp: extract_None_iff alloc_triples_def)
    then obtain as a al bs where ax: "List.extract (\<lambda>(a, al). ma_device al = d) (mj_allocations (d_majors ?s (MAJOR (cd_dev cd)))) = Some (as, (a, al), bs)"
      by auto
    then have all: "mj_allocations (d_majors ?s (MAJOR (cd_dev cd))) = as @ (a, al) # bs" "ma_device al = d" by (auto simp: extract_Some_iff)
    have s': "d_entries ?s' = ys @ zs" "d_devices ?s' = d_devices ?s" "d_ready ?s' = d_ready ?s"
      "\<And>k. mj_allocations (d_majors ?s' k) = (if k = MAJOR (cd_dev cd) then as @ bs else mj_allocations (d_majors ?s k))"
      using ex ent(2) ax cd MAJOR_less[of "cd_dev cd"]
      by (simp_all add: char_device_unregister_def devfs_unregister_entry_def char_major_untrack_range_def set_allocations_def Let_def)
    from leave_device[OF i(1) cd ent(1) s'(1) all s'(4,2,3)] show ?thesis unfolding i(2) by blast
  qed
qed

lemma devfs_open_registry [simp]:
  "d_entries (snd (devfs_open path flags s)) = d_entries s" "d_devices (snd (devfs_open path flags s)) = d_devices s"
  "d_majors (snd (devfs_open path flags s)) = d_majors s" "d_ready (snd (devfs_open path flags s)) = d_ready s"
  by (auto simp: devfs_open_def device_open_def file_create_def set_err_def split: option.splits prod.splits sum.splits)

lemma reg_reach_ok: "reg_reach s \<Longrightarrow> reg_ok s"
proof (induction s rule: reg_reach.induct)
  case (rr_start s)
  then show ?case by (intro reg_okI) (simp_all add: regs_def alloc_triples_def dev_triples_def)
next
  case (rr_driver s d cd)
  then show ?case using untouched_registry(1)[OF rr_driver.IH rr_driver.hyps(2), of "s\<lparr>d_devices := (d_devices s)(d \<mapsto> cd)\<rparr>"] by simp
next
  case (rr_register s dv)
  then show ?case using char_device_register_result[of s "the dv"]
    by (cases dv) (simp add: char_device_register_def, metis option.sel prod.collapse)
next
  case (rr_unregister s dv)
  then show ?case using char_device_unregister_result[of s "the dv"] by (cases dv) (simp_all add: char_device_unregister_def)
next
  case (rr_lookup s dev)
  then show ?case using devfs_init_once_ok(1) by (simp add: char_device_lookup_def Let_def)
next
  case (rr_iterate s fn)
  then show ?case using devfs_init_once_ok(1) by (cases fn) (simp_all add: char_device_iterate_def Let_def)
next
  case (rr_reserve s k)
  then show ?case using reg_ok_cong(1)[OF devfs_init_once_ok(1)[OF rr_reserve.IH], of "char_device_reserve_major k s"]
    by (simp add: char_device_reserve_major_def Let_def)
next
  case (rr_open s path flags)
  then show ?case using reg_ok_cong(1)[OF rr_open.IH, of "snd (devfs_open path flags s)"] by simp
qed

section \<open>Properties\<close>

text \<open>
  C35. The registry of character devices implements a partial map from device numbers to devices, after any sequence of
  registrations, removals, reservations, lookups and opens: \<^verbatim>\<open>char_device_lookup\<close> reads the map; a successful
  \<^verbatim>\<open>char_device_register\<close> adds exactly the range of the device, all of whose numbers were free, and a failing one
  changes nothing; \<^verbatim>\<open>char_device_unregister\<close> removes exactly the numbers of the device.
\<close>

theorem char_device_registry_refines_map:
  assumes "reg_reach s"
  shows "fst (char_device_lookup dev s) = dev_map s dev \<and>
    registered d s (char_device_register (Some d) s) \<and>
    dev_map (char_device_unregister (Some d) s) = (\<lambda>x. if dev_map s x = Some d then None else dev_map s x)"
proof (intro conjI)
  note ok = reg_reach_ok[OF assms]
  show "fst (char_device_lookup dev s) = dev_map s dev"
    using devfs_init_once_ok(2)[OF ok] by (simp add: char_device_lookup_def Let_def dev_map_def fun_eq_iff)
  show "registered d s (char_device_register (Some d) s)"
    using char_device_register_result[OF ok, of d "fst (char_device_register (Some d) s)"] by (metis prod.collapse)
qed (use char_device_unregister_result[OF reg_reach_ok[OF assms]] in blast)

lemma char_device_registry_refines_map_witness:
  "reg_reach boot_devs \<and> fst (char_device_register (Some 1) boot_devs) = Inr 0 \<and>
   registered 1 boot_devs (char_device_register (Some 1) boot_devs)"
proof -
  have r: "reg_reach boot_devs" by (rule rr_start) (simp_all add: boot_devs_def)
  have "fst (char_device_register (Some 1) boot_devs) = Inr 0"
    by (simp add: char_device_register_def boot_devs_def devfs_init_once_def devfs_find_by_name_def register_range_def
        char_major_has_overlap_def char_major_track_range_def devfs_register_entry_def set_allocations_def kmalloc_obj_def
        MKDEV_def MAJOR_def MINOR_def range_end_def u32_def DEV_MINOR_MASK_def DEV_MAJOR_MASK_def CHAR_DEVICE_MAJOR_COUNT_def
        FILE_MODE_WRITE_def Let_def)
  with r char_device_registry_refines_map[OF r, of 0 1] show ?thesis by blast
qed

end
