(* ===== verification/Tmpfs.thy ===== *)
theory Tmpfs
  imports Devfs "HOL-Library.Multiset"
begin

text \<open>
  The memory file system: \<^verbatim>\<open>src/kernel/fs/tmpfs/tmpfs.c\<close>, mounted on \<^verbatim>\<open>/tmp\<close>.

  A mounted file system is a flat list of nodes, \<open>t_list\<close> (the chain from \<^verbatim>\<open>ctx->head\<close>); the nodes and the
  states of open files are objects of the heap. A node's buffer is the function \<open>n_data\<close>, meaningful below
  \<open>n_capacity\<close>; \<open>t_junk a\<close> is what the memory of a fresh object \<open>a\<close> holds, since \<^verbatim>\<open>krealloc\<close> does not clear
  it. The clock is read once per operation (\<open>now\<close>), or twice where the code reads it twice. Operations run under
  \<^verbatim>\<open>ctx->lock\<close>; the few steps of \<^verbatim>\<open>tmpfs_open\<close> outside it are taken with the rest. Pointers for results, and the
  buffers and contexts of the operations by path, are not \<^verbatim>\<open>NULL\<close>. A pointer to no live object is treated as \<^verbatim>\<open>NULL\<close>; the invariant shows that the code never follows one.
  A result \<open>None\<close> of an operation that stores data stands for a loop that does not end.
\<close>

unbundle bit_operations_syntax

definition O_CREAT :: u32w where "O_CREAT = 0x100"
definition O_TRUNC :: u32w where "O_TRUNC = 0x200"
definition O_APPEND :: u32w where "O_APPEND = 0x400"
definition O_EXCL :: u32w where "O_EXCL = 0x800"

record tmpfs_node =
  n_name :: string
  n_dptr :: "ptr option"
  n_data :: "nat \<Rightarrow> byte"
  n_size :: nat
  n_capacity :: nat
  n_deleted :: bool
  n_refcount :: nat
  n_mode :: u32w
  n_atime :: timespec
  n_mtime :: timespec
  n_ctime :: timespec
  n_is_char :: bool
  n_rdev :: nat
  n_char :: "ptr option"

record tmpfs_file_state =
  ts_node :: ptr
  ts_offset :: nat
  ts_flags :: u32w

record tmpfs_sys = dev_sys +
  t_ctx :: "ptr option"
  t_list :: "ptr list"
  t_nodes :: "ptr \<Rightarrow> tmpfs_node option"
  t_states :: "ptr \<Rightarrow> tmpfs_file_state option"
  t_junk :: "ptr \<Rightarrow> nat \<Rightarrow> byte"

definition upd_node :: "ptr \<Rightarrow> (tmpfs_node \<Rightarrow> tmpfs_node) \<Rightarrow> tmpfs_sys \<Rightarrow> tmpfs_sys" where
  "upd_node a f s = s\<lparr>t_nodes := (t_nodes s)(a := map_option f (t_nodes s a))\<rparr>"

section \<open>Nodes\<close>

definition tmpfs_find_node :: "string \<Rightarrow> tmpfs_sys \<Rightarrow> (ptr \<times> tmpfs_node) option" where
  "tmpfs_find_node name s =
     (case find (\<lambda>a. map_option n_name (t_nodes s a) = Some name) (t_list s) of
        None \<Rightarrow> None
      | Some a \<Rightarrow> map_option (Pair a) (t_nodes s a))"

definition drop_node :: "ptr \<Rightarrow> tmpfs_sys \<Rightarrow> tmpfs_sys" where
  "drop_node a s =
     (case t_nodes s a of
        None \<Rightarrow> s
      | Some n \<Rightarrow>
          (let m = (case n_dptr n of None \<Rightarrow> fmem s | Some p \<Rightarrow> kfree_obj p (fmem s))
           in s\<lparr>t_nodes := (t_nodes s)(a := None), fmem := kfree_obj a m\<rparr>))"

definition tmpfs_detach_node :: "ptr \<Rightarrow> tmpfs_sys \<Rightarrow> tmpfs_sys" where
  "tmpfs_detach_node a s = (if a \<in> set (t_list s) then drop_node a (s\<lparr>t_list := remove1 a (t_list s)\<rparr>) else s)"

text \<open>Names are cut to 127 characters.\<close>

definition tmpfs_create_node :: "nat \<Rightarrow> string \<Rightarrow> u32w \<Rightarrow> tmpfs_sys \<Rightarrow> ptr option \<times> tmpfs_sys" where
  "tmpfs_create_node now name mode s =
     (case kmalloc_obj (fmem s) of
        (None, m) \<Rightarrow> (None, s\<lparr>fmem := m\<rparr>)
      | (Some a, m) \<Rightarrow>
          (let t = timespec_of_us now;
               n = \<lparr>n_name = take 127 name, n_dptr = None, n_data = (\<lambda>_. 0), n_size = 0, n_capacity = 0, n_deleted = False,
                    n_refcount = 0, n_mode = mode, n_atime = t, n_mtime = t, n_ctime = t, n_is_char = S_ISCHR mode, n_rdev = 0,
                    n_char = None\<rparr>
           in (Some a, s\<lparr>fmem := m, t_nodes := (t_nodes s)(a \<mapsto> n), t_list := a # t_list s\<rparr>)))"

text \<open>The doubling loop of \<^verbatim>\<open>tmpfs_reserve\<close>.\<close>

partial_function (option) grow_capacity :: "nat \<Rightarrow> nat \<Rightarrow> nat option" where
  "grow_capacity alloc wanted = (if alloc < wanted then grow_capacity (u64 (alloc * 2)) wanted else Some alloc)"

text \<open>
  \<^verbatim>\<open>krealloc\<close> moves the data: the new size is at least twice the old one, which the old block cannot hold.
\<close>

definition tmpfs_reserve :: "ptr \<Rightarrow> nat \<Rightarrow> tmpfs_sys \<Rightarrow> (bool \<times> tmpfs_sys) option" where
  "tmpfs_reserve a wanted s =
     (case t_nodes s a of
        None \<Rightarrow> Some (False, s)
      | Some n \<Rightarrow>
          if wanted \<le> n_capacity n then Some (True, s)
          else case grow_capacity (if n_capacity n = 0 then 256 else n_capacity n) wanted of
            None \<Rightarrow> None
          | Some alloc \<Rightarrow>
              (case kmalloc_obj (fmem s) of
                 (None, m) \<Rightarrow> Some (False, s\<lparr>fmem := m\<rparr>)
               | (Some p, m) \<Rightarrow>
                   (let m' = (case n_dptr n of None \<Rightarrow> m | Some q \<Rightarrow> kfree_obj q m);
                        d = (\<lambda>i. if i < n_capacity n then n_data n i else t_junk s p i)
                    in Some (True, (upd_node a (\<lambda>n. n\<lparr>n_dptr := Some p, n_data := d, n_capacity := alloc\<rparr>) s)\<lparr>fmem := m'\<rparr>))))"

definition buffer_put :: "nat \<Rightarrow> byte list \<Rightarrow> (nat \<Rightarrow> byte) \<Rightarrow> (nat \<Rightarrow> byte)" where
  "buffer_put off bs d = (\<lambda>i. if off \<le> i \<and> i < off + length bs then bs ! (i - off) else d i)"

definition buffer_get :: "nat \<Rightarrow> nat \<Rightarrow> (nat \<Rightarrow> byte) \<Rightarrow> byte list" where
  "buffer_get off len d = map d [off..<off + len]"

definition stamp_all :: "nat \<Rightarrow> tmpfs_node \<Rightarrow> tmpfs_node" where
  "stamp_all now n = n\<lparr>n_mtime := timespec_of_us now, n_ctime := timespec_of_us now, n_atime := timespec_of_us now\<rparr>"

section \<open>Operations by path\<close>

definition tmpfs_list ::
    "string option \<Rightarrow> (fs_dir_entry \<Rightarrow> 'c \<Rightarrow> bool \<times> 'c) \<Rightarrow> 'c \<Rightarrow> tmpfs_sys \<Rightarrow> bool \<times> 'c" where
  "tmpfs_list path iter c s =
     (if \<not> listable path then (False, c)
      else (True, iterate iter
              (map (\<lambda>n. \<lparr>de_name = take 255 (n_name n), de_is_directory = False, de_size = u32 (n_size n)\<rparr>)
                 (filter (\<lambda>n. \<not> n_deleted n) (List.map_filter (t_nodes s) (t_list s)))) c))"

definition tmpfs_read :: "nat \<Rightarrow> string \<Rightarrow> nat \<Rightarrow> nat \<Rightarrow> tmpfs_sys \<Rightarrow> byte list option \<times> tmpfs_sys" where
  "tmpfs_read now path off len s =
     (case tmpfs_find_node (skip_slashes path) s of
        None \<Rightarrow> (None, s)
      | Some (a, n) \<Rightarrow>
          if n_deleted n \<or> n_is_char n then (None, s)
          else if off \<ge> n_size n then (Some [], s)
          else let k = min len (n_size n - off)
               in (Some (buffer_get off k (n_data n)), if k > 0 then upd_node a (\<lambda>n. n\<lparr>n_atime := timespec_of_us now\<rparr>) s else s))"

text \<open>The copy is a fresh object of the heap, handed to the caller; \<^verbatim>\<open>kmalloc(0)\<close> gives none.\<close>

definition tmpfs_read_all :: "nat \<Rightarrow> string \<Rightarrow> tmpfs_sys \<Rightarrow> (ptr \<times> byte list) option \<times> tmpfs_sys" where
  "tmpfs_read_all now path s =
     (case tmpfs_find_node (skip_slashes path) s of
        None \<Rightarrow> (None, s)
      | Some (a, n) \<Rightarrow>
          if n_deleted n \<or> n_is_char n \<or> n_size n = 0 then (None, s)
          else case kmalloc_obj (fmem s) of
            (None, m) \<Rightarrow> (None, s\<lparr>fmem := m\<rparr>)
          | (Some p, m) \<Rightarrow>
              (Some (p, buffer_get 0 (n_size n) (n_data n)),
               (upd_node a (\<lambda>n. n\<lparr>n_atime := timespec_of_us now\<rparr>) s)\<lparr>fmem := m\<rparr>))"

text \<open>Storing \<open>bs\<close> at \<open>off\<close> in a node with room for it, up to the time stamps.\<close>

definition store_bytes :: "nat \<Rightarrow> ptr \<Rightarrow> nat \<Rightarrow> byte list \<Rightarrow> tmpfs_sys \<Rightarrow> tmpfs_sys" where
  "store_bytes now a off bs s =
     upd_node a (\<lambda>n. stamp_all now (n\<lparr>n_data := buffer_put off bs (n_data n),
                                     n_size := max (n_size n) (u64 (off + length bs))\<rparr>)) s"

definition tmpfs_driver_write :: "nat \<Rightarrow> string \<Rightarrow> nat \<Rightarrow> byte list \<Rightarrow> tmpfs_sys \<Rightarrow> (nat option \<times> tmpfs_sys) option" where
  "tmpfs_driver_write now path off bs s =
     (case tmpfs_find_node (skip_slashes path) s of
        None \<Rightarrow> Some (None, s)
      | Some (a, n) \<Rightarrow>
          if n_deleted n \<or> n_is_char n \<or> off > n_size n then Some (None, s)
          else case tmpfs_reserve a (u64 (off + length bs)) s of
            None \<Rightarrow> None
          | Some (False, s1) \<Rightarrow> Some (None, s1)
          | Some (True, s1) \<Rightarrow> Some (Some (length bs), store_bytes now a off bs s1))"

text \<open>Unlike the other operations this one does not look whether the node is a device.\<close>

definition tmpfs_driver_write_all :: "nat \<Rightarrow> string \<Rightarrow> byte list \<Rightarrow> tmpfs_sys \<Rightarrow> (bool \<times> tmpfs_sys) option" where
  "tmpfs_driver_write_all now path bs s =
     (case tmpfs_find_node (skip_slashes path) s of
        None \<Rightarrow> Some (False, s)
      | Some (a, n) \<Rightarrow>
          if n_deleted n then Some (False, s)
          else case tmpfs_reserve a (length bs) s of
            None \<Rightarrow> None
          | Some (False, s1) \<Rightarrow> Some (False, s1)
          | Some (True, s1) \<Rightarrow>
              Some (True, upd_node a (\<lambda>n. stamp_all now (n\<lparr>n_data := buffer_put 0 bs (n_data n), n_size := length bs\<rparr>)) s1))"

definition tmpfs_stat_path :: "string option \<Rightarrow> tmpfs_sys \<Rightarrow> fs_path_info option" where
  "tmpfs_stat_path path s =
     (case path of
        None \<Rightarrow> None
      | Some pth \<Rightarrow>
          if skip_slashes pth = [] then None
          else case tmpfs_find_node (skip_slashes pth) s of
            None \<Rightarrow> None
          | Some (a, n) \<Rightarrow>
              if n_deleted n then None
              else (let i = empty_info\<lparr>pi_block_size := 4096, pi_inode := a, pi_mode := Some (n_mode n),
                                      pi_times := Some (n_atime n, n_mtime n, n_ctime n)\<rparr>
                    in if n_is_char n
                       then Some (i\<lparr>pi_rdev := Some (n_rdev n),
                              pi_is_read_only := (case n_char n of
                                  None \<Rightarrow> True
                                | Some d \<Rightarrow> (case d_devices s d of None \<Rightarrow> True | Some cd \<Rightarrow> cd_access_mode cd AND FILE_MODE_WRITE = 0))\<rparr>)
                       else Some (i\<lparr>pi_size := n_size n\<rparr>)))"

definition set_mode :: "nat \<Rightarrow> u32w \<Rightarrow> tmpfs_node \<Rightarrow> tmpfs_node" where
  "set_mode now mode n = n\<lparr>n_mode := (n_mode n AND S_IFMT) OR (mode AND NOT S_IFMT), n_ctime := timespec_of_us now\<rparr>"

definition by_path :: "string option \<Rightarrow> (tmpfs_node \<Rightarrow> tmpfs_node) \<Rightarrow> tmpfs_sys \<Rightarrow> (errno + nat) \<times> tmpfs_sys" where
  "by_path path f s =
     (case path of
        None \<Rightarrow> (Inl EINVAL, s)
      | Some pth \<Rightarrow>
          if skip_slashes pth = [] then (Inl EINVAL, s)
          else case tmpfs_find_node (skip_slashes pth) s of
            None \<Rightarrow> (Inl ENOENT, s)
          | Some (a, n) \<Rightarrow> if n_deleted n then (Inl ENOENT, s) else (Inr 0, upd_node a f s))"

definition tmpfs_chmod :: "nat \<Rightarrow> string option \<Rightarrow> u32w \<Rightarrow> tmpfs_sys \<Rightarrow> (errno + nat) \<times> tmpfs_sys" where
  "tmpfs_chmod now path mode s = by_path path (set_mode now mode) s"

definition set_times :: "nat \<Rightarrow> nat \<Rightarrow> (timespec \<times> timespec) option \<Rightarrow> tmpfs_node \<Rightarrow> tmpfs_node" where
  "set_times now now2 tms n =
     (case tms of
        Some (at, mt) \<Rightarrow> n\<lparr>n_atime := at, n_mtime := mt, n_ctime := timespec_of_us now2\<rparr>
      | None \<Rightarrow> n\<lparr>n_atime := timespec_of_us now, n_mtime := timespec_of_us now, n_ctime := timespec_of_us now2\<rparr>)"

definition tmpfs_utimens ::
    "nat \<Rightarrow> nat \<Rightarrow> string option \<Rightarrow> (timespec \<times> timespec) option \<Rightarrow> tmpfs_sys \<Rightarrow> (errno + nat) \<times> tmpfs_sys" where
  "tmpfs_utimens now now2 path tms s = by_path path (set_times now now2 tms) s"

section \<open>Operations on open files\<close>

definition tmpfs_file_ops :: file_ops where
  "tmpfs_file_ops = \<lparr>op_table = ''tmpfs_file'', op_read = True, op_write = True, op_close = True, op_seek = True, op_ioctl = False, op_mmap = False,
     op_stat = True, op_chmod = True, op_utimens = True\<rparr>"

definition priv_of :: "tmpfs_sys \<Rightarrow> ptr \<Rightarrow> ptr option" where
  "priv_of s f = (case fobjs s f of None \<Rightarrow> None | Some ob \<Rightarrow> f_private ob)"

text \<open>A node that is unlinked and no longer open goes away.\<close>

definition reap_node :: "ptr \<Rightarrow> tmpfs_sys \<Rightarrow> tmpfs_sys" where
  "reap_node a s =
     (case t_nodes s a of
        Some n \<Rightarrow> if n_refcount n = 0 \<and> n_deleted n then tmpfs_detach_node a s else s
      | None \<Rightarrow> s)"

definition tmpfs_close :: "ptr \<Rightarrow> tmpfs_sys \<Rightarrow> tmpfs_sys" where
  "tmpfs_close f s =
     (case priv_of s f of
        None \<Rightarrow> s
      | Some st \<Rightarrow>
          (case t_states s st of
             None \<Rightarrow> s
           | Some ts \<Rightarrow>
               (let s1 = reap_node (ts_node ts) (upd_node (ts_node ts) (\<lambda>n. n\<lparr>n_refcount := n_refcount n - 1\<rparr>) s)
                in s1\<lparr>t_states := (t_states s1)(st := None), fmem := kfree_obj st (fmem s1),
                      fobjs := (fobjs s1)(f := map_option (\<lambda>ob. ob\<lparr>f_private := None\<rparr>) (fobjs s1 f))\<rparr>)))"

text \<open>The close method of an open file: this file system's own, or none that touches its state.\<close>

definition close_tmp :: "ptr \<Rightarrow> tmpfs_sys \<Rightarrow> tmpfs_sys" where
  "close_tmp f s =
     (case fobjs s f of
        None \<Rightarrow> s
      | Some ob \<Rightarrow> if f_ops ob = Some tmpfs_file_ops then tmpfs_close f s else serial_close_noop f s)"

text \<open>The node of an open file, with the checks that the operations share.\<close>

definition open_node :: "ptr \<Rightarrow> tmpfs_sys \<Rightarrow> errno + (ptr \<times> tmpfs_file_state \<times> tmpfs_node)" where
  "open_node f s =
     (case priv_of s f of
        None \<Rightarrow> Inl EIO
      | Some st \<Rightarrow>
          (case t_states s st of
             None \<Rightarrow> Inl EIO
           | Some ts \<Rightarrow>
               (case t_nodes s (ts_node ts) of
                  None \<Rightarrow> Inl EIO
                | Some n \<Rightarrow> if n_deleted n then Inl ENOENT else Inr (st, ts, n))))"

definition tmpfs_stat_impl :: "ptr \<Rightarrow> tmpfs_sys \<Rightarrow> errno + kstat" where
  "tmpfs_stat_impl f s =
     (case open_node f s of
        Inl e \<Rightarrow> Inl e
      | Inr (st, ts, n) \<Rightarrow>
          Inr (empty_stat\<lparr>
            st_mode := (if n_is_char n then (n_mode n AND NOT S_IFMT) OR S_IFCHR else n_mode n), st_nlink := 1,
            st_size := (if n_is_char n then 0 else n_size n), st_blksize := 4096,
            st_blocks := (if n_is_char n then 0 else u64 (n_size n + 511) div 512),
            st_ino := ts_node ts, st_rdev := (if n_is_char n then n_rdev n else 0),
            st_times := (tv_sec (n_atime n), tv_sec (n_mtime n), tv_sec (n_ctime n))\<rparr>))"

definition tmpfs_file_chmod_impl :: "nat \<Rightarrow> ptr \<Rightarrow> u32w \<Rightarrow> tmpfs_sys \<Rightarrow> (errno + nat) \<times> tmpfs_sys" where
  "tmpfs_file_chmod_impl now f mode s =
     (case open_node f s of
        Inl e \<Rightarrow> (Inl e, s)
      | Inr (st, ts, n) \<Rightarrow> (Inr 0, upd_node (ts_node ts) (set_mode now mode) s))"

definition tmpfs_file_utimens_impl ::
    "nat \<Rightarrow> nat \<Rightarrow> ptr \<Rightarrow> (timespec \<times> timespec) option \<Rightarrow> tmpfs_sys \<Rightarrow> (errno + nat) \<times> tmpfs_sys" where
  "tmpfs_file_utimens_impl now now2 f tms s =
     (case open_node f s of
        Inl e \<Rightarrow> (Inl e, s)
      | Inr (st, ts, n) \<Rightarrow> (Inr 0, upd_node (ts_node ts) (set_times now now2 tms) s))"

definition set_offset :: "ptr \<Rightarrow> nat \<Rightarrow> tmpfs_sys \<Rightarrow> tmpfs_sys" where
  "set_offset st off s = s\<lparr>t_states := (t_states s)(st := map_option (\<lambda>ts. ts\<lparr>ts_offset := off\<rparr>) (t_states s st))\<rparr>"

definition tmpfs_read_impl :: "nat \<Rightarrow> ptr \<Rightarrow> ptr option \<Rightarrow> nat \<Rightarrow> tmpfs_sys \<Rightarrow> (errno + byte list) \<times> tmpfs_sys" where
  "tmpfs_read_impl now f buffer len s =
     (if buffer = None then (Inl EINVAL, s)
      else case open_node f s of
        Inl e \<Rightarrow> (Inl e, s)
      | Inr (st, ts, n) \<Rightarrow>
          if n_is_char n then (Inl ENOTTY, s)
          else if ts_offset ts \<ge> n_size n then (Inr [], s)
          else let k = min len (n_size n - ts_offset ts);
                   s1 = set_offset st (u64 (ts_offset ts + k)) s
               in (Inr (buffer_get (ts_offset ts) k (n_data n)),
                   if k > 0 then upd_node (ts_node ts) (\<lambda>n. n\<lparr>n_atime := timespec_of_us now\<rparr>) s1 else s1))"

text \<open>With \<^verbatim>\<open>O_APPEND\<close> the offset moves to the end first, even if the write then fails.\<close>

definition tmpfs_write_impl ::
    "nat \<Rightarrow> ptr \<Rightarrow> byte list option \<Rightarrow> tmpfs_sys \<Rightarrow> ((errno + nat) \<times> tmpfs_sys) option" where
  "tmpfs_write_impl now f buffer s =
     (case buffer of
        None \<Rightarrow> Some (Inl EINVAL, s)
      | Some bs \<Rightarrow>
          (case open_node f s of
             Inl e \<Rightarrow> Some (Inl e, s)
           | Inr (st, ts, n) \<Rightarrow>
               if n_is_char n then Some (Inl ENOTTY, s)
               else let off = (if ts_flags ts AND O_APPEND \<noteq> 0 then n_size n else ts_offset ts);
                        fin = u64 (off + length bs);
                        s1 = set_offset st off s
                    in case tmpfs_reserve (ts_node ts) fin s1 of
                         None \<Rightarrow> None
                       | Some (False, s2) \<Rightarrow> Some (Inl ENOMEM, s2)
                       | Some (True, s2) \<Rightarrow> Some (Inr (length bs), store_bytes now (ts_node ts) off bs (set_offset st fin s2))))"

datatype whence = SEEK_SET | SEEK_CUR | SEEK_END | SEEK_OTHER

definition tmpfs_seek_impl :: "ptr \<Rightarrow> int \<Rightarrow> whence \<Rightarrow> tmpfs_sys \<Rightarrow> (errno + nat) \<times> tmpfs_sys" where
  "tmpfs_seek_impl f off wh s =
     (case priv_of s f of
        None \<Rightarrow> (Inl EINVAL, s)
      | Some st \<Rightarrow>
          (case t_states s st of
             None \<Rightarrow> (Inl EINVAL, s)
           | Some ts \<Rightarrow>
               (case t_nodes s (ts_node ts) of
                  None \<Rightarrow> (Inl EINVAL, s)
                | Some n \<Rightarrow>
                    if wh = SEEK_OTHER then (Inl EINVAL, s)
                    else let base = (case wh of SEEK_CUR \<Rightarrow> ts_offset ts | SEEK_END \<Rightarrow> n_size n | _ \<Rightarrow> 0);
                             pos = s64 (s64 (int base) + off)
                         in if pos < 0 then (Inl EINVAL, s) else (Inr (nat pos), set_offset st (nat pos) s))))"

section \<open>Creating, opening and removing\<close>

definition mknod_new :: "nat \<Rightarrow> string \<Rightarrow> u32w \<Rightarrow> nat \<Rightarrow> ptr \<Rightarrow> tmpfs_sys \<Rightarrow> (errno + nat) \<times> tmpfs_sys" where
  "mknod_new now name mode dev d s =
     (case tmpfs_create_node now name ((mode AND 0xFFF) OR S_IFCHR) s of
        (None, s1) \<Rightarrow> (Inl ENOMEM, s1)
      | (Some a, s1) \<Rightarrow>
          (Inr 0, upd_node a (\<lambda>n. n\<lparr>n_is_char := True, n_char := Some d, n_rdev := dev, n_size := 0, n_capacity := 0\<rparr>) s1))"

definition tmpfs_mknod :: "nat \<Rightarrow> string option \<Rightarrow> u32w \<Rightarrow> nat \<Rightarrow> tmpfs_sys \<Rightarrow> (errno + nat) \<times> tmpfs_sys" where
  "tmpfs_mknod now path mode dev s0 =
     (case path of
        None \<Rightarrow> (Inl EINVAL, s0)
      | Some pth \<Rightarrow>
          if \<not> S_ISCHR mode then (Inl EINVAL, s0)
          else case char_device_lookup dev s0 of
            (None, s) \<Rightarrow> (Inl ENODEV, s)
          | (Some d, s) \<Rightarrow>
              (let name = skip_slashes pth in
               if \<not> (case d_devices s d of None \<Rightarrow> False | Some cd \<Rightarrow> cd_open cd \<noteq> None) then (Inl ENODEV, s)
               else if name = [] \<or> CHR ''/'' \<in> set name then (Inl EINVAL, s)
               else case tmpfs_find_node name s of
                      None \<Rightarrow> mknod_new now name mode dev d s
                    | Some (a, n) \<Rightarrow>
                        if n_deleted n \<and> n_refcount n = 0 then mknod_new now name mode dev d (tmpfs_detach_node a s)
                        else (Inl (if n_deleted n then EBUSY else EEXIST), s)))"

text \<open>The part of \<^verbatim>\<open>tmpfs_open\<close> after the node has been found or made: reference, file state, file.\<close>

definition unhold :: "ptr \<Rightarrow> tmpfs_sys \<Rightarrow> tmpfs_sys" where
  "unhold a s = upd_node a (\<lambda>n. n\<lparr>n_refcount := u32 (n_refcount n + (2 ^ 32 - 1))\<rparr>) s"

definition open_file :: "ptr \<Rightarrow> u32w \<Rightarrow> tmpfs_sys \<Rightarrow> (errno + ptr) \<times> tmpfs_sys" where
  "open_file a flags s =
     (let s1 = upd_node a (\<lambda>n. n\<lparr>n_refcount := u32 (n_refcount n + 1)\<rparr>) s in
      case kmalloc_obj (fmem s1) of
        (None, m) \<Rightarrow> (Inl ENOMEM, unhold a (s1\<lparr>fmem := m\<rparr>))
      | (Some st, m) \<Rightarrow>
          (let off = (if flags AND O_APPEND \<noteq> 0 then (case t_nodes s1 a of Some n \<Rightarrow> n_size n | None \<Rightarrow> 0) else 0);
               s2 = s1\<lparr>fmem := m, t_states := (t_states s1)(st \<mapsto> \<lparr>ts_node = a, ts_offset = off, ts_flags = flags\<rparr>)\<rparr>
           in case file_create (Some tmpfs_file_ops) (Some st) (requested_mode flags) s2 of
                (Some f, s3) \<Rightarrow> (Inr f, s3)
              | (None, s3) \<Rightarrow>
                  (let s4 = reap_node a (unhold a s3)
                   in (Inl ENOMEM, s4\<lparr>t_states := (t_states s4)(st := None), fmem := kfree_obj st (fmem s4)\<rparr>))))"

text \<open>An existing regular node: emptied with \<^verbatim>\<open>O_TRUNC\<close>, and no longer deleted.\<close>

definition reopen_node :: "nat \<Rightarrow> ptr \<Rightarrow> tmpfs_node \<Rightarrow> u32w \<Rightarrow> tmpfs_sys \<Rightarrow> tmpfs_sys" where
  "reopen_node now a n flags s =
     (let s1 = (if flags AND O_TRUNC \<noteq> 0
                then (upd_node a (\<lambda>n. n\<lparr>n_dptr := None, n_size := 0, n_capacity := 0, n_mtime := timespec_of_us now,
                                       n_ctime := timespec_of_us now\<rparr>) s)
                       \<lparr>fmem := (case n_dptr n of None \<Rightarrow> fmem s | Some p \<Rightarrow> kfree_obj p (fmem s))\<rparr>
                else s)
      in upd_node a (\<lambda>n. n\<lparr>n_deleted := False\<rparr>) s1)"

text \<open>A node of a device is opened by its driver; registered devices have an open function.\<close>

definition open_char :: "nat \<Rightarrow> ptr \<Rightarrow> tmpfs_node \<Rightarrow> u32w \<Rightarrow> tmpfs_sys \<Rightarrow> (errno + ptr) \<times> tmpfs_sys" where
  "open_char now a n flags s =
     (if flags AND O_CREAT \<noteq> 0 \<and> flags AND O_EXCL \<noteq> 0 then (Inl EEXIST, s)
      else if flags AND O_TRUNC \<noteq> 0 then (Inl EINVAL, s)
      else case n_char n of
        None \<Rightarrow> (Inl ENODEV, s)
      | Some d \<Rightarrow>
          (case d_devices s d of
             None \<Rightarrow> (Inl ENODEV, s)
           | Some cd \<Rightarrow>
               if cd_access_mode cd AND requested_mode flags \<noteq> requested_mode flags then (Inl EACCES, s)
               else case cd_open cd of
                 None \<Rightarrow> (Inl ENODEV, s)
               | Some opn \<Rightarrow> device_open d cd opn (upd_node a (\<lambda>n. n\<lparr>n_atime := timespec_of_us now\<rparr>) s)))"

definition tmpfs_open :: "nat \<Rightarrow> string option \<Rightarrow> u32w \<Rightarrow> tmpfs_sys \<Rightarrow> (errno + ptr) \<times> tmpfs_sys" where
  "tmpfs_open now path flags s =
     (case path of
        None \<Rightarrow> (Inl EINVAL, s)
      | Some pth \<Rightarrow>
          (let name = skip_slashes pth in
           if name = [] \<or> CHR ''/'' \<in> set name then (Inl ENOSYS, s)
           else case tmpfs_find_node name s of
             None \<Rightarrow>
               if flags AND O_CREAT = 0 then (Inl ENOENT, s)
               else (case tmpfs_create_node now name (S_IFREG OR 0x1A4) s of
                       (None, s1) \<Rightarrow> (Inl ENOMEM, s1)
                     | (Some a, s1) \<Rightarrow> open_file a flags s1)
           | Some (a, n) \<Rightarrow>
               if S_ISCHR (n_mode n) then open_char now a n flags s
               else if flags AND O_CREAT \<noteq> 0 \<and> flags AND O_EXCL \<noteq> 0 then (Inl EEXIST, s)
               else open_file a flags (reopen_node now a n flags s)))"

definition tmpfs_unlink :: "string option \<Rightarrow> tmpfs_sys \<Rightarrow> (errno + nat) \<times> tmpfs_sys" where
  "tmpfs_unlink path s =
     (case path of
        None \<Rightarrow> (Inl EINVAL, s)
      | Some pth \<Rightarrow>
          (case tmpfs_find_node (skip_slashes pth) s of
             None \<Rightarrow> (Inl ENOENT, s)
           | Some (a, n) \<Rightarrow>
               if n_refcount n > 0 then (Inr 0, upd_node a (\<lambda>n. n\<lparr>n_deleted := True\<rparr>) s)
               else (Inr 0, tmpfs_detach_node a s)))"

definition tmpfs_destroy :: "tmpfs_sys \<Rightarrow> tmpfs_sys" where
  "tmpfs_destroy s =
     (case t_ctx s of
        None \<Rightarrow> s
      | Some c \<Rightarrow> (let s1 = fold drop_node (t_list s) s in s1\<lparr>t_list := [], t_ctx := None, fmem := kfree_obj c (fmem s1)\<rparr>))"

text \<open>\<open>mounted\<close> is the answer of \<^verbatim>\<open>vfs_mount\<close>.\<close>

definition tmpfs_mount :: "bool \<Rightarrow> tmpfs_sys \<Rightarrow> bool \<times> tmpfs_sys" where
  "tmpfs_mount mounted s =
     (case kmalloc_obj (fmem s) of
        (None, m) \<Rightarrow> (False, s\<lparr>fmem := m\<rparr>)
      | (Some c, m) \<Rightarrow>
          if mounted then (True, s\<lparr>fmem := m, t_ctx := Some c, t_list := []\<rparr>)
          else (False, s\<lparr>fmem := kfree_obj c m\<rparr>))"

section \<open>The life of a mounted file system\<close>

text \<open>
  \<open>tmpfs_reach s R\<close>: the state after any operations since the mount, with the heap objects \<open>R\<close> that belong to other
  code. Other code may allocate and free objects of its own, take and drop references to open files, and change the
  registry of devices; the heap may offer any addresses that are not live. Fewer than \<^verbatim>\<open>2^32 - 1\<close> files are open at a time
  (each takes memory).
\<close>

inductive tmpfs_reach :: "tmpfs_sys \<Rightarrow> ptr multiset \<Rightarrow> bool" where
  tr_mount: "t_list s = [] \<Longrightarrow> t_nodes s = Map.empty \<Longrightarrow> t_states s = Map.empty \<Longrightarrow> finite (dom (fobjs s)) \<Longrightarrow>
     \<forall>f ob. fobjs s f = Some ob \<longrightarrow> f_ops ob \<noteq> Some tmpfs_file_ops \<Longrightarrow> kmem_ok (fmem s) \<Longrightarrow>
     mset (live (fmem s)) = mset_set (dom (fobjs s)) + R \<Longrightarrow> tmpfs_reach s R"
| tr_open: "tmpfs_reach s R \<Longrightarrow> card (dom (t_states s)) < 2 ^ 32 - 1 \<Longrightarrow> tmpfs_reach (snd (tmpfs_open now path flags s)) R"
| tr_ref: "tmpfs_reach s R \<Longrightarrow> tmpfs_reach (file_ref file s) R"
| tr_unref: "tmpfs_reach s R \<Longrightarrow> tmpfs_reach (file_unref close_tmp file s) R"
| tr_unlink: "tmpfs_reach s R \<Longrightarrow> tmpfs_reach (snd (tmpfs_unlink path s)) R"
| tr_mknod: "tmpfs_reach s R \<Longrightarrow> tmpfs_reach (snd (tmpfs_mknod now path mode dev s)) R"
| tr_read: "tmpfs_reach s R \<Longrightarrow> tmpfs_reach (snd (tmpfs_read_impl now f buffer len s)) R"
| tr_write: "tmpfs_reach s R \<Longrightarrow> tmpfs_write_impl now f wbuf s = Some (r, s') \<Longrightarrow> tmpfs_reach s' R"
| tr_seek: "tmpfs_reach s R \<Longrightarrow> tmpfs_reach (snd (tmpfs_seek_impl f off wh s)) R"
| tr_fchmod: "tmpfs_reach s R \<Longrightarrow> tmpfs_reach (snd (tmpfs_file_chmod_impl now f mode s)) R"
| tr_futimens: "tmpfs_reach s R \<Longrightarrow> tmpfs_reach (snd (tmpfs_file_utimens_impl now now2 f tms s)) R"
| tr_path_read: "tmpfs_reach s R \<Longrightarrow> tmpfs_reach (snd (tmpfs_read now pth off len s)) R"
| tr_read_all: "tmpfs_reach s R \<Longrightarrow> tmpfs_read_all now pth s = (ra, s') \<Longrightarrow>
     tmpfs_reach s' (case ra of None \<Rightarrow> R | Some (p, _) \<Rightarrow> add_mset p R)"
| tr_path_write: "tmpfs_reach s R \<Longrightarrow> tmpfs_driver_write now pth off bs s = Some (rw, s') \<Longrightarrow> tmpfs_reach s' R"
| tr_write_all: "tmpfs_reach s R \<Longrightarrow> tmpfs_driver_write_all now pth bs s = Some (ok, s') \<Longrightarrow> tmpfs_reach s' R"
| tr_chmod: "tmpfs_reach s R \<Longrightarrow> tmpfs_reach (snd (tmpfs_chmod now path mode s)) R"
| tr_utimens: "tmpfs_reach s R \<Longrightarrow> tmpfs_reach (snd (tmpfs_utimens now now2 path tms s)) R"
| tr_alloc: "tmpfs_reach s R \<Longrightarrow> kmalloc_obj (fmem s) = (Some p, m) \<Longrightarrow> tmpfs_reach (s\<lparr>fmem := m\<rparr>) (add_mset p R)"
| tr_free: "tmpfs_reach s (add_mset p R) \<Longrightarrow> tmpfs_reach (s\<lparr>fmem := kfree_obj p (fmem s)\<rparr>) R"
| tr_heap: "tmpfs_reach s R \<Longrightarrow> kmem_ok m \<Longrightarrow> live m = live (fmem s) \<Longrightarrow> tmpfs_reach (s\<lparr>fmem := m\<rparr>) R"
| tr_devices: "tmpfs_reach s R \<Longrightarrow> tmpfs_reach (s\<lparr>d_devices := dv, d_entries := en, d_majors := mj, d_next_major := nm\<rparr>) R"

section \<open>What the file system keeps true\<close>

definition opens :: "tmpfs_sys \<Rightarrow> ptr \<Rightarrow> ptr set" where
  "opens s a = {st. map_option ts_node (t_states s st) = Some a}"

definition is_tmp :: "tmpfs_sys \<Rightarrow> ptr \<Rightarrow> bool" where
  "is_tmp s f \<longleftrightarrow> map_option f_ops (fobjs s f) = Some (Some tmpfs_file_ops)"

text \<open>Data: the bytes of the file are within the buffer, whose size is a power of two from 256 up.\<close>

definition pow_cap :: "nat \<Rightarrow> bool" where
  "pow_cap c \<longleftrightarrow> c = 0 \<or> (\<exists>k \<le> 55. c = 256 * 2 ^ k)"

definition data_fits :: "tmpfs_node \<Rightarrow> bool" where
  "data_fits n \<longleftrightarrow> n_size n \<le> n_capacity n \<and> (n_dptr n = None \<longleftrightarrow> n_capacity n = 0) \<and>
     pow_cap (n_capacity n)"

text \<open>Type: a node is a regular file or the node of a device, and its mode says which.\<close>

definition node_typed :: "tmpfs_node \<Rightarrow> bool" where
  "node_typed n \<longleftrightarrow> (if n_is_char n then n_mode n AND S_IFMT = S_IFCHR \<and> n_char n \<noteq> None
                      else n_mode n AND S_IFMT = S_IFREG \<and> n_char n = None) \<and>
     n_name n \<noteq> [] \<and> CHR ''/'' \<notin> set (n_name n) \<and> length (n_name n) \<le> 127"

definition dptr_of :: "tmpfs_sys \<Rightarrow> ptr \<Rightarrow> ptr option" where
  "dptr_of s a = Option.bind (t_nodes s a) n_dptr"

definition file_node :: "tmpfs_sys \<Rightarrow> ptr \<Rightarrow> ptr option" where
  "file_node s f = Option.bind (priv_of s f) (\<lambda>st. map_option ts_node (t_states s st))"

definition content :: "tmpfs_node \<Rightarrow> byte list" where
  "content n = buffer_get 0 (n_size n) (n_data n)"

definition owned :: "tmpfs_sys \<Rightarrow> ptr multiset" where
  "owned s = mset (t_list s) + mset (List.map_filter (dptr_of s) (t_list s)) + mset_set (dom (t_states s)) + mset_set (dom (fobjs s))"

text \<open>A node with \<open>c\<close> open files.\<close>

definition node_ok :: "nat \<Rightarrow> tmpfs_node \<Rightarrow> bool" where
  "node_ok c n \<longleftrightarrow> data_fits n \<and> node_typed n \<and> n_refcount n = c \<and> (n_deleted n \<longrightarrow> 0 < c)"

definition nodes_ok :: "tmpfs_sys \<Rightarrow> bool" where
  "nodes_ok s \<longleftrightarrow> distinct (t_list s) \<and> set (t_list s) = dom (t_nodes s) \<and>
     (\<forall>a n. t_nodes s a = Some n \<longrightarrow> node_ok (card (opens s a)) n)"

definition states_ok :: "tmpfs_sys \<Rightarrow> bool" where
  "states_ok s \<longleftrightarrow> finite (dom (t_states s)) \<and> finite (dom (fobjs s)) \<and>
     (\<forall>st ts. t_states s st = Some ts \<longrightarrow> ts_node ts \<in> dom (t_nodes s)) \<and>
     bij_betw (priv_of s) {f. is_tmp s f} (Some ` dom (t_states s)) \<and> card (dom (t_states s)) < 2 ^ 32"

definition heap_ok :: "ptr multiset \<Rightarrow> tmpfs_sys \<Rightarrow> bool" where
  "heap_ok R s \<longleftrightarrow> kmem_ok (fmem s) \<and> mset (live (fmem s)) = owned s + R"

definition tmpfs_ok :: "ptr multiset \<Rightarrow> tmpfs_sys \<Rightarrow> bool" where
  "tmpfs_ok R s \<longleftrightarrow> nodes_ok s \<and> states_ok s \<and> heap_ok R s"

definition opt_mset :: "'a option \<Rightarrow> 'a multiset" where
  "opt_mset x = (case x of None \<Rightarrow> {#} | Some p \<Rightarrow> {#p#})"

lemma opt_mset_simps [simp]: "opt_mset None = {#}" "opt_mset (Some p) = {#p#}"
  by (simp_all add: opt_mset_def)

lemma mset_map_filter_Cons: "mset (List.map_filter g (x # xs)) = opt_mset (g x) + mset (List.map_filter g xs)"
  by (cases "g x") (simp_all add: map_filter_simps)

lemma map_filter_cong: "\<forall>x \<in> set xs. g' x = g x \<Longrightarrow> List.map_filter g' xs = List.map_filter g xs"
  by (induction xs) (auto simp: map_filter_simps split: option.splits)

lemma mset_map_filter_upd:
  assumes "distinct xs" "a \<in> set xs" "\<forall>b. b \<noteq> a \<longrightarrow> g' b = g b"
  shows "mset (List.map_filter g' xs) + opt_mset (g a) = mset (List.map_filter g xs) + opt_mset (g' a)"
  using assms
proof (induction xs)
  case (Cons x xs)
  show ?case
  proof (cases "x = a")
    case True
    then have "List.map_filter g' xs = List.map_filter g xs" using Cons.prems by (intro map_filter_cong) auto
    then show ?thesis using True by (simp add: mset_map_filter_Cons del: map_filter_simps)
  next
    case False
    then have "g' x = g x" "mset (List.map_filter g' xs) + opt_mset (g a) = mset (List.map_filter g xs) + opt_mset (g' a)"
      using Cons by auto
    then show ?thesis by (simp add: mset_map_filter_Cons add.assoc del: map_filter_simps)
  qed
qed simp

lemma tmpfs_find_node_Some:
  "tmpfs_find_node name s = Some (a, n) \<Longrightarrow> a \<in> set (t_list s) \<and> t_nodes s a = Some n \<and> n_name n = name"
  by (auto simp: tmpfs_find_node_def find_Some_iff split: option.splits)

text \<open>Updating a node in place.\<close>

lemma upd_node_simps [simp]:
  "t_list (upd_node a f s) = t_list s" "t_states (upd_node a f s) = t_states s" "fobjs (upd_node a f s) = fobjs s"
  "fmem (upd_node a f s) = fmem s" "opens (upd_node a f s) = opens s" "is_tmp (upd_node a f s) = is_tmp s"
  "priv_of (upd_node a f s) = priv_of s" "dom (t_nodes (upd_node a f s)) = dom (t_nodes s)"
  "t_nodes (upd_node a f s) b = (if b = a then map_option f (t_nodes s a) else t_nodes s b)"
  by (auto simp: upd_node_def opens_def is_tmp_def priv_of_def fun_eq_iff)

lemma fmem_update_simps [simp]:
  "opens (s\<lparr>fmem := m\<rparr>) = opens s" "is_tmp (s\<lparr>fmem := m\<rparr>) = is_tmp s" "priv_of (s\<lparr>fmem := m\<rparr>) = priv_of s"
  "dptr_of (s\<lparr>fmem := m\<rparr>) = dptr_of s" "owned (s\<lparr>fmem := m\<rparr>) = owned s" "nodes_ok (s\<lparr>fmem := m\<rparr>) = nodes_ok s"
  "states_ok (s\<lparr>fmem := m\<rparr>) = states_ok s"
proof -
  show o: "opens (s\<lparr>fmem := m\<rparr>) = opens s" "is_tmp (s\<lparr>fmem := m\<rparr>) = is_tmp s" "priv_of (s\<lparr>fmem := m\<rparr>) = priv_of s"
    "dptr_of (s\<lparr>fmem := m\<rparr>) = dptr_of s" by (simp_all add: opens_def is_tmp_def priv_of_def dptr_of_def fun_eq_iff)
  show "owned (s\<lparr>fmem := m\<rparr>) = owned s" "nodes_ok (s\<lparr>fmem := m\<rparr>) = nodes_ok s" "states_ok (s\<lparr>fmem := m\<rparr>) = states_ok s"
    by (simp_all add: owned_def nodes_ok_def states_ok_def o)
qed

lemma dptr_of_upd: "(\<And>n. t_nodes s a = Some n \<Longrightarrow> n_dptr (f n) = n_dptr n) \<Longrightarrow> dptr_of (upd_node a f s) = dptr_of s"
  by (auto simp: dptr_of_def fun_eq_iff split: bind_splits)

lemma tmpfs_okD:
  assumes "tmpfs_ok R s"
  shows "nodes_ok s" "states_ok s" "heap_ok R s" "distinct (t_list s)" "set (t_list s) = dom (t_nodes s)" "kmem_ok (fmem s)"
    "mset (live (fmem s)) = owned s + R" "finite (dom (t_states s))" "finite (dom (fobjs s))"
    "t_nodes s a = Some n \<Longrightarrow> node_ok (card (opens s a)) n"
    "t_states s st = Some ts \<Longrightarrow> ts_node ts \<in> dom (t_nodes s)"
  using assms unfolding tmpfs_ok_def nodes_ok_def states_ok_def heap_ok_def by blast+

lemma tmpfs_ok_upd_node:
  assumes ok: "tmpfs_ok R s"
    and f: "\<And>n. t_nodes s a = Some n \<Longrightarrow> node_ok (card (opens s a)) n \<Longrightarrow> node_ok (card (opens s a)) (f n) \<and> n_dptr (f n) = n_dptr n"
  shows "tmpfs_ok R (upd_node a f s)"
proof -
  note d = tmpfs_okD[OF ok]
  have "nodes_ok (upd_node a f s)" unfolding nodes_ok_def using d(4,5) f d(10) by (auto split: if_splits)
  moreover have "states_ok (upd_node a f s)" using d(2) unfolding states_ok_def by simp
  moreover have "dptr_of (upd_node a f s) = dptr_of s" using f d(10) by (intro dptr_of_upd) blast
  then have "heap_ok R (upd_node a f s)" using d(3) by (simp add: heap_ok_def owned_def)
  ultimately show ?thesis by (simp add: tmpfs_ok_def)
qed


lemma set_offset_simps [simp]:
  "t_list (set_offset st off s) = t_list s" "t_nodes (set_offset st off s) = t_nodes s" "fobjs (set_offset st off s) = fobjs s"
  "fmem (set_offset st off s) = fmem s" "opens (set_offset st off s) = opens s" "is_tmp (set_offset st off s) = is_tmp s"
  "priv_of (set_offset st off s) = priv_of s" "dom (t_states (set_offset st off s)) = dom (t_states s)"
  "dptr_of (set_offset st off s) = dptr_of s" "t_junk (set_offset st off s) = t_junk s"
  by (auto simp: set_offset_def opens_def is_tmp_def priv_of_def dptr_of_def fun_eq_iff option.map_comp comp_def)

lemma tmpfs_ok_set_offset:
  assumes "tmpfs_ok R s"
  shows "tmpfs_ok R (set_offset st off s)"
proof -
  note d = tmpfs_okD[OF assms]
  have "ts_node ts \<in> dom (t_nodes s)" if "t_states (set_offset st off s) x = Some ts" for x ts
  proof -
    from that obtain ts' where "t_states s x = Some ts'" "ts_node ts' = ts_node ts"
      by (auto simp: set_offset_def split: if_splits)
    then show ?thesis using d(11) by metis
  qed
  then have "states_ok (set_offset st off s)" using d(2) by (simp add: states_ok_def)
  then show ?thesis using d(1,3) by (simp add: tmpfs_ok_def nodes_ok_def heap_ok_def owned_def)
qed

text \<open>The doubling loop ends, with the least doubling that is large enough, when that is at most half the address space.\<close>

lemma grow_capacity_returns:
  assumes "wanted \<le> 2 ^ 63" "j \<le> 55"
  shows "\<exists>k. j \<le> k \<and> k \<le> 55 \<and> grow_capacity (256 * 2 ^ j) wanted = Some (256 * 2 ^ k) \<and> wanted \<le> 256 * 2 ^ k"
  using assms(2)
proof (induction "55 - j" arbitrary: j)
  case 0
  then have "j = 55" by simp
  then show ?case using assms(1) by (subst grow_capacity.simps) auto
next
  case (Suc d)
  show ?case
  proof (cases "256 * 2 ^ j < wanted")
    case False
    then show ?thesis using Suc.prems by (subst grow_capacity.simps) auto
  next
    case True
    have "(256::nat) * 2 ^ Suc j \<le> 256 * 2 ^ 55" using Suc.hyps(2) by (intro mult_left_mono power_increasing) auto
    then have u: "u64 (256 * 2 ^ j * 2) = 256 * 2 ^ Suc j" by (simp add: u64_def)
    have "d = 55 - Suc j" "Suc j \<le> 55" using Suc.hyps(2) by simp_all
    from Suc.hyps(1)[OF this] obtain k where "Suc j \<le> k" "k \<le> 55"
      "grow_capacity (256 * 2 ^ Suc j) wanted = Some (256 * 2 ^ k)" "wanted \<le> 256 * 2 ^ k" by blast
    then show ?thesis using True u by (subst grow_capacity.simps) (auto intro!: exI[of _ k])
  qed
qed

lemma pow_cap_double:
  assumes "pow_cap x"
  shows "pow_cap (u64 (x * 2))"
proof (cases "x = 0 \<or> x = 2 ^ 63")
  case True
  then show ?thesis by (auto simp: pow_cap_def u64_def)
next
  case False
  then obtain k where k: "k \<le> 55" "x = 256 * 2 ^ k" using assms unfolding pow_cap_def by blast
  then have "k \<noteq> 55" using False by auto
  then have "(256::nat) * 2 ^ Suc k \<le> 256 * 2 ^ 55" using k(1) by (intro mult_left_mono power_increasing) auto
  then have "u64 (x * 2) = 256 * 2 ^ Suc k" by (simp add: k(2) u64_def)
  moreover have "Suc k \<le> 55" using k(1) \<open>k \<noteq> 55\<close> by simp
  ultimately show ?thesis unfolding pow_cap_def by blast
qed

lemma grow_capacity_result:
  assumes "grow_capacity alloc wanted = Some c" "pow_cap alloc"
  shows "wanted \<le> c" "pow_cap c"
proof -
  have "pow_cap alloc \<longrightarrow> wanted \<le> c \<and> pow_cap c"
  proof (rule grow_capacity.raw_induct[OF _ assms(1)])
    fix g x w y
    assume ih: "\<And>x w y. g x w = Some y \<Longrightarrow> pow_cap x \<longrightarrow> w \<le> y \<and> pow_cap y"
      and eq: "(if x < w then g (u64 (x * 2)) w else Some x) = Some y"
    show "pow_cap x \<longrightarrow> w \<le> y \<and> pow_cap y"
    proof (cases "x < w")
      case True
      then have "g (u64 (x * 2)) w = Some y" using eq by simp
      from ih[OF this] pow_cap_double[of x] show ?thesis by blast
    next
      case False
      then show ?thesis using eq by simp
    qed
  qed
  then show "wanted \<le> c" "pow_cap c" using assms(2) by blast+
qed

text \<open>What reserving room does to the node, and that it does nothing else.\<close>

definition roomier :: "ptr \<Rightarrow> nat \<Rightarrow> tmpfs_sys \<Rightarrow> tmpfs_sys \<Rightarrow> bool" where
  "roomier a wanted s s' \<longleftrightarrow> t_states s' = t_states s \<and> fobjs s' = fobjs s \<and> t_list s' = t_list s \<and>
     (\<forall>b. b \<noteq> a \<longrightarrow> t_nodes s' b = t_nodes s b) \<and>
     (\<exists>n n'. t_nodes s a = Some n \<and> t_nodes s' a = Some n' \<and> wanted \<le> n_capacity n' \<and> n_capacity n \<le> n_capacity n' \<and>
        n' = n\<lparr>n_dptr := n_dptr n', n_data := n_data n', n_capacity := n_capacity n'\<rparr> \<and>
        (\<forall>i < n_capacity n. n_data n' i = n_data n i))"

lemma owned_new_dptr:
  assumes ok: "tmpfs_ok R s" and a: "t_nodes s a = Some n" and f: "n_dptr (f n) = p"
  shows "owned (upd_node a f s) + opt_mset (n_dptr n) = owned s + opt_mset p"
proof -
  note d = tmpfs_okD[OF ok]
  have "a \<in> set (t_list s)" using a d(5) by auto
  from mset_map_filter_upd[OF d(4) this, of "dptr_of (upd_node a f s)" "dptr_of s"]
  have "mset (List.map_filter (dptr_of (upd_node a f s)) (t_list s)) + opt_mset (n_dptr n) =
      mset (List.map_filter (dptr_of s) (t_list s)) + opt_mset p"
    using a f by (simp add: dptr_of_def)
  then show ?thesis by (simp add: owned_def add_ac)
qed

text \<open>Giving a node another buffer: the heap gains the new one and loses the old one.\<close>

lemma tmpfs_ok_new_dptr:
  assumes ok: "tmpfs_ok R s" and a: "t_nodes s a = Some n"
    and f: "node_ok (card (opens s a)) n \<Longrightarrow> node_ok (card (opens s a)) (f n)" "n_dptr (f n) = p"
    and m: "kmem_ok m" "mset (live m) + opt_mset (n_dptr n) = mset (live (fmem s)) + opt_mset p"
  shows "tmpfs_ok R ((upd_node a f s)\<lparr>fmem := m\<rparr>)" (is "tmpfs_ok R ?s")
proof -
  note d = tmpfs_okD[OF ok]
  have "nodes_ok (upd_node a f s)" unfolding nodes_ok_def using d(4,5) d(10) a f(1) by (auto split: if_splits)
  moreover have "states_ok (upd_node a f s)" using d(2) by (simp add: states_ok_def)
  moreover have "mset (live m) + opt_mset (n_dptr n) = owned (upd_node a f s) + R + opt_mset (n_dptr n)"
    using m(2) d(7) owned_new_dptr[where f = f and p = p, OF ok a f(2)] by (simp add: add_ac)
  then have "heap_ok R ?s" unfolding heap_ok_def using m(1) by simp
  ultimately show ?thesis by (simp add: tmpfs_ok_def)
qed

lemma kmem_step:
  assumes "kmem_ok m" "kmalloc_obj m = (Some p, m')"
  shows "kmem_ok m'" "mset (live m') = add_mset p (mset (live m))" "p \<notin> set (live m)"
  using kmalloc_obj_ok[OF assms] kmalloc_obj_Some[OF assms(2)] kmalloc_obj_fresh[OF assms] by auto

lemma kmem_none: "kmem_ok m \<Longrightarrow> kmalloc_obj m = (None, m') \<Longrightarrow> kmem_ok m' \<and> live m' = live m"
  using kmalloc_obj_ok kmalloc_obj_None by blast

lemma kmem_ok_kfree: "kmem_ok m \<Longrightarrow> kmem_ok (kfree_obj p m)"
  by (auto simp: kmem_ok_def kfree_obj_def distinct_remove1 dest: notin_set_remove1)

lemma kfree_mset: "p \<in> set (live m) \<Longrightarrow> add_mset p (mset (live (kfree_obj p m))) = mset (live m)"
  by simp

lemma tmpfs_ok_fmem: "tmpfs_ok R s \<Longrightarrow> kmem_ok m \<Longrightarrow> mset (live m) = mset (live (fmem s)) \<Longrightarrow> tmpfs_ok R (s\<lparr>fmem := m\<rparr>)"
  by (simp add: tmpfs_ok_def heap_ok_def)

lemma owned_live: "tmpfs_ok R s \<Longrightarrow> t_nodes s a = Some n \<Longrightarrow> n_dptr n = Some q \<Longrightarrow> q \<in> set (live (fmem s))"
proof -
  assume ok: "tmpfs_ok R s" and a: "t_nodes s a = Some n" "n_dptr n = Some q"
  have "a \<in> set (t_list s)" using tmpfs_okD(5)[OF ok] a by auto
  then have "q \<in> set (List.map_filter (dptr_of s) (t_list s))" using a by (force simp: List.map_filter_def dptr_of_def)
  then have "q \<in># owned s" by (simp add: owned_def)
  then show ?thesis using tmpfs_okD(7)[OF ok] by (metis set_mset_mset union_iff)
qed

lemma tmpfs_reserve_result:
  assumes ok: "tmpfs_ok R s" and a: "t_nodes s a = Some n" and r: "tmpfs_reserve a wanted s = Some (b, s')"
  shows "tmpfs_ok R s'" "b \<Longrightarrow> roomier a wanted s s'" "\<not> b \<Longrightarrow> \<exists>m. s' = s\<lparr>fmem := m\<rparr>"
proof -
  note d = tmpfs_okD[OF ok]
  consider (room) "wanted \<le> n_capacity n" "b" "s' = s"
    | (nomem) m where "wanted > n_capacity n" "kmalloc_obj (fmem s) = (None, m)" "\<not> b" "s' = s\<lparr>fmem := m\<rparr>"
    | (grown) alloc p m where "wanted > n_capacity n" "grow_capacity (if n_capacity n = 0 then 256 else n_capacity n) wanted = Some alloc"
        "kmalloc_obj (fmem s) = (Some p, m)" "b"
        "s' = (upd_node a (\<lambda>n'. n'\<lparr>n_dptr := Some p, n_data := (\<lambda>i. if i < n_capacity n then n_data n i else t_junk s p i), n_capacity := alloc\<rparr>) s)
           \<lparr>fmem := (case n_dptr n of None \<Rightarrow> m | Some q \<Rightarrow> kfree_obj q m)\<rparr>"
    using r a by (auto simp: tmpfs_reserve_def Let_def split: if_splits option.splits prod.splits)
  then have "tmpfs_ok R s' \<and> (if b then roomier a wanted s s' else \<exists>m. s' = s\<lparr>fmem := m\<rparr>)"
  proof cases
    case room
    moreover have "roomier a wanted s s" unfolding roomier_def using a room(1) by (intro conjI exI[of _ n]) simp_all
    ultimately show ?thesis using ok by simp
  next
    case nomem
    have "kmem_ok m" "live m = live (fmem s)" using kmem_none[OF d(6) nomem(2)] by simp_all
    from tmpfs_ok_fmem[OF ok this(1)] this(2) show ?thesis using nomem(3,4) by auto
  next
    case grown
    have fit: "data_fits n" using d(10)[OF a] by (simp add: node_ok_def)
    have "pow_cap (if n_capacity n = 0 then 256 else n_capacity n)"
      using fit by (auto simp: data_fits_def pow_cap_def intro: exI[of _ 0])
    note g = grow_capacity_result[OF grown(2) this]
    let ?f = "\<lambda>n'. n'\<lparr>n_dptr := Some p, n_data := (\<lambda>i. if i < n_capacity n then n_data n i else t_junk s p i), n_capacity := alloc\<rparr>"
    let ?m = "case n_dptr n of None \<Rightarrow> m | Some q \<Rightarrow> kfree_obj q m"
    note k = kmem_step[OF d(6) grown(3)]
    have m: "kmem_ok ?m" "mset (live ?m) + opt_mset (n_dptr n) = mset (live (fmem s)) + opt_mset (Some p)"
      using k owned_live[OF ok a] kmem_ok_kfree by (auto split: option.splits)
    have f: "node_ok c (?f n)" if "node_ok c n" for c
      using that g grown(1) by (auto simp: node_ok_def data_fits_def node_typed_def)
    have "tmpfs_ok R s'" unfolding grown(5) by (rule tmpfs_ok_new_dptr[where f = ?f and p = "Some p", OF ok a]) (use f m in simp_all)
    moreover have "roomier a wanted s s'" unfolding roomier_def grown(5) using a g(1) grown(1) by simp
    ultimately show ?thesis using grown(4) by simp
  qed
  then show "tmpfs_ok R s'" "b \<Longrightarrow> roomier a wanted s s'" "\<not> b \<Longrightarrow> \<exists>m. s' = s\<lparr>fmem := m\<rparr>" by (auto split: if_splits)
qed

text \<open>Only the nodes, the states of open files, the files and the heap matter.\<close>

lemma tmpfs_ok_cong:
  assumes "tmpfs_ok R s" "t_list s' = t_list s" "t_nodes s' = t_nodes s" "t_states s' = t_states s" "fobjs s' = fobjs s"
    "kmem_ok (fmem s')" "mset (live (fmem s')) + R = mset (live (fmem s)) + R'"
  shows "tmpfs_ok R' s'"
proof -
  have e: "opens s' = opens s" "is_tmp s' = is_tmp s" "priv_of s' = priv_of s" "dptr_of s' = dptr_of s"
    using assms(2-5) by (simp_all add: opens_def is_tmp_def priv_of_def dptr_of_def fun_eq_iff)
  then have "owned s' = owned s" using assms(2-5) by (simp add: owned_def)
  note eq = e this
  have "mset (live (fmem s')) + R = owned s + R' + R" using assms(7) tmpfs_okD(7)[OF assms(1)] by (simp add: add_ac)
  then have "heap_ok R' s'" using assms(6) unfolding heap_ok_def eq by simp
  then show ?thesis using tmpfs_okD(1,2)[OF assms(1)] assms(2-5) unfolding tmpfs_ok_def nodes_ok_def states_ok_def eq by simp
qed

lemma tmpfs_ok_alloc:
  assumes "tmpfs_ok R s" "kmalloc_obj (fmem s) = (Some p, m)"
  shows "tmpfs_ok (add_mset p R) (s\<lparr>fmem := m\<rparr>)"
  by (rule tmpfs_ok_cong[OF assms(1)]) (use kmem_step[OF tmpfs_okD(6)[OF assms(1)] assms(2)] in simp_all)

lemma tmpfs_ok_nomem:
  assumes "tmpfs_ok R s" "kmalloc_obj (fmem s) = (None, m)"
  shows "tmpfs_ok R (s\<lparr>fmem := m\<rparr>)"
  by (rule tmpfs_ok_cong[OF assms(1)]) (use kmem_none[OF tmpfs_okD(6)[OF assms(1)] assms(2)] in simp_all)

lemma tmpfs_ok_store:
  assumes "tmpfs_ok R s" "t_nodes s a = Some n" "u64 (off + length bs) \<le> n_capacity n"
  shows "tmpfs_ok R (store_bytes now a off bs s)"
  unfolding store_bytes_def
  by (rule tmpfs_ok_upd_node[OF assms(1)]) (use assms(2,3) in \<open>auto simp: stamp_all_def node_ok_def data_fits_def node_typed_def\<close>)

lemma roomierD:
  assumes "roomier a wanted s s'"
  obtains n n' where "t_nodes s a = Some n" "t_nodes s' a = Some n'" "wanted \<le> n_capacity n'" "n_size n' = n_size n"
    "n_is_char n' = n_is_char n" "n_deleted n' = n_deleted n" "\<forall>i < n_capacity n. n_data n' i = n_data n i"
proof -
  from assms obtain n n' where n: "t_nodes s a = Some n" "t_nodes s' a = Some n'" "wanted \<le> n_capacity n'"
    "n' = n\<lparr>n_dptr := n_dptr n', n_data := n_data n', n_capacity := n_capacity n'\<rparr>" "\<forall>i < n_capacity n. n_data n' i = n_data n i"
    unfolding roomier_def by blast
  have "n_size n' = n_size n" "n_is_char n' = n_is_char n" "n_deleted n' = n_deleted n" by (subst n(4), simp)+
  then show thesis using that n by blast
qed

lemma tmpfs_driver_write_ok:
  assumes "tmpfs_ok R s" "tmpfs_driver_write now path off bs s = Some (r, s')"
  shows "tmpfs_ok R s'"
proof (cases "tmpfs_find_node (skip_slashes path) s")
  case None
  then show ?thesis using assms by (simp add: tmpfs_driver_write_def)
next
  case (Some x)
  obtain a n where x: "x = (a, n)" by force
  have a: "t_nodes s a = Some n" using tmpfs_find_node_Some[of _ s a n] Some x by blast
  show ?thesis
  proof (cases "n_deleted n \<or> n_is_char n \<or> off > n_size n")
    case True
    then show ?thesis using assms Some x by (auto simp: tmpfs_driver_write_def)
  next
    case False
    then obtain b s1 where r: "tmpfs_reserve a (u64 (off + length bs)) s = Some (b, s1)"
      using assms(2) Some x by (auto simp: tmpfs_driver_write_def split: option.splits)
    note res = tmpfs_reserve_result[OF assms(1) a r]
    show ?thesis
    proof (cases b)
      case True
      from roomierD[OF res(2)[OF True]] obtain n' where n': "t_nodes s1 a = Some n'" "u64 (off + length bs) \<le> n_capacity n'" by metis
      have "s' = store_bytes now a off bs s1" using assms(2) Some x False r True by (simp add: tmpfs_driver_write_def)
      then show ?thesis using tmpfs_ok_store[OF res(1) n'] by simp
    next
      case nb: False
      have "s' = s1" using assms(2) Some x False r nb by (simp add: tmpfs_driver_write_def)
      then show ?thesis using res(1) by simp
    qed
  qed
qed

lemma tmpfs_driver_write_all_ok:
  assumes "tmpfs_ok R s" "tmpfs_driver_write_all now path bs s = Some (r, s')"
  shows "tmpfs_ok R s'"
proof (cases "tmpfs_find_node (skip_slashes path) s")
  case None
  then show ?thesis using assms by (simp add: tmpfs_driver_write_all_def)
next
  case (Some x)
  obtain a n where x: "x = (a, n)" by force
  have a: "t_nodes s a = Some n" using tmpfs_find_node_Some[of _ s a n] Some x by blast
  show ?thesis
  proof (cases "n_deleted n")
    case True
    then show ?thesis using assms Some x by (simp add: tmpfs_driver_write_all_def)
  next
    case False
    then obtain b s1 where r: "tmpfs_reserve a (length bs) s = Some (b, s1)"
      using assms(2) Some x by (auto simp: tmpfs_driver_write_all_def split: option.splits)
    note res = tmpfs_reserve_result[OF assms(1) a r]
    show ?thesis
    proof (cases b)
      case True
      from roomierD[OF res(2)[OF True]] obtain n' where n': "t_nodes s1 a = Some n'" "length bs \<le> n_capacity n'" by metis
      have "s' = upd_node a (\<lambda>n. stamp_all now (n\<lparr>n_data := buffer_put 0 bs (n_data n), n_size := length bs\<rparr>)) s1"
        using assms(2) Some x False r True by (simp add: tmpfs_driver_write_all_def)
      moreover have "tmpfs_ok R \<dots>"
        by (rule tmpfs_ok_upd_node[OF res(1)]) (use n' in \<open>auto simp: stamp_all_def node_ok_def data_fits_def node_typed_def\<close>)
      ultimately show ?thesis by simp
    next
      case nb: False
      have "s' = s1" using assms(2) Some x False r nb by (simp add: tmpfs_driver_write_all_def)
      then show ?thesis using res(1) by simp
    qed
  qed
qed

text \<open>Where a write goes: at the offset, or at the end with \<^verbatim>\<open>O_APPEND\<close>.\<close>

definition write_offset :: "tmpfs_file_state \<Rightarrow> tmpfs_node \<Rightarrow> nat" where
  "write_offset ts n = (if ts_flags ts AND O_APPEND \<noteq> 0 then n_size n else ts_offset ts)"

lemma tmpfs_write_impl_eq:
  assumes "open_node f s = Inr (st, ts, n)" "\<not> n_is_char n"
  defines "off \<equiv> write_offset ts n"
  shows "tmpfs_write_impl now f (Some bs) s =
     (case tmpfs_reserve (ts_node ts) (u64 (off + length bs)) (set_offset st off s) of
        None \<Rightarrow> None | Some (False, s2) \<Rightarrow> Some (Inl ENOMEM, s2)
      | Some (True, s2) \<Rightarrow> Some (Inr (length bs), store_bytes now (ts_node ts) off bs (set_offset st (u64 (off + length bs)) s2)))"
  using assms(2) unfolding tmpfs_write_impl_def assms(1) off_def write_offset_def Let_def option.case sum.case prod.case by (simp only: if_False)

lemma open_nodeD:
  "open_node f s = Inr (st, ts, n) \<Longrightarrow> priv_of s f = Some st \<and> t_states s st = Some ts \<and> t_nodes s (ts_node ts) = Some n \<and> \<not> n_deleted n"
  by (auto simp: open_node_def split: option.splits if_splits)

lemma tmpfs_write_impl_ok:
  assumes "tmpfs_ok R s" "tmpfs_write_impl now f buffer s = Some (r, s')"
  shows "tmpfs_ok R s'"
proof (cases "\<exists>bs st ts n. buffer = Some bs \<and> open_node f s = Inr (st, ts, n) \<and> \<not> n_is_char n")
  case False
  then have "s' = s" using assms(2) by (auto simp: tmpfs_write_impl_def split: option.splits sum.splits if_splits)
  then show ?thesis using assms(1) by simp
next
  case True
  then obtain bs st ts n where b: "buffer = Some bs" "open_node f s = Inr (st, ts, n)" "\<not> n_is_char n" by blast
  define off where "off = write_offset ts n"
  let ?s1 = "set_offset st off s" and ?fin = "u64 (off + length bs)"
  have a: "t_nodes ?s1 (ts_node ts) = Some n" using open_nodeD[OF b(2)] by simp
  note w = tmpfs_write_impl_eq[OF b(2,3), of now bs, folded off_def b(1)]
  obtain ok s2 where r: "tmpfs_reserve (ts_node ts) ?fin ?s1 = Some (ok, s2)"
    using w assms(2) by (auto split: option.splits)
  note res = tmpfs_reserve_result[OF tmpfs_ok_set_offset[OF assms(1)] a r]
  show ?thesis
  proof (cases ok)
    case True
    from roomierD[OF res(2)[OF True]] obtain n' where n': "t_nodes s2 (ts_node ts) = Some n'" "?fin \<le> n_capacity n'" by metis
    have "tmpfs_ok R (store_bytes now (ts_node ts) off bs (set_offset st ?fin s2))"
      by (rule tmpfs_ok_store[OF tmpfs_ok_set_offset[OF res(1)]]) (use n' in simp_all)
    then show ?thesis using assms(2) w r True by simp
  next
    case nb: False
    then show ?thesis using assms(2) w r res(1) by simp
  qed
qed

lemma tmpfs_ok_touch:
  assumes "tmpfs_ok R s"
  shows "tmpfs_ok R (upd_node a (\<lambda>n. n\<lparr>n_atime := t\<rparr>) s)"
  by (rule tmpfs_ok_upd_node[OF assms]) (auto simp: node_ok_def data_fits_def node_typed_def)

lemma tmpfs_read_ok: "tmpfs_ok R s \<Longrightarrow> tmpfs_ok R (snd (tmpfs_read now path off len s))"
  by (auto simp: tmpfs_read_def Let_def tmpfs_ok_touch split: option.splits)

lemma tmpfs_read_impl_ok: "tmpfs_ok R s \<Longrightarrow> tmpfs_ok R (snd (tmpfs_read_impl now f buffer len s))"
  by (auto simp: tmpfs_read_impl_def Let_def tmpfs_ok_touch tmpfs_ok_set_offset split: option.splits sum.splits)

lemma tmpfs_read_all_ok:
  assumes "tmpfs_ok R s" "tmpfs_read_all now path s = (r, s')"
  shows "tmpfs_ok (case r of None \<Rightarrow> R | Some (p, _) \<Rightarrow> add_mset p R) s'"
proof (cases "r = None")
  case True
  then have "s' = s \<or> (\<exists>m. kmalloc_obj (fmem s) = (None, m) \<and> s' = s\<lparr>fmem := m\<rparr>)"
    using assms(2) by (auto simp: tmpfs_read_all_def split: option.splits prod.splits if_splits)
  then show ?thesis using assms(1) True tmpfs_ok_nomem by auto
next
  case False
  then obtain p bs a m where "r = Some (p, bs)" "kmalloc_obj (fmem s) = (Some p, m)"
    "s' = (upd_node a (\<lambda>n. n\<lparr>n_atime := timespec_of_us now\<rparr>) s)\<lparr>fmem := m\<rparr>"
    using assms(2) by (auto simp: tmpfs_read_all_def split: option.splits prod.splits if_splits)
  then show ?thesis using tmpfs_ok_alloc[OF tmpfs_ok_touch[OF assms(1)]] by simp
qed

lemma set_mode_type: "n_mode (set_mode now mode n) AND S_IFMT = n_mode n AND S_IFMT"
  unfolding set_mode_def by (rule bit_eqI) (auto simp: bit_simps)

lemma set_mode_other:
  "n_size (set_mode now mode n) = n_size n" "n_capacity (set_mode now mode n) = n_capacity n" "n_dptr (set_mode now mode n) = n_dptr n"
  "n_is_char (set_mode now mode n) = n_is_char n" "n_char (set_mode now mode n) = n_char n" "n_name (set_mode now mode n) = n_name n"
  "n_refcount (set_mode now mode n) = n_refcount n" "n_deleted (set_mode now mode n) = n_deleted n"
  by (simp_all add: set_mode_def)

lemma node_ok_set_mode: "node_ok c (set_mode now mode n) = node_ok c n"
  unfolding node_ok_def data_fits_def node_typed_def set_mode_type set_mode_other by (rule refl)

lemma node_ok_set_times: "node_ok c n \<Longrightarrow> node_ok c (set_times now now2 tms n)"
  by (auto simp: node_ok_def data_fits_def node_typed_def set_times_def split: option.splits prod.splits)

lemma tmpfs_ok_meta:
  assumes "tmpfs_ok R s"
  shows "tmpfs_ok R (snd (tmpfs_chmod now path mode s))" "tmpfs_ok R (snd (tmpfs_utimens now now2 path tms s))"
    "tmpfs_ok R (snd (tmpfs_file_chmod_impl now f mode s))" "tmpfs_ok R (snd (tmpfs_file_utimens_impl now now2 f tms s))"
proof -
  have m: "tmpfs_ok R (upd_node a (set_mode now mode) s)" for a
    by (rule tmpfs_ok_upd_node[OF assms]) (simp add: node_ok_set_mode set_mode_other)
  have t: "tmpfs_ok R (upd_node a (set_times now now2 tms) s)" for a
    by (rule tmpfs_ok_upd_node[OF assms]) (auto simp: node_ok_set_times, auto simp: set_times_def split: option.splits prod.splits)
  show "tmpfs_ok R (snd (tmpfs_chmod now path mode s))" "tmpfs_ok R (snd (tmpfs_utimens now now2 path tms s))"
    using assms m t by (auto simp: tmpfs_chmod_def tmpfs_utimens_def by_path_def split: option.splits)
  show "tmpfs_ok R (snd (tmpfs_file_chmod_impl now f mode s))" "tmpfs_ok R (snd (tmpfs_file_utimens_impl now now2 f tms s))"
    using assms m t by (auto simp: tmpfs_file_chmod_impl_def tmpfs_file_utimens_impl_def split: sum.splits)
qed

lemma tmpfs_seek_ok: "tmpfs_ok R s \<Longrightarrow> tmpfs_ok R (snd (tmpfs_seek_impl f off wh s))"
  by (auto simp: tmpfs_seek_impl_def Let_def tmpfs_ok_set_offset split: option.splits)

section \<open>Creating and removing nodes\<close>

lemma owned_parts_live:
  assumes "tmpfs_ok R s"
  shows "a \<in> set (t_list s) \<Longrightarrow> a \<in> set (live (fmem s))" "st \<in> dom (t_states s) \<Longrightarrow> st \<in> set (live (fmem s))"
    "f \<in> dom (fobjs s) \<Longrightarrow> f \<in> set (live (fmem s))"
proof -
  note d = tmpfs_okD[OF assms]
  have "x \<in># owned s \<Longrightarrow> x \<in> set (live (fmem s))" for x using d(7) by (metis set_mset_mset union_iff)
  then show "a \<in> set (t_list s) \<Longrightarrow> a \<in> set (live (fmem s))" "st \<in> dom (t_states s) \<Longrightarrow> st \<in> set (live (fmem s))"
    "f \<in> dom (fobjs s) \<Longrightarrow> f \<in> set (live (fmem s))" using d(8,9) by (auto simp: owned_def)
qed

lemma fresh_address:
  assumes "tmpfs_ok R s" "kmalloc_obj (fmem s) = (Some p, m)"
  shows "t_nodes s p = None" "t_states s p = None" "fobjs s p = None" "p \<notin> set (t_list s)" "opens s p = {}"
proof -
  note d = tmpfs_okD[OF assms(1)]
  have nl: "p \<notin> set (live (fmem s))" by (rule kmem_step(3)[OF d(6) assms(2)])
  show "p \<notin> set (t_list s)" "t_states s p = None" "fobjs s p = None" using nl owned_parts_live[OF assms(1)] by blast+
  then show "t_nodes s p = None" using d(5) by auto
  then show "opens s p = {}" using d(11) by (fastforce simp: opens_def)
qed

lemma tmpfs_ok_add_node:
  assumes ok: "tmpfs_ok R s" and k: "kmalloc_obj (fmem s) = (Some a, m)" and n: "node_ok 0 n" "n_dptr n = None"
    and s': "t_list s' = a # t_list s" "t_nodes s' = (t_nodes s)(a \<mapsto> n)" "t_states s' = t_states s" "fobjs s' = fobjs s" "fmem s' = m"
  shows "tmpfs_ok R s'"
proof -
  note d = tmpfs_okD[OF ok] and f = fresh_address[OF ok k] and h = kmem_step[OF d(6) k]
  have e: "opens s' = opens s" "is_tmp s' = is_tmp s" "priv_of s' = priv_of s"
    by (simp_all add: opens_def is_tmp_def priv_of_def fun_eq_iff s')
  have "nodes_ok s'" unfolding nodes_ok_def e using d(4,5,10) f(1,4,5) n(1) by (auto simp: s' split: if_splits)
  moreover have "states_ok s'" using d(2) unfolding states_ok_def e by (auto simp: s')
  moreover have "List.map_filter (dptr_of s') (t_list s) = List.map_filter (dptr_of s) (t_list s)"
    using f(4) by (intro map_filter_cong) (auto simp: dptr_of_def s')
  then have "owned s' = add_mset a (owned s)" using n(2) by (simp add: owned_def s' dptr_of_def)
  then have "heap_ok R s'" using h d(7) by (simp add: heap_ok_def s')
  ultimately show ?thesis by (simp add: tmpfs_ok_def)
qed

text \<open>A node that is not open can be detached.\<close>

lemma detach_fields:
  assumes "a \<in> set (t_list s)" "t_nodes s a = Some n"
  shows "t_list (tmpfs_detach_node a s) = remove1 a (t_list s)" "t_nodes (tmpfs_detach_node a s) = (t_nodes s)(a := None)"
    "t_states (tmpfs_detach_node a s) = t_states s" "fobjs (tmpfs_detach_node a s) = fobjs s"
    "fmem (tmpfs_detach_node a s) = kfree_obj a (case n_dptr n of None \<Rightarrow> fmem s | Some p \<Rightarrow> kfree_obj p (fmem s))"
  using assms by (simp_all add: tmpfs_detach_node_def drop_node_def Let_def split: option.splits)

lemma tmpfs_ok_detach:
  assumes ok: "tmpfs_ok R s" and a: "t_nodes s a = Some n" "opens s a = {}"
  shows "tmpfs_ok R (tmpfs_detach_node a s)"
proof -
  note d = tmpfs_okD[OF ok]
  have mem: "a \<in> set (t_list s)" using a d(5) by auto
  define s' where "s' = tmpfs_detach_node a s"
  note s' = detach_fields[OF mem a(1), folded s'_def]
  have e: "opens s' = opens s" "is_tmp s' = is_tmp s" "priv_of s' = priv_of s"
    by (simp_all add: opens_def is_tmp_def priv_of_def fun_eq_iff s')
  have set: "set (remove1 a (t_list s)) = dom (t_nodes s) - {a}" using d(4,5) by simp
  have "nodes_ok s'" unfolding nodes_ok_def e using d(4,10) set by (auto simp: s' split: if_splits)
  moreover have "ts_node ts \<noteq> a" if "t_states s st = Some ts" for st ts using a(2) that by (auto simp: opens_def)
  then have "states_ok s'" using d(2) unfolding states_ok_def e by (auto simp: s')
  moreover have own: "owned s = add_mset a (owned s' + opt_mset (n_dptr n))"
  proof -
    have "mset (t_list s) = add_mset a (mset (remove1 a (t_list s)))" using mem by simp
    moreover have "List.map_filter (dptr_of s') (remove1 a (t_list s)) = List.map_filter (dptr_of s) (remove1 a (t_list s))"
      using set by (intro map_filter_cong) (auto simp: dptr_of_def s'(2))
    moreover have "mset (List.map_filter (dptr_of s) (t_list s)) = opt_mset (n_dptr n) + mset (List.map_filter (dptr_of s) (remove1 a (t_list s)))"
      using split_list_first[OF mem] a(1) by (force simp: dptr_of_def remove1_append List.map_filter_def opt_mset_def split: option.splits)
    ultimately show ?thesis by (simp add: owned_def s'(1,3,4) add_ac)
  qed
  have "kmem_ok (fmem s')" using d(6) by (auto simp: s'(5) kmem_ok_kfree split: option.splits)
  moreover have "mset (live (fmem s')) = owned s' + R" using d(7) own by (auto simp: s'(5) split: option.splits)
  ultimately show ?thesis by (simp add: tmpfs_ok_def heap_ok_def flip: s'_def)
qed

lemma tmpfs_ok_create:
  assumes ok: "tmpfs_ok R s" and name: "name \<noteq> []" "CHR ''/'' \<notin> set name"
  shows "tmpfs_create_node now name (S_IFREG OR 0x1A4) s = (x, s') \<Longrightarrow> tmpfs_ok R s'"
    and "tmpfs_ok R (snd (mknod_new now name mode dev d s))"
proof -
  have typed: "CHR ''/'' \<notin> set (take 127 name)" "take 127 name \<noteq> []" using name by (auto dest: in_set_takeD)
  have chr: "((mode AND 0xFFF) OR S_IFCHR) AND S_IFMT = S_IFCHR" for mode :: u32w
  proof -
    have "(mode AND 0xFFF) AND S_IFMT = mode AND (0xFFF AND S_IFMT)" by (simp add: and.assoc)
    also have "\<dots> = 0" by (simp add: S_IFMT_def)
    finally have "(mode AND 0xFFF) AND S_IFMT = 0" .
    moreover have "S_IFCHR AND S_IFMT = S_IFCHR" by (simp add: S_IFCHR_def S_IFMT_def)
    ultimately show ?thesis unfolding bit.conj_disj_distrib2 by simp
  qed
  show "tmpfs_ok R s'" if "tmpfs_create_node now name (S_IFREG OR 0x1A4) s = (x, s')"
  proof (cases "fst (kmalloc_obj (fmem s))")
    case None
    then show ?thesis using that tmpfs_ok_nomem[OF ok] by (auto simp: tmpfs_create_node_def split: prod.splits)
  next
    case (Some a)
    then obtain m where k: "kmalloc_obj (fmem s) = (Some a, m)" by (cases "kmalloc_obj (fmem s)") auto
    show ?thesis
      by (rule tmpfs_ok_add_node[OF ok k, of "the (t_nodes s' a)"])
         (use that k typed in \<open>auto simp: tmpfs_create_node_def Let_def node_ok_def data_fits_def pow_cap_def node_typed_def
           S_ISCHR_def S_IFREG_def S_IFCHR_def S_IFMT_def\<close>)
  qed
  show "tmpfs_ok R (snd (mknod_new now name mode dev d s))"
  proof (cases "fst (kmalloc_obj (fmem s))")
    case None
    then show ?thesis using tmpfs_ok_nomem[OF ok] by (auto simp: mknod_new_def tmpfs_create_node_def split: prod.splits)
  next
    case (Some a)
    then obtain m where k: "kmalloc_obj (fmem s) = (Some a, m)" by (cases "kmalloc_obj (fmem s)") auto
    let ?s = "snd (mknod_new now name mode dev d s)"
    show ?thesis
      by (rule tmpfs_ok_add_node[OF ok k, of "the (t_nodes ?s a)"])
         (use k typed chr[of mode] in \<open>auto simp: mknod_new_def tmpfs_create_node_def Let_def node_ok_def data_fits_def pow_cap_def
           node_typed_def upd_node_def\<close>)
  qed
qed

section \<open>Opening and closing\<close>

lemma finite_opens: "finite (dom (t_states s)) \<Longrightarrow> finite (opens s a)"
  by (rule finite_subset[of _ "dom (t_states s)"]) (auto simp: opens_def)

lemma card_opens_le: "finite (dom (t_states s)) \<Longrightarrow> card (opens s a) \<le> card (dom (t_states s))"
  by (rule card_mono) (auto simp: opens_def)

lemma tmpfs_ok_enter:
  assumes ok: "tmpfs_ok R s" and a: "t_nodes s a = Some n" and fresh: "t_states s st = None" "fobjs s f = None"
    and ts: "ts_node ts = a" and ob: "f_ops ob = Some tmpfs_file_ops" "f_private ob = Some st"
    and room: "card (dom (t_states s)) < 2 ^ 32 - 1"
    and s': "t_list s' = t_list s" "t_nodes s' = (t_nodes s)(a \<mapsto> n\<lparr>n_refcount := Suc (n_refcount n)\<rparr>)"
      "t_states s' = (t_states s)(st \<mapsto> ts)" "fobjs s' = (fobjs s)(f \<mapsto> ob)" "kmem_ok (fmem s')"
      "mset (live (fmem s')) = add_mset st (add_mset f (mset (live (fmem s))))"
  shows "tmpfs_ok R s'"
proof -
  note d = tmpfs_okD[OF ok]
  have op: "opens s' b = (if b = a then insert st (opens s a) else opens s b)" for b
    using fresh(1) ts by (auto simp: opens_def s'(3))
  have st: "st \<notin> opens s a" using fresh(1) by (auto simp: opens_def)
  have "node_ok (card (opens s' b)) nb" if "t_nodes s' b = Some nb" for b nb
  proof (cases "b = a")
    case True
    then have "card (opens s' b) = Suc (card (opens s a))" using op finite_opens[OF d(8)] st by simp
    then show ?thesis using d(10)[OF a] that True by (auto simp: s'(2) node_ok_def data_fits_def node_typed_def)
  next
    case False
    then show ?thesis using d(10)[of b] that op by (simp add: s'(2))
  qed
  then have "nodes_ok s'" using d(4,5) a unfolding nodes_ok_def s'(1,2) by auto
  moreover have tmp: "{g. is_tmp s' g} = insert f {g. is_tmp s g}" using ob fresh(2) by (auto simp: is_tmp_def s'(4))
  have "states_ok s'"
  proof -
    have "f \<notin> {g. is_tmp s g}" using fresh(2) by (simp add: is_tmp_def)
    moreover have "priv_of s' f = Some st" using ob by (simp add: priv_of_def s'(4))
    moreover have "\<forall>g \<in> {g. is_tmp s g}. priv_of s' g = priv_of s g" using calculation(1) by (auto simp: priv_of_def s'(4) is_tmp_def)
    moreover have "bij_betw (priv_of s) {g. is_tmp s g} (Some ` dom (t_states s))" using d(2) by (simp add: states_ok_def)
    moreover from this calculation(3) have "bij_betw (priv_of s') {g. is_tmp s g} (Some ` dom (t_states s))" by (metis bij_betw_cong)
    ultimately have "bij_betw (priv_of s') (insert f {g. is_tmp s g}) (insert (Some st) (Some ` dom (t_states s)))"
      using fresh(1) notIn_Un_bij_betw[of f "{g. is_tmp s g}" "priv_of s'" "Some ` dom (t_states s)"] by (auto simp: domIff)
    moreover have "card (dom (t_states s')) < 2 ^ 32" using room fresh(1) d(8) by (simp add: s'(3) domIff)
    moreover have "ts_node t \<in> dom (t_nodes s')" if "t_states s' x = Some t" for x t
      using that d(11)[of x t] ts by (auto simp: s'(2,3) split: if_splits)
    ultimately show ?thesis using d(8,9) unfolding states_ok_def tmp by (simp add: s'(3,4))
  qed
  moreover have "dptr_of s' = dptr_of s" using a by (auto simp: dptr_of_def s'(2) fun_eq_iff)
  then have "owned s' = add_mset st (add_mset f (owned s))" using fresh d(8,9) by (simp add: owned_def s'(1,3,4) domIff)
  then have "heap_ok R s'" using s'(5,6) d(7) by (simp add: heap_ok_def)
  ultimately show ?thesis by (simp add: tmpfs_ok_def)
qed

lemma tmpfs_ok_leave:
  assumes ok: "tmpfs_ok R s" and f: "is_tmp s f" "priv_of s f = Some st" "t_states s st = Some ts" "ts_node ts = a"
    and n: "t_nodes s a = Some n" "n_deleted n \<Longrightarrow> 1 < n_refcount n"
    and s': "t_list s' = t_list s" "t_nodes s' = (t_nodes s)(a \<mapsto> n\<lparr>n_refcount := n_refcount n - 1\<rparr>)"
      "t_states s' = (t_states s)(st := None)" "fobjs s' = (fobjs s)(f := None)" "kmem_ok (fmem s')"
      "add_mset st (add_mset f (mset (live (fmem s')))) = mset (live (fmem s))"
  shows "tmpfs_ok R s'"
proof -
  note d = tmpfs_okD[OF ok]
  have op: "opens s' b = (if b = a then opens s a - {st} else opens s b)" for b
    using f(3,4) by (auto simp: opens_def s'(3))
  have st: "st \<in> opens s a" using f(3,4) by (auto simp: opens_def)
  have "node_ok (card (opens s' b)) nb" if "t_nodes s' b = Some nb" for b nb
  proof (cases "b = a")
    case True
    then have "card (opens s' b) = card (opens s a) - 1" using op finite_opens[OF d(8)] st by simp
    then show ?thesis using d(10)[OF n(1)] n(2) that True by (auto simp: s'(2) node_ok_def data_fits_def node_typed_def)
  next
    case False
    then show ?thesis using d(10)[of b] that op by (simp add: s'(2))
  qed
  then have "nodes_ok s'" using d(4,5) n(1) unfolding nodes_ok_def s'(1,2) by auto
  moreover have tmp: "{g. is_tmp s' g} = {g. is_tmp s g} - {f}" by (auto simp: is_tmp_def s'(4))
  have "states_ok s'"
  proof -
    have bij: "bij_betw (priv_of s) {g. is_tmp s g} (Some ` dom (t_states s))" using d(2) by (simp add: states_ok_def)
    have "bij_betw (priv_of s) ({g. is_tmp s g} - {f}) (Some ` dom (t_states s) - {Some st})"
      using bij_betw_DiffI[OF bij, of "{f}" "{Some st}"] f(1-3) by auto
    moreover have "Some ` dom (t_states s) - {Some st} = Some ` dom (t_states s')" by (auto simp: s'(3))
    moreover have "\<forall>g \<in> {g. is_tmp s g} - {f}. priv_of s' g = priv_of s g" by (auto simp: priv_of_def s'(4))
    ultimately have "bij_betw (priv_of s') ({g. is_tmp s g} - {f}) (Some ` dom (t_states s'))" by (metis bij_betw_cong)
    moreover have "card (dom (t_states s')) \<le> card (dom (t_states s))" using d(8) by (intro card_mono) (auto simp: s'(3))
    moreover have "card (dom (t_states s)) < 2 ^ 32" using d(2) by (simp add: states_ok_def)
    moreover have "ts_node t \<in> dom (t_nodes s')" if "t_states s' x = Some t" for x t
      using that d(11)[of x t] n(1) by (auto simp: s'(2,3) split: if_splits)
    ultimately show ?thesis using d(8,9) unfolding states_ok_def tmp by (simp add: s'(3,4))
  qed
  moreover have "dptr_of s' = dptr_of s" using n(1) by (auto simp: dptr_of_def s'(2) fun_eq_iff)
  then have "owned s = add_mset st (add_mset f (owned s'))"
  proof -
    have "f \<in> dom (fobjs s)" "st \<in> dom (t_states s)" using f(1,3) by (auto simp: is_tmp_def)
    then have "mset_set (dom (fobjs s)) = add_mset f (mset_set (dom (fobjs s) - {f}))"
      "mset_set (dom (t_states s)) = add_mset st (mset_set (dom (t_states s) - {st}))" using d(8,9) by (simp_all add: mset_set.remove)
    then show ?thesis using \<open>dptr_of s' = dptr_of s\<close> by (simp add: owned_def s'(1,3,4))
  qed
  then have "heap_ok R s'" using s'(5,6) d(7) by (simp add: heap_ok_def)
  ultimately show ?thesis by (simp add: tmpfs_ok_def)
qed

lemma tmpfs_ok_other_file:
  assumes ok: "tmpfs_ok R s"
    and tmp: "\<And>g. is_tmp s' g = is_tmp s g" "\<And>g. is_tmp s g \<Longrightarrow> priv_of s' g = priv_of s g"
    and s': "t_list s' = t_list s" "t_nodes s' = t_nodes s" "t_states s' = t_states s" "finite (dom (fobjs s'))" "kmem_ok (fmem s')"
      "mset (live (fmem s')) + mset_set (dom (fobjs s)) = mset (live (fmem s)) + mset_set (dom (fobjs s'))"
  shows "tmpfs_ok R s'"
proof -
  note d = tmpfs_okD[OF ok]
  have e: "opens s' = opens s" "dptr_of s' = dptr_of s" by (simp_all add: opens_def dptr_of_def fun_eq_iff s')
  have "nodes_ok s'" using d(1) unfolding nodes_ok_def e by (simp add: s')
  moreover have "bij_betw (priv_of s') {g. is_tmp s' g} (Some ` dom (t_states s)) = bij_betw (priv_of s) {g. is_tmp s g} (Some ` dom (t_states s))"
    unfolding tmp(1) by (rule bij_betw_cong) (use tmp(2) in auto)
  then have "states_ok s'" using d(2) s'(4) unfolding states_ok_def by (simp add: s')
  moreover have "mset (live (fmem s')) + mset_set (dom (fobjs s)) = owned s' + R + mset_set (dom (fobjs s))"
    unfolding s'(6) d(7) by (simp add: owned_def e s' add_ac)
  then have "heap_ok R s'" using s'(5) by (simp add: heap_ok_def)
  ultimately show ?thesis by (simp add: tmpfs_ok_def)
qed

lemma file_create_cases:
  assumes "file_create ops priv md s = (x, s')"
  obtains (nomem) m e where "x = None" "kmalloc_obj (fmem s) = (None, m)" "s' = s\<lparr>fmem := m, err_no := e\<rparr>"
  | (made) f m where "x = Some f" "kmalloc_obj (fmem s) = (Some f, m)"
      "s' = s\<lparr>fmem := m, fobjs := (fobjs s)(f \<mapsto> \<lparr>f_ops = ops, f_private = priv, f_refcount = 1, f_mode = md\<rparr>)\<rparr>"
  using assms by (auto simp: file_create_def set_err_def split: prod.splits option.splits)

lemma u32_inc_dec: "c < 2 ^ 32 - 1 \<Longrightarrow> u32 (u32 (c + 1) + (2 ^ 32 - 1)) = c"
  by (simp add: u32_def)

lemma hold_unhold:
  assumes "t_nodes s a = Some n" "n_refcount n < 2 ^ 32 - 1"
  shows "t_nodes (unhold a (upd_node a (\<lambda>n. n\<lparr>n_refcount := u32 (n_refcount n + 1)\<rparr>) s)) = t_nodes s"
  using assms u32_inc_dec[OF assms(2)] by (auto simp: unhold_def fun_eq_iff upd_node_def)

lemma open_file_ok:
  assumes ok: "tmpfs_ok R s" and a: "t_nodes s a = Some n" and room: "card (dom (t_states s)) < 2 ^ 32 - 1"
  shows "tmpfs_ok R (snd (open_file a flags s))"
proof -
  note d = tmpfs_okD[OF ok]
  have c: "n_refcount n < 2 ^ 32 - 1" "n_refcount n = card (opens s a)" "n_deleted n \<longrightarrow> 0 < n_refcount n"
    using d(10)[OF a] card_opens_le[OF d(8), of a] room by (auto simp: node_ok_def)
  let ?f = "\<lambda>n. n\<lparr>n_refcount := u32 (n_refcount n + 1)\<rparr>"
  let ?s1 = "upd_node a ?f s"
  note restored = hold_unhold[OF a c(1)]
  show ?thesis
  proof (cases "fst (kmalloc_obj (fmem s))")
    case None
    then obtain m where k: "kmalloc_obj (fmem s) = (None, m)" by (cases "kmalloc_obj (fmem s)") auto
    have e: "snd (open_file a flags s) = unhold a (?s1\<lparr>fmem := m\<rparr>)" using k by (simp add: open_file_def Let_def)
    have "t_nodes (unhold a (?s1\<lparr>fmem := m\<rparr>)) = t_nodes s" using restored by (auto simp: unhold_def upd_node_def)
    then show ?thesis unfolding e by (intro tmpfs_ok_cong[OF ok]) (use kmem_none[OF d(6) k] in \<open>simp_all add: unhold_def\<close>)
  next
    case (Some st)
    then obtain m where k: "kmalloc_obj (fmem s) = (Some st, m)" by (cases "kmalloc_obj (fmem s)") auto
    note h = kmem_step[OF d(6) k] and fr = fresh_address[OF ok k]
    define ts where "ts = \<lparr>ts_node = a, ts_offset = (if flags AND O_APPEND \<noteq> 0 then (case t_nodes ?s1 a of Some n \<Rightarrow> n_size n | None \<Rightarrow> 0) else 0), ts_flags = flags\<rparr>"
    define s2 where "s2 = ?s1\<lparr>fmem := m, t_states := (t_states ?s1)(st \<mapsto> ts)\<rparr>"
    obtain x s3 where fc: "file_create (Some tmpfs_file_ops) (Some st) (requested_mode flags) s2 = (x, s3)" by force
    have e: "open_file a flags s = (case x of Some f \<Rightarrow> (Inr f, s3) | None \<Rightarrow>
        (Inl ENOMEM, (reap_node a (unhold a s3))\<lparr>t_states := (t_states (reap_node a (unhold a s3)))(st := None),
           fmem := kfree_obj st (fmem (reap_node a (unhold a s3)))\<rparr>))"
    proof -
      have k1: "kmalloc_obj (fmem ?s1) = (Some st, m)" using k by simp
      show ?thesis unfolding open_file_def Let_def k1 prod.case option.case ts_def[symmetric] s2_def[symmetric] fc by (cases x) simp_all
    qed
    have s2: "fmem s2 = m" "t_list s2 = t_list s" "fobjs s2 = fobjs s" "t_nodes s2 = t_nodes ?s1" "t_states s2 = (t_states s)(st \<mapsto> ts)"
      by (simp_all add: s2_def)
    from fc show ?thesis
    proof (cases rule: file_create_cases)
      case (made f m')
      note h' = kmem_step[OF h(1) made(2)[unfolded s2(1)]]
      have "f \<notin> set (live (fmem s))" using h'(3) h(2) by (metis insert_iff set_mset_add_mset_insert set_mset_mset)
      then have ff: "fobjs s f = None" using owned_parts_live(3)[OF ok] by blast
      have "u32 (n_refcount n + 1) = Suc (n_refcount n)" using c(1) by (simp add: u32_def)
      then have nodes: "t_nodes ?s1 = (t_nodes s)(a \<mapsto> n\<lparr>n_refcount := Suc (n_refcount n)\<rparr>)" using a by (auto simp: upd_node_def)
      have "tmpfs_ok R s3" unfolding made(3)
        by (rule tmpfs_ok_enter[OF ok a fr(2) ff _ _ _ room, where ts = ts]) (use h h' nodes in \<open>simp_all add: s2 ts_def\<close>)
      then show ?thesis using e made(1) by simp
    next
      case (nomem m' er)
      have live: "kmem_ok m'" "live m' = live m" using kmem_none[OF h(1) nomem(2)[unfolded s2(1)]] by simp_all
      have nodes: "t_nodes (unhold a s3) = t_nodes s" using restored unfolding nomem(3) s2_def by (auto simp: unhold_def upd_node_def)
      then have reap: "reap_node a (unhold a s3) = unhold a s3" using a c(3) by (auto simp: reap_node_def)
      have "snd (open_file a flags s) = (unhold a s3)\<lparr>t_states := (t_states s)(st := None), fmem := kfree_obj st m'\<rparr>"
        using e nomem(1,3) reap by (simp add: unhold_def s2)
      moreover have "tmpfs_ok R \<dots>"
        by (rule tmpfs_ok_cong[OF ok]) (use nodes fr(2) live h kmem_ok_kfree in \<open>auto simp: nomem(3) unhold_def s2\<close>)
      ultimately show ?thesis by simp
    qed
  qed
qed

lemma count_update_ok:
  assumes ok: "tmpfs_ok R s" and f: "fobjs s f = Some ob"
  shows "tmpfs_ok R (s\<lparr>fobjs := (fobjs s)(f \<mapsto> ob\<lparr>f_refcount := c\<rparr>)\<rparr>)"
proof -
  have "dom ((fobjs s)(f \<mapsto> ob\<lparr>f_refcount := c\<rparr>)) = dom (fobjs s)" using f by auto
  then show ?thesis using tmpfs_okD[OF ok]
    by (intro tmpfs_ok_other_file[OF ok]) (use f in \<open>auto simp: is_tmp_def priv_of_def\<close>)
qed

lemma file_ref_ok: "tmpfs_ok R s \<Longrightarrow> tmpfs_ok R (file_ref file s)"
proof -
  assume ok: "tmpfs_ok R s"
  show "tmpfs_ok R (file_ref file s)"
  proof (cases "\<exists>f ob. file = Some f \<and> fobjs s f = Some ob")
    case True
    then show ?thesis using count_update_ok[OF ok] by (auto simp: file_ref_def)
  next
    case False
    then have "file_ref file s = s" by (auto simp: file_ref_def split: option.splits intro!: tmpfs_sys.equality)
    then show ?thesis using ok by simp
  qed
qed

text \<open>The last reference to a file goes: a file of this system gives up its state and perhaps its node.\<close>

lemma destroy_other_ok:
  assumes ok: "tmpfs_ok R s" and f: "fobjs s f = Some ob" "f_ops ob \<noteq> Some tmpfs_file_ops"
  shows "tmpfs_ok R (s\<lparr>fmem := kfree_obj f (fmem s), fobjs := (fobjs s)(f := None)\<rparr>)"
proof -
  note d = tmpfs_okD[OF ok]
  have l: "f \<in> set (live (fmem s))" using owned_parts_live(3)[OF ok] f(1) by auto
  have "f \<in> dom (fobjs s)" using f(1) by auto
  then have "mset_set (dom (fobjs s)) = add_mset f (mset_set (dom (fobjs s) - {f}))" using d(9) by (simp add: mset_set.remove)
  then show ?thesis
    using kfree_mset[OF l] kmem_ok_kfree[OF d(6), of f] d(9)
    by (intro tmpfs_ok_other_file[OF ok]) (use f in \<open>auto simp: is_tmp_def priv_of_def simp del: live_kfree_obj\<close>)
qed

lemma tmp_file_state:
  assumes "tmpfs_ok R s" "is_tmp s f"
  obtains st ts n where "priv_of s f = Some st" "t_states s st = Some ts" "t_nodes s (ts_node ts) = Some n"
proof -
  have "bij_betw (priv_of s) {g. is_tmp s g} (Some ` dom (t_states s))" using tmpfs_okD(2)[OF assms(1)] by (simp add: states_ok_def)
  then have "priv_of s f \<in> Some ` dom (t_states s)" using assms(2) by (auto simp: bij_betw_def)
  then obtain st ts where "priv_of s f = Some st" "t_states s st = Some ts" by auto
  then show thesis using that tmpfs_okD(11)[OF assms(1)] by blast
qed

definition closed_away :: "ptr \<Rightarrow> ptr \<Rightarrow> ptr \<Rightarrow> tmpfs_node \<Rightarrow> tmpfs_sys \<Rightarrow> tmpfs_sys" where
  "closed_away f st a n s =
     s\<lparr>t_nodes := (t_nodes s)(a \<mapsto> n\<lparr>n_deleted := (n_deleted n \<and> 1 < n_refcount n), n_refcount := n_refcount n - 1\<rparr>),
       t_states := (t_states s)(st := None), fobjs := (fobjs s)(f := None), fmem := kfree_obj f (kfree_obj st (fmem s))\<rparr>"

lemma closed_away_ok:
  assumes ok: "tmpfs_ok R s" and f: "is_tmp s f"
    and t: "priv_of s f = Some st" "t_states s st = Some ts" and n: "t_nodes s (ts_node ts) = Some n"
  shows "tmpfs_ok R (closed_away f st (ts_node ts) n s)" "0 < n_refcount n"
proof -
  note d = tmpfs_okD[OF ok]
  let ?a = "ts_node ts" and ?g = "\<lambda>n. n\<lparr>n_deleted := (n_deleted n \<and> 1 < n_refcount n)\<rparr>" and ?y = "closed_away f st (ts_node ts) n s"
  show "0 < n_refcount n" using d(10)[OF n] t(2) finite_opens[OF d(8), of ?a] by (auto simp: node_ok_def opens_def card_gt_0_iff)
  have mem: "st \<in> set (live (fmem s))" "f \<in> set (live (fmem s))" using owned_parts_live(2,3)[OF ok] t(2) f by (auto simp: is_tmp_def)
  have "st \<noteq> f"
  proof
    assume "st = f"
    then have "2 \<le> count (owned s) f" using t(2) f d(8,9) by (auto simp: owned_def is_tmp_def domIff)
    moreover have "distinct (live (fmem s))" using d(6) by (simp add: kmem_ok_def)
    then have "count (mset (live (fmem s))) f \<le> 1" by (simp add: distinct_count_atmost_1)
    ultimately show False using d(7) by simp
  qed
  then have "f \<in> set (live (kfree_obj st (fmem s)))" using mem(2) by (simp add: in_set_remove1)
  from kfree_mset[OF this] kfree_mset[OF mem(1)]
  have lv: "add_mset st (add_mset f (mset (live (fmem ?y)))) = mset (live (fmem s))" by (simp add: closed_away_def del: live_kfree_obj)
  have ok0: "tmpfs_ok R (upd_node ?a ?g s)"
    by (rule tmpfs_ok_upd_node[OF ok]) (auto simp: node_ok_def data_fits_def node_typed_def)
  have ny: "t_nodes ?y = (t_nodes (upd_node ?a ?g s))(?a \<mapsto> (?g n)\<lparr>n_refcount := n_refcount (?g n) - 1\<rparr>)"
    by (simp add: closed_away_def fun_eq_iff)
  show "tmpfs_ok R ?y"
    by (rule tmpfs_ok_leave[OF ok0 _ _ _ _ _ _ _ ny])
       (use f t n lv kmem_ok_kfree[OF kmem_ok_kfree[OF d(6), of st], of f] in \<open>simp_all add: closed_away_def\<close>)
qed

lemma destroy_tmp_ok:
  assumes ok: "tmpfs_ok R s" and f: "is_tmp s f"
    and x: "x = (tmpfs_close f s)\<lparr>fmem := kfree_obj f (fmem (tmpfs_close f s)), fobjs := (fobjs (tmpfs_close f s))(f := None)\<rparr>"
  shows "tmpfs_ok R x"
proof -
  note d = tmpfs_okD[OF ok]
  obtain st ts n where t: "priv_of s f = Some st" "t_states s st = Some ts" "t_nodes s (ts_node ts) = Some n" by (rule tmp_file_state[OF ok f])
  define a where "a = ts_node ts"
  have n: "t_nodes s a = Some n" using t(3) by (simp add: a_def)
  define y where "y = closed_away f st a n s"
  have oky: "tmpfs_ok R y" and c: "0 < n_refcount n" using closed_away_ok[OF ok f t] by (simp_all add: y_def a_def)
  note y_def = y_def[unfolded closed_away_def]
  define u where "u = upd_node a (\<lambda>n. n\<lparr>n_refcount := n_refcount n - 1\<rparr>) s"
  have u: "t_list u = t_list s" "fobjs u = fobjs s" "t_states u = t_states s" "fmem u = fmem s"
    "t_nodes u = (t_nodes s)(a \<mapsto> n\<lparr>n_refcount := n_refcount n - 1\<rparr>)" using n by (simp_all add: u_def fun_eq_iff)
  define v where "v = reap_node a u"
  have cl: "tmpfs_close f s = v\<lparr>t_states := (t_states v)(st := None), fmem := kfree_obj st (fmem v),
      fobjs := (fobjs v)(f := map_option (\<lambda>ob. ob\<lparr>f_private := None\<rparr>) (fobjs v f))\<rparr>"
    using t(1,2) by (simp add: tmpfs_close_def a_def v_def u_def Let_def)
  have xf: "t_list x = t_list v" "t_nodes x = t_nodes v" "t_states x = (t_states v)(st := None)" "fobjs x = (fobjs v)(f := None)"
    "fmem x = kfree_obj f (kfree_obj st (fmem v))" by (simp_all add: x cl)
  show ?thesis
  proof (cases "n_deleted n \<and> n_refcount n = 1")
    case False
    then have v: "v = u" using c by (auto simp: v_def reap_node_def u(5))
    have "n\<lparr>n_deleted := (n_deleted n \<and> 1 < n_refcount n), n_refcount := n_refcount n - 1\<rparr> = n\<lparr>n_refcount := n_refcount n - 1\<rparr>"
      using False c by (cases "n_deleted n") auto
    then show ?thesis
      by (intro tmpfs_ok_cong[OF oky]) (use tmpfs_okD(6)[OF oky] in \<open>simp_all add: xf v u y_def\<close>)
  next
    case True
    then have v: "v = tmpfs_detach_node a u" by (simp add: v_def reap_node_def u(5))
    have al: "a \<in> set (t_list u)" "a \<in> set (t_list y)" using n d(5) by (auto simp: u y_def)
    obtain nn where nn: "t_nodes y a = Some nn" "n_refcount nn = 0" "n_dptr nn = n_dptr n" using True by (simp add: y_def)
    then have "opens y a = {}"
      using tmpfs_okD(10)[OF oky nn(1)] finite_opens[OF tmpfs_okD(8)[OF oky], of a] by (simp add: node_ok_def)
    from tmpfs_ok_detach[OF oky nn(1) this] have dy: "tmpfs_ok R (tmpfs_detach_node a y)" .
    have ua: "t_nodes u a = Some (n\<lparr>n_refcount := n_refcount n - 1\<rparr>)" by (simp add: u(5))
    note fu = detach_fields[OF al(1) ua, folded v] and fy = detach_fields[OF al(2) nn(1)]
    have "kmem_ok (fmem x)" using d(6) by (simp add: xf fu u kmem_ok_kfree split: option.splits)
    then show ?thesis
      by (intro tmpfs_ok_cong[OF dy]) (simp_all add: xf fu fy u nn(3), simp_all add: y_def u add_mset_commute diff_diff_add_mset split: option.splits)
  qed
qed

interpretation tmp: close_method close_tmp
proof
  show "fobjs (close_tmp f s) g = fobjs s g" if "g \<noteq> f" for f g s
    using that by (auto simp: close_tmp_def tmpfs_close_def serial_close_noop_def reap_node_def tmpfs_detach_node_def drop_node_def
        Let_def split: option.splits)
  show "tables (close_tmp f s) = tables s" for f s
    by (auto simp: close_tmp_def tmpfs_close_def serial_close_noop_def reap_node_def tmpfs_detach_node_def drop_node_def upd_node_def
        Let_def split: option.splits)
qed

lemma file_unref_ok:
  assumes "tmpfs_ok R s"
  shows "tmpfs_ok R (file_unref close_tmp file s)"
proof (cases "\<exists>f ob. file = Some f \<and> fobjs s f = Some ob")
  case False
  then have "file_unref close_tmp file s = s" by (auto simp: file_unref_def split: option.splits)
  then show ?thesis using assms by simp
next
  case True
  then obtain f ob where f: "file = Some f" "fobjs s f = Some ob" by blast
  define ob' where "ob' = ob\<lparr>f_refcount := s64 (f_refcount ob - 1)\<rparr>"
  define s1 where "s1 = s\<lparr>fobjs := (fobjs s)(f \<mapsto> ob')\<rparr>"
  have ok1: "tmpfs_ok R s1" unfolding s1_def ob'_def by (rule count_update_ok[OF assms f(2)])
  have f1: "fobjs s1 f = Some ob'" by (simp add: s1_def)
  have u: "file_unref close_tmp file s = (if f_refcount ob' = 0 then file_destroy close_tmp f ob' s1 else s1)"
    using f by (simp add: file_unref_def ob'_def s1_def Let_def)
  have "tmpfs_ok R (file_destroy close_tmp f ob' s1)"
  proof (cases "f_ops ob' = Some tmpfs_file_ops")
    case True
    then have "is_tmp s1 f" using f1 by (simp add: is_tmp_def)
    from destroy_tmp_ok[OF ok1 this refl] show ?thesis
      using True f1 by (simp add: file_destroy_def close_tmp_def tmpfs_file_ops_def Let_def)
  next
    case False
    have "file_destroy close_tmp f ob' s1 = s1\<lparr>fmem := kfree_obj f (fmem s1), fobjs := (fobjs s1)(f := None)\<rparr>"
      using False f1 by (simp add: file_destroy_def close_tmp_def serial_close_noop_def Let_def split: option.splits)
    then show ?thesis using destroy_other_ok[OF ok1 f1 False] by simp
  qed
  then show ?thesis using u ok1 by simp
qed

lemma device_file_not_tmp: "fst (device_file opn access) \<noteq> tmpfs_file_ops"
  by (cases opn) (simp_all add: tmpfs_file_ops_def devfs_null_ops_def devfs_zero_ops_def tty_console_file_ops_def
      framebuffer_console_file_ops_def framebuffer_device_file_ops_def serial_file_ops_def ps2kb_file_ops_def)

lemma device_open_ok:
  assumes ok: "tmpfs_ok R s"
  shows "tmpfs_ok R (snd (device_open d cd opn s))"
proof -
  obtain ops md where df: "device_file opn (cd_access_mode cd) = (ops, md)" by force
  have nt: "ops \<noteq> tmpfs_file_ops" using device_file_not_tmp[of opn "cd_access_mode cd"] df by simp
  obtain x s' where fc: "file_create (Some ops) (Some d) md s = (x, s')" by force
  have e: "snd (device_open d cd opn s) = s'" using df fc by (simp add: device_open_def split: option.splits)
  from fc have "tmpfs_ok R s'"
  proof (cases rule: file_create_cases)
    case (nomem m er)
    then show ?thesis
      by (intro tmpfs_ok_cong[OF ok]) (use kmem_none[OF tmpfs_okD(6)[OF ok] nomem(2)] in simp_all)
  next
    case (made f m)
    note h = kmem_step[OF tmpfs_okD(6)[OF ok] made(2)] and fr = fresh_address[OF ok made(2)]
    have "f \<notin> dom (fobjs s)" using fr(3) by auto
    then show ?thesis using tmpfs_okD(9)[OF ok] h fr(3) nt
      by (intro tmpfs_ok_other_file[OF ok]) (auto simp: made(3) is_tmp_def priv_of_def)
  qed
  then show ?thesis using e by simp
qed

lemma reopen_ok:
  assumes ok: "tmpfs_ok R s" and a: "t_nodes s a = Some n"
  shows "tmpfs_ok R (reopen_node now a n flags s)" "\<exists>n'. t_nodes (reopen_node now a n flags s) a = Some n'"
    "t_states (reopen_node now a n flags s) = t_states s"
proof -
  let ?f = "\<lambda>n. n\<lparr>n_dptr := None, n_size := 0, n_capacity := 0, n_mtime := timespec_of_us now, n_ctime := timespec_of_us now\<rparr>"
  let ?m = "case n_dptr n of None \<Rightarrow> fmem s | Some p \<Rightarrow> kfree_obj p (fmem s)"
  note d = tmpfs_okD[OF ok]
  have m: "kmem_ok ?m" "mset (live ?m) + opt_mset (n_dptr n) = mset (live (fmem s)) + opt_mset None"
    using d(6) owned_live[OF ok a] by (auto simp: kmem_ok_kfree split: option.splits)
  have "tmpfs_ok R ((upd_node a ?f s)\<lparr>fmem := ?m\<rparr>)"
    by (rule tmpfs_ok_new_dptr[where f = ?f and p = None, OF ok a _ _ m])
       (auto simp: node_ok_def data_fits_def pow_cap_def node_typed_def)
  moreover have "tmpfs_ok R (upd_node a (\<lambda>n. n\<lparr>n_deleted := False\<rparr>) t)" if "tmpfs_ok R t" for t
    by (rule tmpfs_ok_upd_node[OF that]) (auto simp: node_ok_def data_fits_def node_typed_def)
  ultimately show "tmpfs_ok R (reopen_node now a n flags s)" using ok by (simp add: reopen_node_def Let_def)
  show "\<exists>n'. t_nodes (reopen_node now a n flags s) a = Some n'" "t_states (reopen_node now a n flags s) = t_states s"
    using a by (simp_all add: reopen_node_def Let_def)
qed

lemma tmpfs_open_ok:
  assumes ok: "tmpfs_ok R s" and room: "card (dom (t_states s)) < 2 ^ 32 - 1"
  shows "tmpfs_ok R (snd (tmpfs_open now path flags s))"
proof (cases "\<exists>pth. path = Some pth \<and> skip_slashes pth \<noteq> [] \<and> CHR ''/'' \<notin> set (skip_slashes pth)")
  case False
  then show ?thesis using ok by (auto simp: tmpfs_open_def Let_def split: option.splits)
next
  case True
  then obtain pth where p: "path = Some pth" "skip_slashes pth \<noteq> []" "CHR ''/'' \<notin> set (skip_slashes pth)" by blast
  let ?name = "skip_slashes pth"
  show ?thesis
  proof (cases "tmpfs_find_node ?name s")
    case (Some x)
    obtain a n where x: "x = (a, n)" by force
    have a: "t_nodes s a = Some n" using tmpfs_find_node_Some[of ?name s a n] Some x by simp
    note re = reopen_ok[OF ok a, of now flags]
    obtain n' where n': "t_nodes (reopen_node now a n flags s) a = Some n'" using re(2) by blast
    have "tmpfs_ok R (snd (open_file a flags (reopen_node now a n flags s)))"
      by (rule open_file_ok[OF re(1) n']) (use room re(3) in simp)
    moreover have "tmpfs_ok R (snd (open_char now a n flags s))"
      using ok device_open_ok[OF tmpfs_ok_touch[OF ok]] by (auto simp: open_char_def split: option.splits)
    ultimately show ?thesis using p Some x ok by (simp add: tmpfs_open_def Let_def)
  next
    case None
    obtain y s1 where c: "tmpfs_create_node now ?name (S_IFREG OR 0x1A4) s = (y, s1)" by force
    have ok1: "tmpfs_ok R s1" by (rule tmpfs_ok_create(1)[OF ok p(2,3) c])
    have s1: "t_states s1 = t_states s" "y = Some a \<Longrightarrow> \<exists>n. t_nodes s1 a = Some n" for a
      using c by (auto simp: tmpfs_create_node_def Let_def split: prod.splits option.splits)
    have "tmpfs_ok R (snd (open_file a flags s1))" if "y = Some a" for a
      using s1(2)[OF that] open_file_ok[OF ok1] room s1(1) by auto
    then show ?thesis using p None ok ok1 c by (auto simp: tmpfs_open_def Let_def split: option.splits)
  qed
qed

lemma init_once_ok:
  assumes "tmpfs_ok R s"
  shows "tmpfs_ok R (snd (char_device_lookup dev s))"
  by (rule tmpfs_ok_cong[OF assms])
     (use tmpfs_okD(6)[OF assms] in \<open>simp_all add: char_device_lookup_def devfs_init_once_def Let_def\<close>)

lemma not_open_detach:
  assumes "tmpfs_ok R s" "tmpfs_find_node name s = Some (a, n)" "n_refcount n = 0"
  shows "tmpfs_ok R (tmpfs_detach_node a s)"
proof -
  have a: "t_nodes s a = Some n" using tmpfs_find_node_Some[OF assms(2)] by simp
  have "card (opens s a) = 0" using tmpfs_okD(10)[OF assms(1) a] assms(3) by (simp add: node_ok_def)
  then have "opens s a = {}" using finite_opens[OF tmpfs_okD(8)[OF assms(1)], of a] by simp
  then show ?thesis by (rule tmpfs_ok_detach[OF assms(1) a])
qed

lemma tmpfs_unlink_ok:
  assumes "tmpfs_ok R s"
  shows "tmpfs_ok R (snd (tmpfs_unlink path s))"
proof -
  have "tmpfs_ok R (upd_node a (\<lambda>n. n\<lparr>n_deleted := True\<rparr>) s)" if "t_nodes s a = Some n" "0 < n_refcount n" for a n
    by (rule tmpfs_ok_upd_node[OF assms]) (use that in \<open>auto simp: node_ok_def data_fits_def node_typed_def\<close>)
  note del = this
  show ?thesis
  proof (cases "\<exists>pth a n. path = Some pth \<and> tmpfs_find_node (skip_slashes pth) s = Some (a, n)")
    case False
    then show ?thesis using assms by (auto simp: tmpfs_unlink_def split: option.splits)
  next
    case True
    then obtain pth a n where p: "path = Some pth" "tmpfs_find_node (skip_slashes pth) s = Some (a, n)" by blast
    then show ?thesis using del[of a n] not_open_detach[OF assms p(2)] tmpfs_find_node_Some[OF p(2)] by (simp add: tmpfs_unlink_def)
  qed
qed

lemma tmpfs_mknod_ok:
  assumes "tmpfs_ok R s0"
  shows "tmpfs_ok R (snd (tmpfs_mknod now path mode dev s0))"
proof -
  obtain x s where l: "char_device_lookup dev s0 = (x, s)" by force
  have ok: "tmpfs_ok R s" using init_once_ok[OF assms, of dev] l by simp
  have new: "tmpfs_ok R (snd (mknod_new now name mode dev d t))" if "tmpfs_ok R t" "name \<noteq> []" "CHR ''/'' \<notin> set name" for t name d
    by (rule tmpfs_ok_create(2)[OF that])
  show ?thesis
  proof (cases "\<exists>pth d. path = Some pth \<and> x = Some d \<and> S_ISCHR mode \<and> skip_slashes pth \<noteq> [] \<and> CHR ''/'' \<notin> set (skip_slashes pth)")
    case False
    then show ?thesis using assms ok l by (auto simp: tmpfs_mknod_def Let_def split: option.splits)
  next
    case True
    then obtain pth d where p: "path = Some pth" "x = Some d" "S_ISCHR mode" "skip_slashes pth \<noteq> []" "CHR ''/'' \<notin> set (skip_slashes pth)"
      by blast
    show ?thesis
    proof (cases "tmpfs_find_node (skip_slashes pth) s")
      case None
      then show ?thesis using p l ok new[OF ok p(4,5)] by (simp add: tmpfs_mknod_def Let_def)
    next
      case (Some y)
      obtain a n where y: "y = (a, n)" by force
      show ?thesis using p l ok Some y new[OF not_open_detach[OF ok] p(4,5)] by (simp add: tmpfs_mknod_def Let_def)
    qed
  qed
qed

theorem tmpfs_reach_ok: "tmpfs_reach s R \<Longrightarrow> tmpfs_ok R s"
proof (induction s R rule: tmpfs_reach.induct)
  case (tr_mount s R)
  have "opens s = (\<lambda>_. {})" "\<And>f. \<not> is_tmp s f" using tr_mount by (auto simp: opens_def is_tmp_def fun_eq_iff)
  then show ?case using tr_mount by (simp add: tmpfs_ok_def nodes_ok_def states_ok_def heap_ok_def owned_def bij_betw_def)
next
  case (tr_free s p R)
  have "p \<in># mset (live (fmem s))" unfolding tmpfs_okD(7)[OF tr_free.IH] by simp
  then have "add_mset p (mset (live (kfree_obj p (fmem s)))) = mset (live (fmem s))" by simp
  then show ?case
    by (intro tmpfs_ok_cong[OF tr_free.IH]) (use tmpfs_okD(6)[OF tr_free.IH] in \<open>auto simp: kmem_ok_kfree simp del: live_kfree_obj\<close>)
next
  case (tr_heap s R m)
  then show ?case by (intro tmpfs_ok_cong[OF tr_heap.IH]) simp_all
next
  case (tr_devices s R dv en mj nm)
  then show ?case by (intro tmpfs_ok_cong[OF tr_devices.IH]) (simp_all add: tmpfs_okD(6))
qed (rule tmpfs_open_ok file_ref_ok file_unref_ok tmpfs_unlink_ok tmpfs_mknod_ok tmpfs_read_impl_ok tmpfs_seek_ok tmpfs_ok_meta
    tmpfs_read_ok tmpfs_read_all_ok tmpfs_ok_alloc tmpfs_write_impl_ok tmpfs_driver_write_ok tmpfs_driver_write_all_ok, assumption+)+

section \<open>Contents\<close>

lemma length_content [simp]: "length (content n) = n_size n"
  by (simp add: content_def buffer_get_def)

lemma nth_content: "i < n_size n \<Longrightarrow> content n ! i = n_data n i"
  by (simp add: content_def buffer_get_def)

lemma content_cong: "n_size n' = n_size n \<Longrightarrow> \<forall>i < n_size n. n_data n' i = n_data n i \<Longrightarrow> content n' = content n"
  by (rule nth_equalityI) (simp_all add: nth_content)

lemma content_put:
  assumes "off \<le> n_size n" "n_size n' = max (n_size n) (off + length bs)" "n_data n' = buffer_put off bs (n_data n)"
  shows "content n' = take off (content n) @ bs @ drop (off + length bs) (content n)"
proof (rule nth_equalityI)
  show "length (content n') = length (take off (content n) @ bs @ drop (off + length bs) (content n))"
    using assms by simp
  fix i assume i: "i < length (content n')"
  consider "i < off" | "off \<le> i" "i < off + length bs" | "off + length bs \<le> i" by linarith
  then show "content n' ! i = (take off (content n) @ bs @ drop (off + length bs) (content n)) ! i"
  proof cases
    case 1
    then show ?thesis using i assms by (simp add: nth_content nth_append buffer_put_def)
  next
    case 2
    then have "i - off < length bs" by simp
    then show ?thesis using 2 i assms by (simp add: nth_content nth_append buffer_put_def)
  next
    case 3
    then have "i < n_size n" "\<not> i - off < length bs" using i assms(2) by simp_all
    then show ?thesis using 3 i assms by (simp add: nth_content nth_append buffer_put_def)
  qed
qed

lemma buffer_get_put: "buffer_get off (length bs) (buffer_put off bs d) = bs"
  by (rule nth_equalityI) (simp_all add: buffer_get_def buffer_put_def)

lemma capacity_bound: "pow_cap c \<Longrightarrow> c \<le> 2 ^ 63"
proof (cases "c = 0")
  case False
  assume "pow_cap c"
  then obtain k where k: "k \<le> 55" "c = 256 * 2 ^ k" using False unfolding pow_cap_def by blast
  have "(256::nat) * 2 ^ k \<le> 256 * 2 ^ 55" using k(1) by (intro mult_left_mono power_increasing) auto
  then show ?thesis using k(2) by simp
qed simp

lemma tmpfs_reserve_returns:
  assumes "tmpfs_ok R s" "t_nodes s a = Some n" "wanted \<le> 2 ^ 63"
  shows "\<exists>b s'. tmpfs_reserve a wanted s = Some (b, s')"
proof -
  have fit: "pow_cap (n_capacity n)" using tmpfs_okD(10)[OF assms(1,2)] by (simp add: node_ok_def data_fits_def)
  have "\<exists>j \<le> 55. (if n_capacity n = 0 then 256 else n_capacity n) = 256 * 2 ^ j"
  proof (cases "n_capacity n = 0")
    case True
    then show ?thesis by (intro exI[of _ 0]) simp
  next
    case False
    then show ?thesis using fit unfolding pow_cap_def by auto
  qed
  then obtain j where "j \<le> 55" "(if n_capacity n = 0 then 256 else n_capacity n) = 256 * 2 ^ j" by blast
  with grow_capacity_returns[OF assms(3) this(1)] show ?thesis
    using assms(2) by (auto simp: tmpfs_reserve_def Let_def split: prod.splits option.splits)
qed

lemma grow_capacity_hangs:
  assumes "pow_cap alloc" "2 ^ 63 < wanted"
  shows "grow_capacity alloc wanted = None"
proof (cases "grow_capacity alloc wanted")
  case (Some c)
  from grow_capacity_result[OF this assms(1)] capacity_bound[of c] assms(2) show ?thesis by simp
qed simp

lemma write_outcome:
  assumes ok: "tmpfs_ok R s" and o: "open_node f s = Inr (st, ts, n)" "\<not> n_is_char n"
    and off: "off = write_offset ts n" "off + length bs < 2 ^ 63"
  obtains (stored) s1 n1 where "tmpfs_write_impl now f (Some bs) s = Some (Inr (length bs), s1)"
      "open_node f s1 = Inr (st, ts\<lparr>ts_offset := off + length bs\<rparr>, n1)" "\<not> n_is_char n1"
      "n_size n1 = max (n_size n) (off + length bs)" "\<And>i. i < n_size n \<or> i < off + length bs \<Longrightarrow> off \<le> n_size n \<Longrightarrow> n_data n1 i = buffer_put off bs (n_data n) i"
  | (nomem) s1 where "tmpfs_write_impl now f (Some bs) s = Some (Inl ENOMEM, s1)"
      "open_node f s1 = Inr (st, ts\<lparr>ts_offset := off\<rparr>, n)"
proof -
  note d = tmpfs_okD[OF ok] and on = open_nodeD[OF o(1)]
  let ?s1 = "set_offset st off s" and ?a = "ts_node ts"
  have fin: "u64 (off + length bs) = off + length bs" using off(2) by (simp add: u64_def)
  have a: "t_nodes ?s1 ?a = Some n" using on by simp
  have ok1: "tmpfs_ok R ?s1" by (rule tmpfs_ok_set_offset[OF ok])
  have "off + length bs \<le> 2 ^ 63" using off(2) by simp
  from tmpfs_reserve_returns[OF ok1 a this] obtain b s2 where r: "tmpfs_reserve ?a (off + length bs) ?s1 = Some (b, s2)" by blast
  note res = tmpfs_reserve_result[OF ok1 a r]
  note eq = tmpfs_write_impl_eq[OF o, of now bs, folded off(1), unfolded fin r option.case prod.case]
  have st: "t_states ?s1 st = Some (ts\<lparr>ts_offset := off\<rparr>)" using on by (simp add: set_offset_def)
  show thesis
  proof (cases b)
    case False
    then obtain m where m: "s2 = ?s1\<lparr>fmem := m\<rparr>" using res(3) by blast
    have "open_node f s2 = Inr (st, ts\<lparr>ts_offset := off\<rparr>, n)" using on st by (simp add: open_node_def m)
    then show thesis using nomem eq False by simp
  next
    case True
    have ro: "roomier ?a (off + length bs) ?s1 s2" by (rule res(2)[OF True])
    then have same: "t_states s2 = t_states ?s1" "fobjs s2 = fobjs ?s1" by (auto simp: roomier_def)
    from roomierD[OF ro] obtain n2 where n2: "t_nodes s2 ?a = Some n2" "n_size n2 = n_size n" "n_is_char n2 = n_is_char n"
      "n_deleted n2 = n_deleted n" "\<forall>i < n_capacity n. n_data n2 i = n_data n i" using a by (metis option.inject)
    have cap: "n_size n \<le> n_capacity n" using d(10) on by (auto simp: node_ok_def data_fits_def)
    let ?n1 = "stamp_all now (n2\<lparr>n_data := buffer_put off bs (n_data n2), n_size := max (n_size n2) (u64 (off + length bs))\<rparr>)"
    let ?s3 = "store_bytes now ?a off bs (set_offset st (off + length bs) s2)"
    have "t_states (set_offset st (off + length bs) s2) st = Some (ts\<lparr>ts_offset := off + length bs\<rparr>)"
      using on same(1) by (simp add: set_offset_def)
    moreover have "priv_of s2 = priv_of s" using same(2) by (simp add: priv_of_def fun_eq_iff)
    ultimately have on3: "open_node f ?s3 = Inr (st, ts\<lparr>ts_offset := off + length bs\<rparr>, ?n1)"
      using on n2 by (simp add: open_node_def store_bytes_def stamp_all_def)
    show thesis
      by (rule stored[OF _ on3]) (use eq True n2 o(2) fin cap in \<open>auto simp: stamp_all_def buffer_put_def\<close>)
  qed
qed

lemma card_open_files:
  assumes "states_ok s"
  shows "card {f. is_tmp s f \<and> file_node s f = Some a} = card (opens s a)"
proof -
  let ?F = "{f. is_tmp s f \<and> file_node s f = Some a}"
  have bij: "bij_betw (priv_of s) {g. is_tmp s g} (Some ` dom (t_states s))" using assms by (simp add: states_ok_def)
  have "priv_of s ` ?F = Some ` opens s a"
  proof
    show "priv_of s ` ?F \<subseteq> Some ` opens s a" by (auto simp: file_node_def opens_def split: bind_splits)
    show "Some ` opens s a \<subseteq> priv_of s ` ?F"
    proof
      fix x assume "x \<in> Some ` opens s a"
      then obtain st where st: "x = Some st" "map_option ts_node (t_states s st) = Some a" by (auto simp: opens_def)
      then have "x \<in> priv_of s ` {g. is_tmp s g}" using bij by (auto simp: bij_betw_def)
      then obtain g where g: "is_tmp s g" "x = priv_of s g" by auto
      then have "file_node s g = Some a" using st g(2)[symmetric] by (simp add: file_node_def)
      with g show "x \<in> priv_of s ` ?F" by blast
    qed
  qed
  moreover have "inj_on (priv_of s) ?F" by (rule inj_on_subset[OF bij_betw_imp_inj_on[OF bij]]) auto
  ultimately show ?thesis by (metis card_image inj_Some inj_on_subset subset_UNIV)
qed

text \<open>A file system with one file, \<^verbatim>\<open>/f\<close>, open for reading and writing: node 1, state 2, file 3.\<close>

definition empty_tmp :: tmpfs_sys where
  "empty_tmp = \<lparr>fobjs = (\<lambda>_. None), tables = (\<lambda>_ _. (None, 0)), err_no = None,
     fmem = \<lparr>live = [9], answers = [Some 1, Some 2, Some 3, Some 4]\<rparr>, d_devices = (\<lambda>_. None), d_entries = [], d_ready = True,
     d_next_major = 10, d_majors = (\<lambda>_. \<lparr>mj_reserved = False, mj_allocations = []\<rparr>), d_builtins = True,
     t_ctx = Some 9, t_list = [], t_nodes = (\<lambda>_. None), t_states = (\<lambda>_. None), t_junk = (\<lambda>_ _. 0xAA)\<rparr>"

definition opened_tmp :: tmpfs_sys where
  "opened_tmp = snd (tmpfs_open 0 (Some ''/f'') (O_CREAT OR 2) empty_tmp)"

definition sample_node :: tmpfs_node where
  "sample_node = \<lparr>n_name = ''f'', n_dptr = None, n_data = (\<lambda>_. 0), n_size = 0, n_capacity = 0, n_deleted = False, n_refcount = 1,
     n_mode = 0x81A4, n_atime = timespec_of_us 0, n_mtime = timespec_of_us 0, n_ctime = timespec_of_us 0, n_is_char = False,
     n_rdev = 0, n_char = None\<rparr>"

lemma opened_tmp_reach: "tmpfs_reach opened_tmp {#9#}"
  unfolding opened_tmp_def by (rule tr_open, rule tr_mount) (simp_all add: empty_tmp_def kmem_ok_def map_filter_simps)

lemma opened_tmp_node: "open_node 3 opened_tmp = Inr (2, \<lparr>ts_node = 1, ts_offset = 0, ts_flags = O_CREAT OR 2\<rparr>, sample_node)"
  "t_nodes opened_tmp 1 = Some sample_node" "is_tmp opened_tmp 3"
  by (simp_all add: opened_tmp_def empty_tmp_def tmpfs_open_def skip_slashes_def tmpfs_find_node_def tmpfs_create_node_def open_file_def
      file_create_def kmalloc_obj_def upd_node_def open_node_def priv_of_def sample_node_def S_ISCHR_def S_IFREG_def S_IFMT_def
      S_IFCHR_def O_CREAT_def O_APPEND_def u32_def is_tmp_def Let_def)

section \<open>Properties\<close>





text \<open>
  C38. Writing to an open file and reading back: a write that starts within the file returns; it either stores all its bytes,
  so that the content of the file is the old one with exactly these bytes replaced or appended, and reading them back from
  the offset of the write gives the bytes written, or reports \<^verbatim>\<open>ENOMEM\<close> and leaves the content alone.
\<close>

theorem tmpfs_write_read_back:
  assumes "tmpfs_reach s R" "open_node f s = Inr (st, ts, n)" "\<not> n_is_char n"
    and "off = write_offset ts n" "off \<le> n_size n" "off + length bs < 2 ^ 63"
  shows "\<exists>r s1 ts1 n1. tmpfs_write_impl now f (Some bs) s = Some (r, s1) \<and> open_node f s1 = Inr (st, ts1, n1) \<and>
     (if r = Inl ENOMEM then content n1 = content n
      else r = Inr (length bs) \<and> content n1 = take off (content n) @ bs @ drop (off + length bs) (content n) \<and>
        fst (tmpfs_read_impl now' f (Some buf) (length bs) (snd (tmpfs_seek_impl f (int off) SEEK_SET s1))) = Inr bs)"
  using tmpfs_reach_ok[OF assms(1)] assms(2-4,6)
proof (cases rule: write_outcome[where now = now])
  case (nomem s1)
  then show ?thesis by auto
next
  case (stored s1 n1)
  let ?n' = "n1\<lparr>n_data := buffer_put off bs (n_data n)\<rparr>"
  have same: "\<forall>i < n_size n1. n_data n1 i = buffer_put off bs (n_data n) i" using stored(4,5) assms(5) by (simp add: less_max_iff_disj)
  then have "content n1 = content ?n'" by (intro content_cong) simp_all
  also have "\<dots> = take off (content n) @ bs @ drop (off + length bs) (content n)"
    using stored(4) assms(5) by (intro content_put) simp_all
  finally have c: "content n1 = take off (content n) @ bs @ drop (off + length bs) (content n)" .
  note on = open_nodeD[OF stored(2)]
  have pos: "s64 (s64 0 + int off) = int off" using assms(6) by simp
  have sk: "snd (tmpfs_seek_impl f (int off) SEEK_SET s1) = set_offset st off s1"
    using on pos by (simp add: tmpfs_seek_impl_def Let_def)
  have "open_node f (set_offset st off s1) = Inr (st, ts\<lparr>ts_offset := off\<rparr>, n1)"
    using on by (simp add: open_node_def set_offset_def[of st off s1] priv_of_def)
  moreover have "buffer_get off (length bs) (n_data n1) = bs"
  proof -
    have "buffer_get off (length bs) (n_data n1) = buffer_get off (length bs) (buffer_put off bs (n_data n))"
      using same stored(4) by (auto simp: buffer_get_def)
    then show ?thesis by (simp add: buffer_get_put)
  qed
  ultimately have "fst (tmpfs_read_impl now' f (Some buf) (length bs) (set_offset st off s1)) = Inr bs"
    using stored(3,4) by (auto simp: tmpfs_read_impl_def Let_def)
  then show ?thesis using stored(1,2) c sk by auto
qed

lemma tmpfs_write_read_back_witness:
  "tmpfs_reach opened_tmp {#9#} \<and> (\<exists>r s1 ts1 n1. tmpfs_write_impl 5 3 (Some [1, 2]) opened_tmp = Some (r, s1) \<and>
     open_node 3 s1 = Inr (2, ts1, n1) \<and> (if r = Inl ENOMEM then content n1 = content sample_node
       else r = Inr 2 \<and> content n1 = [1, 2] \<and>
         fst (tmpfs_read_impl 6 3 (Some 7) 2 (snd (tmpfs_seek_impl 3 0 SEEK_SET s1))) = Inr [1, 2]))"
proof -
  have e: "write_offset \<lparr>ts_node = 1, ts_offset = 0, ts_flags = O_CREAT OR 2\<rparr> sample_node = 0" "content sample_node = []"
    by (simp_all add: write_offset_def O_CREAT_def O_APPEND_def content_def buffer_get_def sample_node_def)
  have "\<not> n_is_char sample_node" "(0::nat) \<le> n_size sample_node" by (simp_all add: sample_node_def)
  moreover have len: "length [1::byte, 2] = 2" by simp
  ultimately have "\<exists>r s1 ts1 n1. tmpfs_write_impl 5 3 (Some [1, 2]) opened_tmp = Some (r, s1) \<and>
     open_node 3 s1 = Inr (2, ts1, n1) \<and> (if r = Inl ENOMEM then content n1 = content sample_node
       else r = Inr (length [1::byte, 2]) \<and> content n1 = take 0 (content sample_node) @ [1, 2] @ drop (0 + length [1::byte, 2]) (content sample_node) \<and>
         fst (tmpfs_read_impl 6 3 (Some 7) (length [1::byte, 2]) (snd (tmpfs_seek_impl 3 (int 0) SEEK_SET s1))) = Inr [1, 2])"
    by (intro tmpfs_write_read_back[OF opened_tmp_reach opened_tmp_node(1) _ e(1)[symmetric]]) (assumption | simp)+
  then show ?thesis using opened_tmp_reach unfolding e(2) len take_Nil drop_Nil append_Nil append_Nil2 semiring_1_class.of_nat_0 by blast
qed

text \<open>
  An open file opened again by its name after it was unlinked: without \<^verbatim>\<open>O_CREAT\<close> the name should be gone, but the node
  comes back to life, for the other openers too.
\<close>

theorem tmpfs_open_revives_unlinked:
  assumes "tmpfs_find_node (skip_slashes pth) s = Some (a, n)" "n_deleted n" "\<not> S_ISCHR (n_mode n)" "flags AND O_CREAT = 0" "flags AND O_TRUNC = 0"
    and "skip_slashes pth \<noteq> []" "CHR ''/'' \<notin> set (skip_slashes pth)"
  shows "tmpfs_open now (Some pth) flags s = open_file a flags (upd_node a (\<lambda>n. n\<lparr>n_deleted := False\<rparr>) s)"
  using assms by (simp add: tmpfs_open_def reopen_node_def Let_def)

text \<open>
  After a seek close to the largest offset a write does not return: the doubling loop of \<^verbatim>\<open>tmpfs_reserve\<close> wraps to 0 and runs
  forever, holding the lock of the file system.
\<close>

theorem tmpfs_write_far_hangs:
  assumes "tmpfs_reach s R" "open_node f s = Inr (st, ts, n)" "\<not> n_is_char n"
    and "2 ^ 63 < write_offset ts n + length bs" "write_offset ts n + length bs < 2 ^ 64"
  shows "tmpfs_write_impl now f (Some bs) s = None"
proof -
  have a: "t_nodes (set_offset st (write_offset ts n) s) (ts_node ts) = Some n" using open_nodeD[OF assms(2)] by simp
  have "pow_cap (n_capacity n)" using tmpfs_okD(10)[OF tmpfs_reach_ok[OF assms(1)]] open_nodeD[OF assms(2)]
    by (auto simp: node_ok_def data_fits_def)
  then have "pow_cap (if n_capacity n = 0 then 256 else n_capacity n)" "n_capacity n \<le> 2 ^ 63"
    using capacity_bound by (auto simp: pow_cap_def intro: exI[of _ 0])
  moreover from this have "grow_capacity (if n_capacity n = 0 then 256 else n_capacity n) (write_offset ts n + length bs) = None"
    using grow_capacity_hangs assms(4) by blast
  ultimately have "tmpfs_reserve (ts_node ts) (u64 (write_offset ts n + length bs)) (set_offset st (write_offset ts n) s) = None"
    using a assms(4,5) by (simp add: tmpfs_reserve_def u64_def)
  then show ?thesis using tmpfs_write_impl_eq[OF assms(2,3), of now bs] by simp
qed

end
