(* ===== verification/Vfs.thy ===== *)
theory Vfs
  imports Tmpfs "HOL-Library.Sublist"
begin

text \<open>
  The virtual file system: \<^verbatim>\<open>src/kernel/fs/vfs/vfs.c\<close>. Paths are made absolute and canonical, the mount with the longest
  matching prefix is found, and the operation is handed to its driver; files of drivers without an \<^verbatim>\<open>open\<close> of their own
  are opened here, streaming or with their content in a buffer.

  A driver is a record of optional functions on the state (\<open>vfs_fs_driver\<close>), its \<^verbatim>\<open>const vfs_fs_driver_t*\<close> a pointer, looked
  up in the table \<open>D\<close> of the drivers' static records. \<open>v_other\<close> is the state of drivers that are not modelled, such as the FAT file
  system. Listings deliver their entries in order; a reading or listing operation may change the state (a cache, time
  stamps). Operations that store data may fail to return (\<open>None\<close>). The entries of the mount list are heap objects; pointers
  for results are not \<^verbatim>\<open>NULL\<close>.
\<close>

unbundle bit_operations_syntax

section \<open>Paths\<close>

definition VFS_PATH_MAX :: nat where "VFS_PATH_MAX = 256"
definition max_segments :: nat where "max_segments = 64"

definition segment :: "string \<Rightarrow> string" where
  "segment inp = takeWhile (\<lambda>c. c \<noteq> CHR ''/'') inp"

definition after_segment :: "string \<Rightarrow> string" where
  "after_segment inp = skip_slashes (dropWhile (\<lambda>c. c \<noteq> CHR ''/'') inp)"

lemma after_segment_shorter [simp]: "inp \<noteq> [] \<Longrightarrow> length (after_segment inp) < length inp"
proof -
  assume a: "inp \<noteq> []"
  have "length (dropWhile P xs) \<le> length xs" for P and xs :: string by (rule length_dropWhile_le)
  note le = this
  show ?thesis
  proof (cases "hd inp = CHR ''/''")
    case True
    then have "after_segment inp = skip_slashes (tl inp)" using a by (cases inp) (simp_all add: after_segment_def skip_slashes_def)
    then show ?thesis using a le[of "\<lambda>c. c = CHR ''/''" "tl inp"] by (cases inp) (simp_all add: skip_slashes_def)
  next
    case False
    then have "dropWhile (\<lambda>c. c \<noteq> CHR ''/'') inp = dropWhile (\<lambda>c. c \<noteq> CHR ''/'') (tl inp)" using a by (cases inp) simp_all
    then show ?thesis using a le[of "\<lambda>c. c = CHR ''/''" "dropWhile (\<lambda>c. c \<noteq> CHR ''/'') (tl inp)"]
        le[of "\<lambda>c. c \<noteq> CHR ''/''" "tl inp"] by (cases inp) (simp_all add: after_segment_def skip_slashes_def)
  qed
qed

text \<open>
  The loop over the segments: \<open>stack\<close> holds the positions where the segments of \<open>out\<close> start, the top first; \<open>n\<close> is the size
  of the buffer of \<open>out\<close>, whose content up to the terminating 0 is a string.
\<close>

function canonicalize_loop :: "nat \<Rightarrow> string \<Rightarrow> nat list \<Rightarrow> string \<Rightarrow> string option" where
  "canonicalize_loop n inp stack out =
     (if inp = [] then Some out
      else let seg = segment inp; rest = after_segment inp
           in if seg = [] \<or> seg = ''.'' then canonicalize_loop n rest stack out
              else if seg = ''..'' then (case stack of
                  [] \<Rightarrow> canonicalize_loop n rest stack out
                | p # st \<Rightarrow> canonicalize_loop n rest st (take p out))
              else if length stack \<ge> max_segments then None
              else if length out > 1 \<and> length out + 1 \<ge> n then None
              else let out1 = (if length out > 1 then out @ ''/'' else out)
                   in if length out1 + length seg \<ge> n then None
                      else canonicalize_loop n rest (length out1 # stack) (out1 @ seg))"
  by pat_completeness auto
termination by (relation "measure (\<lambda>(n, inp, stack, out). length inp)") simp_all

declare canonicalize_loop.simps [simp del]

definition vfs_canonicalize :: "string \<Rightarrow> nat \<Rightarrow> string option" where
  "vfs_canonicalize inp n =
     (if n = 0 then None
      else if inp = [] then (if n < 2 then None else Some ''/'')
      else map_option (\<lambda>out. if length out > 1 \<and> last out = CHR ''/'' then butlast out else out)
             (canonicalize_loop n (skip_slashes inp) [] ''/''))"

text \<open>\<open>combined\<close> has twice the size of a path.\<close>

definition to_slash :: "string \<Rightarrow> string" where
  "to_slash = map (\<lambda>c. if c = CHR 0x5C then CHR ''/'' else c)"

definition vfs_build_absolute_path :: "string option \<Rightarrow> string option \<Rightarrow> nat \<Rightarrow> string option" where
  "vfs_build_absolute_path base path n =
     (case path of
        None \<Rightarrow> None
      | Some pth \<Rightarrow>
          if n = 0 then None
          else let b = (case base of Some (c # cs) \<Rightarrow> c # cs | _ \<Rightarrow> ''/'')
               in if pth \<noteq> [] \<and> hd pth = CHR ''/''
                  then (if length pth + 1 > VFS_PATH_MAX * 2 then None else vfs_canonicalize (to_slash pth) n)
                  else if length b + (if b = ''/'' then 0 else 1) + length pth + 1 > VFS_PATH_MAX * 2 then None
                  else vfs_canonicalize
                         (to_slash b @ (if b \<noteq> ''/'' \<and> last (to_slash b) \<noteq> CHR ''/'' then ''/'' else []) @ to_slash pth) n)"

definition vfs_normalize_path :: "string option \<Rightarrow> nat \<Rightarrow> string option" where
  "vfs_normalize_path path n = vfs_build_absolute_path (Some ''/'') path n"

section \<open>Drivers, mounts and open files\<close>

record 's vfs_fs_driver =
  drv_list :: "(ptr option \<Rightarrow> string \<Rightarrow> 's \<Rightarrow> (bool \<times> fs_dir_entry list) \<times> 's) option"
  drv_read :: "(ptr option \<Rightarrow> string \<Rightarrow> nat \<Rightarrow> nat \<Rightarrow> 's \<Rightarrow> byte list option \<times> 's) option"
  drv_read_all :: "(ptr option \<Rightarrow> string \<Rightarrow> 's \<Rightarrow> (ptr \<times> byte list) option \<times> 's) option"
  drv_write :: "(ptr option \<Rightarrow> string \<Rightarrow> nat \<Rightarrow> byte list \<Rightarrow> 's \<Rightarrow> (nat option \<times> 's) option) option"
  drv_write_all :: "(ptr option \<Rightarrow> string \<Rightarrow> byte list \<Rightarrow> 's \<Rightarrow> (bool \<times> 's) option) option"
  drv_create_file :: "(ptr option \<Rightarrow> string \<Rightarrow> bool \<Rightarrow> 's \<Rightarrow> bool \<times> 's) option"
  drv_truncate_file :: "(ptr option \<Rightarrow> string \<Rightarrow> 's \<Rightarrow> bool \<times> 's) option"
  drv_stat :: "(ptr option \<Rightarrow> string \<Rightarrow> 's \<Rightarrow> fs_path_info option \<times> 's) option"
  drv_open :: "(ptr option \<Rightarrow> string \<Rightarrow> u32w \<Rightarrow> 's \<Rightarrow> (errno + ptr) \<times> 's) option"
  drv_unlink :: "(ptr option \<Rightarrow> string \<Rightarrow> 's \<Rightarrow> (errno + nat) \<times> 's) option"
  drv_mkdir :: "(ptr option \<Rightarrow> string \<Rightarrow> bool \<Rightarrow> 's \<Rightarrow> (errno + nat) \<times> 's) option"
  drv_rmdir :: "(ptr option \<Rightarrow> string \<Rightarrow> 's \<Rightarrow> (errno + nat) \<times> 's) option"
  drv_rename :: "(ptr option \<Rightarrow> string \<Rightarrow> string \<Rightarrow> 's \<Rightarrow> (errno + nat) \<times> 's) option"
  drv_mknod :: "(ptr option \<Rightarrow> string \<Rightarrow> u32w \<Rightarrow> nat \<Rightarrow> 's \<Rightarrow> (errno + nat) \<times> 's) option"
  drv_chmod :: "(ptr option \<Rightarrow> string \<Rightarrow> u32w \<Rightarrow> 's \<Rightarrow> (errno + nat) \<times> 's) option"
  drv_utimens :: "(ptr option \<Rightarrow> string \<Rightarrow> (timespec \<times> timespec) option \<Rightarrow> 's \<Rightarrow> (errno + nat) \<times> 's) option"
  drv_destroy :: "(ptr option \<Rightarrow> 's \<Rightarrow> 's) option"

record vfs_mount_entry =
  me_addr :: ptr
  me_path :: string
  me_driver :: ptr
  me_ctx :: "ptr option"
  me_read_only :: bool

text \<open>\<open>vb_data\<close>: the address of the buffer and its \<open>vb_capacity\<close> bytes.\<close>

record vfs_file_buffer =
  vb_data :: "(ptr \<times> byte list) option"
  vb_size :: nat
  vb_capacity :: nat
  vb_offset :: nat
  vb_dirty :: bool
  vb_writable :: bool
  vb_streaming :: bool
  vb_size_known :: bool
  vb_info_valid :: bool
  vb_read_only :: bool
  vb_info :: fs_path_info
  vb_driver :: ptr
  vb_ctx :: "ptr option"
  vb_relative :: string

record 'o vfs_sys = tmpfs_sys +
  v_initialized :: bool
  v_mounts :: "vfs_mount_entry list"
  v_buffers :: "ptr \<Rightarrow> vfs_file_buffer option"
  v_other :: 'o

type_synonym 'o drivers = "ptr \<Rightarrow> 'o vfs_sys vfs_fs_driver"

definition vfs_initialize :: "'o vfs_sys \<Rightarrow> bool \<times> 'o vfs_sys" where
  "vfs_initialize s = (True, if v_initialized s then s else s\<lparr>v_mounts := [], v_initialized := True\<rparr>)"

definition shutdown_mount :: "'o drivers \<Rightarrow> vfs_mount_entry \<Rightarrow> 'o vfs_sys \<Rightarrow> 'o vfs_sys" where
  "shutdown_mount D e s =
     (let s1 = (case drv_destroy (D (me_driver e)) of None \<Rightarrow> s | Some destroy \<Rightarrow> destroy (me_ctx e) s)
      in s1\<lparr>fmem := kfree_obj (me_addr e) (fmem s1)\<rparr>)"

definition vfs_shutdown :: "'o drivers \<Rightarrow> 'o vfs_sys \<Rightarrow> 'o vfs_sys" where
  "vfs_shutdown D s =
     (if \<not> v_initialized s then s
      else (fold (shutdown_mount D) (v_mounts s) s)\<lparr>v_mounts := [], v_initialized := False\<rparr>)"

text \<open>Whether \<open>path\<close> lies under the mount, and the search for the longest such mount.\<close>

definition under_mount :: "string \<Rightarrow> vfs_mount_entry \<Rightarrow> bool" where
  "under_mount path e \<longleftrightarrow> length (me_path e) \<le> length path \<and> take (length (me_path e)) path = me_path e \<and>
     (length (me_path e) < length path \<longrightarrow> me_path e = ''/'' \<or> path ! length (me_path e) = CHR ''/'')"

fun find_mount :: "string \<Rightarrow> vfs_mount_entry list \<Rightarrow> vfs_mount_entry option \<Rightarrow> nat \<Rightarrow> vfs_mount_entry option \<times> nat" where
  "find_mount path [] best best_len = (best, best_len)"
| "find_mount path (e # es) best best_len =
     (if under_mount path e \<and> length (me_path e) > best_len then find_mount path es (Some e) (length (me_path e))
      else find_mount path es best best_len)"

definition vfs_find_mount_locked :: "string \<Rightarrow> 'o vfs_sys \<Rightarrow> vfs_mount_entry option \<times> nat" where
  "vfs_find_mount_locked path s = find_mount path (v_mounts s) None 0"

definition vfs_mount :: "string option \<Rightarrow> ptr option \<Rightarrow> ptr option \<Rightarrow> bool \<Rightarrow> 'o vfs_sys \<Rightarrow> bool \<times> 'o vfs_sys" where
  "vfs_mount path driver ctx ro s0 =
     (let s = snd (vfs_initialize s0) in
      case driver of
        None \<Rightarrow> (False, s)
      | Some d \<Rightarrow>
          (case vfs_normalize_path path 128 of
             None \<Rightarrow> (False, s)
           | Some normalized \<Rightarrow>
               (case vfs_find_mount_locked normalized s of
                  (existing, prefix_len) \<Rightarrow>
                    if existing \<noteq> None \<and> prefix_len = length normalized then (False, s)
                    else case kmalloc_obj (fmem s) of
                      (None, m) \<Rightarrow> (False, s\<lparr>fmem := m\<rparr>)
                    | (Some a, m) \<Rightarrow>
                        (True, s\<lparr>fmem := m, v_mounts := \<lparr>me_addr = a, me_path = normalized, me_driver = d, me_ctx = ctx,
                                  me_read_only = ro\<rparr> # v_mounts s\<rparr>))))"

definition vfs_mount_root :: "ptr option \<Rightarrow> ptr option \<Rightarrow> bool \<Rightarrow> 'o vfs_sys \<Rightarrow> bool \<times> 'o vfs_sys" where
  "vfs_mount_root driver ctx ro s = vfs_mount (Some ''/'') driver ctx ro s"

text \<open>The mount of a path and the path relative to it; every caller gives a buffer of \<^verbatim>\<open>VFS_PATH_MAX\<close> bytes.\<close>

definition vfs_resolve :: "string option \<Rightarrow> 'o vfs_sys \<Rightarrow> (vfs_mount_entry \<times> string) option" where
  "vfs_resolve path s =
     (if \<not> v_initialized s then None
      else case vfs_normalize_path path 128 of
        None \<Rightarrow> None
      | Some normalized \<Rightarrow>
          (case vfs_find_mount_locked normalized s of
             (None, _) \<Rightarrow> None
           | (Some e, prefix_len) \<Rightarrow>
               (let remainder = (if me_path e = ''/'' then normalized else drop prefix_len normalized)
                in if remainder = [] then Some (e, ''/'')
                   else if length remainder + 1 > VFS_PATH_MAX then None else Some (e, remainder))))"

section \<open>Operations by path\<close>

definition rootless :: "string \<Rightarrow> string option" where
  "rootless rel = (if rel \<noteq> [] \<and> hd rel = CHR ''/'' \<and> tl rel \<noteq> [] then Some (tl rel) else None)"

definition vfs_path_info :: "'o drivers \<Rightarrow> string option \<Rightarrow> 'o vfs_sys \<Rightarrow> fs_path_info option \<times> 'o vfs_sys" where
  "vfs_path_info D path s =
     (case vfs_resolve path s of
        None \<Rightarrow> (None, s)
      | Some (e, rel) \<Rightarrow>
          (case drv_stat (D (me_driver e)) of
             None \<Rightarrow> (None, s)
           | Some stat \<Rightarrow>
               (let (info, s2) = (case stat (me_ctx e) rel s of
                        (Some i, s1) \<Rightarrow> (Some i, s1)
                      | (None, s1) \<Rightarrow> (case rootless rel of Some rel' \<Rightarrow> stat (me_ctx e) rel' s1 | None \<Rightarrow> (None, s1)))
                in (map_option (\<lambda>i. if me_read_only e then i\<lparr>pi_is_read_only := True\<rparr> else i) info, s2))))"

text \<open>The mounts directly below the root are entries of the root directory; their iterator's answer is ignored.\<close>

definition mount_dir_entry :: "vfs_mount_entry \<Rightarrow> fs_dir_entry option" where
  "mount_dir_entry e =
     (if length (me_path e) \<le> 1 \<or> CHR ''/'' \<in> set (tl (me_path e)) \<or> length (tl (me_path e)) \<ge> 256 then None
      else Some \<lparr>de_name = tl (me_path e), de_is_directory = True, de_size = 0\<rparr>)"

definition vfs_list ::
    "'o drivers \<Rightarrow> string option \<Rightarrow> (fs_dir_entry \<Rightarrow> 'c \<Rightarrow> bool \<times> 'c) \<Rightarrow> 'c \<Rightarrow> 'o vfs_sys \<Rightarrow> (bool \<times> 'c) \<times> 'o vfs_sys" where
  "vfs_list D path iter c s =
     (case vfs_resolve path s of
        None \<Rightarrow> ((False, c), s)
      | Some (e, rel) \<Rightarrow>
          (case drv_list (D (me_driver e)) of
             None \<Rightarrow> ((False, c), s)
           | Some ls \<Rightarrow>
               (case ls (me_ctx e) rel s of
                  ((ok, entries), s1) \<Rightarrow>
                    (let c1 = iterate iter entries c;
                         ms = (if rel = ''/'' then List.map_filter mount_dir_entry (v_mounts s1) else [])
                     in ((ok \<or> ms \<noteq> [], fold (\<lambda>m c. snd (iter m c)) ms c1), s1)))))"

definition vfs_read :: "'o drivers \<Rightarrow> string option \<Rightarrow> nat \<Rightarrow> nat \<Rightarrow> 'o vfs_sys \<Rightarrow> byte list option \<times> 'o vfs_sys" where
  "vfs_read D path off len s =
     (case vfs_resolve path s of
        None \<Rightarrow> (None, s)
      | Some (e, rel) \<Rightarrow>
          (case drv_read (D (me_driver e)) of None \<Rightarrow> (None, s) | Some rd \<Rightarrow> rd (me_ctx e) rel off len s))"

definition vfs_read_all :: "'o drivers \<Rightarrow> string option \<Rightarrow> 'o vfs_sys \<Rightarrow> (ptr \<times> byte list) option \<times> 'o vfs_sys" where
  "vfs_read_all D path s =
     (case vfs_resolve path s of
        None \<Rightarrow> (None, s)
      | Some (e, rel) \<Rightarrow>
          (case drv_read_all (D (me_driver e)) of None \<Rightarrow> (None, s) | Some rd \<Rightarrow> rd (me_ctx e) rel s))"

definition vfs_path_is_directory :: "'o drivers \<Rightarrow> string option \<Rightarrow> 'o vfs_sys \<Rightarrow> bool \<times> 'o vfs_sys" where
  "vfs_path_is_directory D path s =
     (if path = None then (False, s)
      else case vfs_path_info D path s of
        (Some i, s1) \<Rightarrow> (pi_is_directory i, s1)
      | (None, s1) \<Rightarrow> (case vfs_list D path (\<lambda>_ _. (True, ())) () s1 of ((ok, _), s2) \<Rightarrow> (ok, s2)))"

text \<open>What the changing operations share: the checks before the driver is called.\<close>

definition on_writable_mount ::
    "'o drivers \<Rightarrow> string option \<Rightarrow> ('o vfs_sys vfs_fs_driver \<Rightarrow> 'f option)
       \<Rightarrow> ('f \<Rightarrow> ptr option \<Rightarrow> string \<Rightarrow> 'o vfs_sys \<Rightarrow> (errno + nat) \<times> 'o vfs_sys) \<Rightarrow> 'o vfs_sys \<Rightarrow> (errno + nat) \<times> 'o vfs_sys" where
  "on_writable_mount D path opn call s =
     (if path = None then (Inl EINVAL, s)
      else case vfs_resolve path s of
        None \<Rightarrow> (Inl ENOENT, s)
      | Some (e, rel) \<Rightarrow>
          if me_read_only e then (Inl EROFS, s)
          else case opn (D (me_driver e)) of
            None \<Rightarrow> (Inl ENOSYS, s)
          | Some f \<Rightarrow> call f (me_ctx e) rel s)"

definition vfs_unlink :: "'o drivers \<Rightarrow> string option \<Rightarrow> 'o vfs_sys \<Rightarrow> (errno + nat) \<times> 'o vfs_sys" where
  "vfs_unlink D path s = on_writable_mount D path drv_unlink (\<lambda>f ctx rel. f ctx rel) s"

definition vfs_rmdir :: "'o drivers \<Rightarrow> string option \<Rightarrow> 'o vfs_sys \<Rightarrow> (errno + nat) \<times> 'o vfs_sys" where
  "vfs_rmdir D path s = on_writable_mount D path drv_rmdir (\<lambda>f ctx rel. f ctx rel) s"

definition vfs_chmod :: "'o drivers \<Rightarrow> string option \<Rightarrow> u32w \<Rightarrow> 'o vfs_sys \<Rightarrow> (errno + nat) \<times> 'o vfs_sys" where
  "vfs_chmod D path mode s = on_writable_mount D path drv_chmod (\<lambda>f ctx rel. f ctx rel mode) s"

definition vfs_utimens ::
    "'o drivers \<Rightarrow> string option \<Rightarrow> (timespec \<times> timespec) option \<Rightarrow> 'o vfs_sys \<Rightarrow> (errno + nat) \<times> 'o vfs_sys" where
  "vfs_utimens D path tms s = on_writable_mount D path drv_utimens (\<lambda>f ctx rel. f ctx rel tms) s"

definition vfs_mknod :: "'o drivers \<Rightarrow> string option \<Rightarrow> u32w \<Rightarrow> nat \<Rightarrow> 'o vfs_sys \<Rightarrow> (errno + nat) \<times> 'o vfs_sys" where
  "vfs_mknod D path mode dev s =
     on_writable_mount D path drv_mknod
       (\<lambda>f ctx rel s. case vfs_path_info D path s of
            (Some i, s1) \<Rightarrow> (Inl EEXIST, s1)
          | (None, s1) \<Rightarrow> f ctx rel mode dev s1) s"

definition vfs_rename :: "'o drivers \<Rightarrow> string option \<Rightarrow> string option \<Rightarrow> 'o vfs_sys \<Rightarrow> (errno + nat) \<times> 'o vfs_sys" where
  "vfs_rename D old_path new_path s =
     (if old_path = None \<or> new_path = None then (Inl EINVAL, s)
      else if old_path = new_path then (Inr 0, s)
      else case (vfs_resolve old_path s, vfs_resolve new_path s) of
        (Some (e, rel), Some (e', rel')) \<Rightarrow>
          if me_driver e \<noteq> me_driver e' \<or> me_ctx e \<noteq> me_ctx e' then (Inl EXDEV, s)
          else if me_read_only e \<or> me_read_only e' then (Inl EROFS, s)
          else (case drv_rename (D (me_driver e)) of None \<Rightarrow> (Inl ENOSYS, s) | Some ren \<Rightarrow> ren (me_ctx e) rel rel' s)
      | _ \<Rightarrow> (Inl ENOENT, s))"

section \<open>Operations on open files\<close>

definition vfs_file_ops :: file_ops where
  "vfs_file_ops = \<lparr>op_table = ''vfs_file'', op_read = True, op_write = True, op_close = True, op_seek = True, op_ioctl = False,
     op_mmap = False, op_stat = True, op_chmod = True, op_utimens = True\<rparr>"

definition buffer_of :: "ptr \<Rightarrow> 'o vfs_sys \<Rightarrow> (ptr \<times> vfs_file_buffer) option" where
  "buffer_of f s =
     (case fobjs s f of
        None \<Rightarrow> None
      | Some ob \<Rightarrow> (case f_private ob of None \<Rightarrow> None | Some p \<Rightarrow> map_option (Pair p) (v_buffers s p)))"

definition set_buffer :: "ptr \<Rightarrow> vfs_file_buffer \<Rightarrow> 'o vfs_sys \<Rightarrow> 'o vfs_sys" where
  "set_buffer p b s = s\<lparr>v_buffers := (v_buffers s)(p \<mapsto> b)\<rparr>"

definition vfs_file_read_impl ::
    "'o drivers \<Rightarrow> ptr \<Rightarrow> ptr option \<Rightarrow> nat \<Rightarrow> 'o vfs_sys \<Rightarrow> (errno + byte list) \<times> 'o vfs_sys" where
  "vfs_file_read_impl D f buffer len s =
     (if buffer = None \<or> len = 0 then (Inr [], s)
      else case buffer_of f s of
        None \<Rightarrow> (Inl EINVAL, s)
      | Some (p, b) \<Rightarrow>
          if vb_streaming b then
            (case drv_read (D (vb_driver b)) of
               None \<Rightarrow> (Inl ENOSYS, s)
             | Some rd \<Rightarrow>
                 (case rd (vb_ctx b) (vb_relative b) (vb_offset b) len s of
                    (None, s1) \<Rightarrow> (Inl EIO, s1)
                  | (Some bs, s1) \<Rightarrow>
                      (let off = u64 (vb_offset b + length bs)
                       in (Inr bs, set_buffer p (b\<lparr>vb_offset := off,
                             vb_size := (if vb_size_known b \<and> off > vb_size b then off else vb_size b)\<rparr>) s1))))
          else case vb_data b of
            None \<Rightarrow> (Inl EINVAL, s)
          | Some (d, bytes) \<Rightarrow>
              if vb_offset b \<ge> vb_size b then (Inr [], s)
              else let k = min (vb_size b - vb_offset b) len
                   in (Inr (take k (drop (vb_offset b) bytes)), set_buffer p (b\<lparr>vb_offset := u64 (vb_offset b + k)\<rparr>) s))"

text \<open>
  Storing into the buffer of a file that is not streaming: the capacity is doubled until the data fits (forever, if that wraps to 0)
  and the new part is cleared.
\<close>

definition grow_data :: "nat \<Rightarrow> ptr \<Rightarrow> byte list \<Rightarrow> nat \<Rightarrow> 'o vfs_sys \<Rightarrow> (ptr \<times> byte list) option \<times> 'o vfs_sys" where
  "grow_data cap d bytes new_cap s =
     (if new_cap = cap then (Some (d, bytes), s)
      else case kmalloc_obj (fmem s) of
        (None, m) \<Rightarrow> (None, s\<lparr>fmem := m\<rparr>)
      | (Some d', m) \<Rightarrow>
          (Some (d', take new_cap bytes @ replicate (new_cap - cap) 0), s\<lparr>fmem := kfree_obj d m\<rparr>))"

definition put_bytes :: "nat \<Rightarrow> byte list \<Rightarrow> byte list \<Rightarrow> byte list" where
  "put_bytes off bs bytes = take off bytes @ bs @ drop (off + length bs) bytes"

definition store_data :: "ptr \<Rightarrow> vfs_file_buffer \<Rightarrow> byte list \<Rightarrow> 'o vfs_sys \<Rightarrow> ((errno + nat) \<times> 'o vfs_sys) option" where
  "store_data p b bs s =
     (case vb_data b of
        None \<Rightarrow> Some (Inl EINVAL, s)
      | Some (d, bytes) \<Rightarrow>
          (case grow_capacity (if vb_capacity b \<noteq> 0 then vb_capacity b else 1) (u64 (vb_offset b + length bs)) of
             None \<Rightarrow> None
           | Some new_cap \<Rightarrow>
               (case grow_data (vb_capacity b) d bytes new_cap s of
                  (None, s1) \<Rightarrow> Some (Inl ENOMEM, s1)
                | (Some (d', bytes'), s1) \<Rightarrow>
                    (let cleared = put_bytes (vb_size b) (replicate (vb_offset b - vb_size b) 0) bytes';
                         off = u64 (vb_offset b + length bs)
                     in Some (Inr (length bs), set_buffer p (b\<lparr>vb_data := Some (d', put_bytes (vb_offset b) bs cleared),
                          vb_capacity := new_cap, vb_offset := off, vb_size := max (vb_size b) off, vb_dirty := True,
                          vb_info_valid := False\<rparr>) s1)))))"

definition vfs_file_write_impl ::
    "'o drivers \<Rightarrow> ptr \<Rightarrow> byte list option \<Rightarrow> 'o vfs_sys \<Rightarrow> ((errno + nat) \<times> 'o vfs_sys) option" where
  "vfs_file_write_impl D f buffer s =
     (case buffer of
        None \<Rightarrow> Some (Inl EINVAL, s)
      | Some bs \<Rightarrow>
          (case buffer_of f s of
             None \<Rightarrow> Some (Inl EINVAL, s)
           | Some (p, b) \<Rightarrow>
               if \<not> vb_writable b then Some (Inl EBADF, s)
               else if bs = [] then Some (Inr 0, s)
               else if vb_streaming b then
                 (case drv_write (D (vb_driver b)) of
                    None \<Rightarrow> Some (Inl ENOSYS, s)
                  | Some wr \<Rightarrow>
                      (case wr (vb_ctx b) (vb_relative b) (vb_offset b) bs s of
                         None \<Rightarrow> None
                       | Some (None, s1) \<Rightarrow> Some (Inl EIO, s1)
                       | Some (Some n, s1) \<Rightarrow>
                           (let off = u64 (vb_offset b + n)
                            in Some (Inr n, set_buffer p (b\<lparr>vb_offset := off,
                                 vb_size := (if vb_size_known b then max (vb_size b) off else off), vb_size_known := True\<rparr>) s1))))
               else store_data p b bs s))"

definition vfs_stream_refresh_size :: "'o drivers \<Rightarrow> vfs_file_buffer \<Rightarrow> 'o vfs_sys \<Rightarrow> (bool \<times> vfs_file_buffer) \<times> 'o vfs_sys" where
  "vfs_stream_refresh_size D b s =
     (if \<not> vb_streaming b then ((False, b), s)
      else case drv_stat (D (vb_driver b)) of
        None \<Rightarrow> ((False, b), s)
      | Some stat \<Rightarrow>
          (case stat (vb_ctx b) (vb_relative b) s of
             (None, s1) \<Rightarrow> ((False, b), s1)
           | (Some i, s1) \<Rightarrow>
               ((True, b\<lparr>vb_size := pi_size i, vb_size_known := True, vb_info := i, vb_info_valid := True\<rparr>), s1)))"

text \<open>The information on an open file: remembered, or asked of the driver, or made up.\<close>

definition buffer_info :: "'o drivers \<Rightarrow> ptr \<Rightarrow> vfs_file_buffer \<Rightarrow> 'o vfs_sys \<Rightarrow> fs_path_info \<times> 'o vfs_sys" where
  "buffer_info D p b s =
     (let made_up = empty_info\<lparr>pi_is_read_only := \<not> vb_writable b,
              pi_block_size := (if pi_block_size (vb_info b) \<noteq> 0 then pi_block_size (vb_info b) else 512),
              pi_size := (if vb_size_known b then vb_size b else 0), pi_inode := pi_inode (vb_info b)\<rparr>
      in if vb_info_valid b then (vb_info b, s)
         else case drv_stat (D (vb_driver b)) of
           None \<Rightarrow> (made_up, s)
         | Some stat \<Rightarrow>
             (case stat (vb_ctx b) (vb_relative b) s of
                (Some i, s1) \<Rightarrow> (i, set_buffer p (b\<lparr>vb_info := i, vb_info_valid := True\<rparr>) s1)
              | (None, s1) \<Rightarrow> (made_up, s1)))"

definition vfs_file_stat_impl :: "'o drivers \<Rightarrow> ptr \<Rightarrow> 'o vfs_sys \<Rightarrow> (errno + kstat) \<times> 'o vfs_sys" where
  "vfs_file_stat_impl D f s =
     (case buffer_of f s of
        None \<Rightarrow> (Inl EINVAL, s)
      | Some (p, b) \<Rightarrow>
          (case buffer_info D p b s of
             (i, s1) \<Rightarrow>
               (let i1 = (if vb_size_known b \<and> pi_size i < vb_size b then i\<lparr>pi_size := vb_size b\<rparr> else i);
                    i2 = (if pi_block_size i1 = 0 then i1\<lparr>pi_block_size := 512\<rparr> else i1)
                in (Inr (fs_path_info_to_stat (Some i2)), s1))))"

text \<open>A change of the driver's metadata invalidates the information remembered.\<close>

definition buffer_meta ::
    "'o drivers \<Rightarrow> ('o vfs_sys vfs_fs_driver \<Rightarrow> 'f option) \<Rightarrow> ('f \<Rightarrow> ptr option \<Rightarrow> string \<Rightarrow> 'o vfs_sys \<Rightarrow> (errno + nat) \<times> 'o vfs_sys)
       \<Rightarrow> ptr \<Rightarrow> 'o vfs_sys \<Rightarrow> (errno + nat) \<times> 'o vfs_sys" where
  "buffer_meta D opn call f s =
     (case buffer_of f s of
        None \<Rightarrow> (Inl EINVAL, s)
      | Some (p, b) \<Rightarrow>
          (case opn (D (vb_driver b)) of
             None \<Rightarrow> (Inl ENOSYS, s)
           | Some g \<Rightarrow>
               if vb_read_only b then (Inl EROFS, s)
               else (case call g (vb_ctx b) (vb_relative b) s of
                       (Inr 0, s1) \<Rightarrow> (Inr 0, set_buffer p (b\<lparr>vb_info_valid := False\<rparr>) s1)
                     | (rc, s1) \<Rightarrow> (rc, s1))))"

definition vfs_file_chmod_impl :: "'o drivers \<Rightarrow> ptr \<Rightarrow> u32w \<Rightarrow> 'o vfs_sys \<Rightarrow> (errno + nat) \<times> 'o vfs_sys" where
  "vfs_file_chmod_impl D f mode s = buffer_meta D drv_chmod (\<lambda>g ctx rel. g ctx rel mode) f s"

definition vfs_file_utimens_impl ::
    "'o drivers \<Rightarrow> ptr \<Rightarrow> (timespec \<times> timespec) option \<Rightarrow> 'o vfs_sys \<Rightarrow> (errno + nat) \<times> 'o vfs_sys" where
  "vfs_file_utimens_impl D f tms s = buffer_meta D drv_utimens (\<lambda>g ctx rel. g ctx rel tms) f s"

text \<open>Closing writes a changed buffer back; the result is the error of that, if any.\<close>

definition vfs_file_close_impl :: "'o drivers \<Rightarrow> ptr \<Rightarrow> 'o vfs_sys \<Rightarrow> ((errno + nat) \<times> 'o vfs_sys) option" where
  "vfs_file_close_impl D f s =
     (case buffer_of f s of
        None \<Rightarrow> Some (Inr 0, s)
      | Some (p, b) \<Rightarrow>
          (let written =
                 (case drv_write_all (D (vb_driver b)) of
                    Some wr \<Rightarrow>
                      if \<not> vb_streaming b \<and> vb_dirty b \<and> vb_writable b
                      then map_option (\<lambda>(ok, s1). (if ok then Inr 0 else Inl EIO, s1))
                             (wr (vb_ctx b) (vb_relative b) (take (vb_size b) (case vb_data b of Some (d, bs) \<Rightarrow> bs | None \<Rightarrow> [])) s)
                      else Some (Inr 0, s)
                  | None \<Rightarrow> Some (Inr 0, s))
           in map_option (\<lambda>(rc, s1).
                (let m = (case vb_data b of Some (d, bs) \<Rightarrow> kfree_obj d (fmem s1) | None \<Rightarrow> fmem s1)
                 in (rc, s1\<lparr>fmem := kfree_obj p m, v_buffers := (v_buffers s1)(p := None),
                          fobjs := (fobjs s1)(f := map_option (\<lambda>ob. ob\<lparr>f_private := None\<rparr>) (fobjs s1 f))\<rparr>))) written))"

text \<open>Beyond the end, a streaming file that can be written grows; other files refuse.\<close>

definition seek_to :: "ptr \<Rightarrow> vfs_file_buffer \<Rightarrow> int \<Rightarrow> 'o vfs_sys \<Rightarrow> (errno + nat) \<times> 'o vfs_sys" where
  "seek_to p b pos s =
     (if pos < 0 then (Inl EINVAL, set_buffer p b s)
      else if \<not> vb_streaming b \<and> nat pos > vb_size b then (Inl EINVAL, set_buffer p b s)
      else if vb_streaming b \<and> vb_size_known b \<and> nat pos > vb_size b
           then (if vb_writable b then (Inr (nat pos), set_buffer p (b\<lparr>vb_size := nat pos, vb_offset := nat pos\<rparr>) s)
                 else (Inl EINVAL, set_buffer p b s))
      else (Inr (nat pos), set_buffer p (b\<lparr>vb_offset := nat pos\<rparr>) s))"

definition vfs_file_seek_impl :: "'o drivers \<Rightarrow> ptr \<Rightarrow> int \<Rightarrow> whence \<Rightarrow> 'o vfs_sys \<Rightarrow> (errno + nat) \<times> 'o vfs_sys" where
  "vfs_file_seek_impl D f off wh s =
     (case buffer_of f s of
        None \<Rightarrow> (Inl EINVAL, s)
      | Some (p, b) \<Rightarrow>
          (case wh of
             SEEK_SET \<Rightarrow> seek_to p b (s64 off) s
           | SEEK_CUR \<Rightarrow> seek_to p b (s64 (s64 (int (vb_offset b)) + off)) s
           | SEEK_END \<Rightarrow>
               if vb_streaming b \<and> \<not> vb_size_known b then
                 (case vfs_stream_refresh_size D b s of
                    ((False, b1), s1) \<Rightarrow> (Inl ENOSYS, s1)
                  | ((True, b1), s1) \<Rightarrow> seek_to p b1 (s64 (s64 (int (vb_size b1)) + off)) s1)
               else seek_to p b (s64 (s64 (int (vb_size b)) + off)) s
           | SEEK_OTHER \<Rightarrow> (Inl EINVAL, s)))"

section \<open>Opening\<close>

definition O_DIRECTORY :: u32w where "O_DIRECTORY = 0x1000"

definition opens_writable :: "u32w \<Rightarrow> bool" where
  "opens_writable flags \<longleftrightarrow> flags AND 3 = 1 \<or> flags AND 3 = 2"

definition wants_change :: "u32w \<Rightarrow> bool" where
  "wants_change flags \<longleftrightarrow> opens_writable flags \<or> flags AND O_APPEND \<noteq> 0 \<or> flags AND (O_CREAT OR O_TRUNC) \<noteq> 0"

text \<open>The choice of streaming, then creation and truncation.\<close>

definition choose_streaming :: "'o vfs_sys vfs_fs_driver \<Rightarrow> u32w \<Rightarrow> bool \<Rightarrow> errno + bool" where
  "choose_streaming d flags ro =
     (if wants_change flags \<and> ro then Inl EROFS
      else if wants_change flags then (if drv_write d = None then Inl ENOSYS else Inr True)
      else if drv_read_all d = None then (if drv_read d \<noteq> None then Inr True else Inl ENOSYS)
      else Inr False)"

definition prepare_file :: "'o vfs_sys vfs_fs_driver \<Rightarrow> ptr option \<Rightarrow> string \<Rightarrow> u32w \<Rightarrow> 'o vfs_sys \<Rightarrow> errno option \<times> 'o vfs_sys" where
  "prepare_file d ctx rel flags s =
     (let excl = (flags AND O_EXCL \<noteq> 0);
          (err, s1) =
            (if flags AND O_CREAT \<noteq> 0 then
               (case drv_create_file d of
                  None \<Rightarrow> (Some ENOSYS, s)
                | Some create \<Rightarrow>
                    (case create ctx rel excl s of (True, s1) \<Rightarrow> (None, s1) | (False, s1) \<Rightarrow> (Some (if excl then EEXIST else EIO), s1)))
             else (if excl then (Some EINVAL, s) else (None, s)))
      in if err \<noteq> None then (err, s1)
         else if flags AND O_TRUNC \<noteq> 0 then
           (case drv_truncate_file d of
              None \<Rightarrow> (Some ENOSYS, s1)
            | Some trunc \<Rightarrow> (case trunc ctx rel s1 of (True, s2) \<Rightarrow> (None, s2) | (False, s2) \<Rightarrow> (Some EIO, s2)))
         else (None, s1))"

text \<open>The size of a file from a copy of its content, which is freed at once.\<close>

definition size_by_reading ::
    "'o vfs_sys vfs_fs_driver \<Rightarrow> ptr option \<Rightarrow> string \<Rightarrow> 'o vfs_sys \<Rightarrow> nat option \<times> 'o vfs_sys" where
  "size_by_reading d ctx rel s =
     (case drv_read_all d of
        None \<Rightarrow> (None, s)
      | Some rd \<Rightarrow>
          (case rd ctx rel s of
             (None, s1) \<Rightarrow> (None, s1)
           | (Some (p, bs), s1) \<Rightarrow> (Some (length bs), s1\<lparr>fmem := kfree_obj p (fmem s1)\<rparr>)))"

definition probe_size ::
    "'o vfs_sys vfs_fs_driver \<Rightarrow> ptr option \<Rightarrow> string \<Rightarrow> u32w \<Rightarrow> 'o vfs_sys \<Rightarrow> (nat option \<times> fs_path_info option) \<times> 'o vfs_sys" where
  "probe_size d ctx rel flags s =
     (if flags AND (O_CREAT OR O_TRUNC) \<noteq> 0
      then ((Some 0, Some (empty_info\<lparr>pi_is_read_only := \<not> opens_writable flags, pi_block_size := 512\<rparr>)), s)
      else let (info, s1) = (case drv_stat d of None \<Rightarrow> (None, s) | Some stat \<Rightarrow> stat ctx rel s)
           in case info of
                Some i \<Rightarrow> ((Some (pi_size i), Some i), s1)
              | None \<Rightarrow> (case size_by_reading d ctx rel s1 of (sz, s2) \<Rightarrow> ((sz, None), s2)))"

text \<open>The offset of a streaming file opened for appending: its size, found out if it is not known yet.\<close>

definition append_offset :: "'o drivers \<Rightarrow> vfs_file_buffer \<Rightarrow> string \<Rightarrow> 'o vfs_sys \<Rightarrow> vfs_file_buffer \<times> 'o vfs_sys" where
  "append_offset D b rel s =
     (let (b2, s2) =
            (if vb_size_known b then (b, s)
             else case vfs_stream_refresh_size D b s of
               ((True, b1), s1) \<Rightarrow> (b1, s1)
             | ((False, b1), s1) \<Rightarrow>
                 (case size_by_reading (D (vb_driver b)) (vb_ctx b) rel s1 of
                    (Some n, s2) \<Rightarrow> (b1\<lparr>vb_size := n, vb_size_known := True\<rparr>, s2)
                  | (None, s2) \<Rightarrow> (b1, s2)))
      in (if vb_size_known b2 then b2\<lparr>vb_offset := vb_size b2\<rparr> else b2, s2))"

definition opened_mode :: "u32w \<Rightarrow> u32w" where
  "opened_mode flags = (if opens_writable flags then FILE_MODE_READ OR FILE_MODE_WRITE else FILE_MODE_READ)"

definition open_streaming ::
    "'o drivers \<Rightarrow> ptr \<Rightarrow> ptr option \<Rightarrow> string \<Rightarrow> u32w \<Rightarrow> bool \<Rightarrow> 'o vfs_sys \<Rightarrow> (errno + ptr) \<times> 'o vfs_sys" where
  "open_streaming D d ctx rel flags ro s =
     (case probe_size (D d) ctx rel flags s of
        ((sz, info), s1) \<Rightarrow>
          (case kmalloc_obj (fmem s1) of
             (None, m) \<Rightarrow> (Inl ENOMEM, s1\<lparr>fmem := m\<rparr>)
           | (Some p, m) \<Rightarrow>
               (let b = \<lparr>vb_data = None, vb_size = (case sz of Some n \<Rightarrow> n | None \<Rightarrow> 0), vb_capacity = 0, vb_offset = 0, vb_dirty = False,
                         vb_writable = opens_writable flags, vb_streaming = True, vb_size_known = (sz \<noteq> None),
                         vb_info_valid = (info \<noteq> None), vb_read_only = ro, vb_info = (case info of Some i \<Rightarrow> i | None \<Rightarrow> empty_info),
                         vb_driver = d, vb_ctx = ctx, vb_relative = take (VFS_PATH_MAX - 1) rel\<rparr>;
                    (b1, s2) = (if flags AND O_APPEND \<noteq> 0 then append_offset D b rel (s1\<lparr>fmem := m\<rparr>) else (b, s1\<lparr>fmem := m\<rparr>))
                in case file_create (Some vfs_file_ops) (Some p) (opened_mode flags) s2 of
                     (None, s3) \<Rightarrow> (Inl ENOMEM, s3\<lparr>fmem := kfree_obj p (fmem s3)\<rparr>)
                   | (Some f, s3) \<Rightarrow> (Inr f, set_buffer p b1 s3))))"

definition open_copy ::
    "'o drivers \<Rightarrow> ptr \<Rightarrow> ptr option \<Rightarrow> string \<Rightarrow> u32w \<Rightarrow> bool \<Rightarrow> 'o vfs_sys \<Rightarrow> (errno + ptr) \<times> 'o vfs_sys" where
  "open_copy D d ctx rel flags ro s =
     (case drv_read_all (D d) of
        None \<Rightarrow> (Inl ENOSYS, s)
      | Some rd \<Rightarrow>
          (case rd ctx rel s of
             (None, s1) \<Rightarrow> (Inl ENOENT, s1)
           | (Some (q, bs), s1) \<Rightarrow>
               (case kmalloc_obj (fmem s1) of
                  (None, m) \<Rightarrow> (Inl ENOMEM, s1\<lparr>fmem := kfree_obj q m\<rparr>)
                | (Some p, m) \<Rightarrow>
                    (let (info, s2) = (case drv_stat (D d) of
                             None \<Rightarrow> (None, s1\<lparr>fmem := m\<rparr>)
                           | Some stat \<Rightarrow> stat ctx rel (s1\<lparr>fmem := m\<rparr>));
                         b = \<lparr>vb_data = Some (q, bs), vb_size = length bs, vb_capacity = length bs,
                              vb_offset = (if flags AND O_APPEND \<noteq> 0 then length bs else 0), vb_dirty = False,
                              vb_writable = opens_writable flags, vb_streaming = False, vb_size_known = True,
                              vb_info_valid = (info \<noteq> None), vb_read_only = ro,
                              vb_info = (case info of Some i \<Rightarrow> i | None \<Rightarrow> empty_info),
                              vb_driver = d, vb_ctx = ctx, vb_relative = take (VFS_PATH_MAX - 1) rel\<rparr>
                     in case file_create (Some vfs_file_ops) (Some p) (opened_mode flags) s2 of
                          (None, s3) \<Rightarrow> (Inl ENOMEM, s3\<lparr>fmem := kfree_obj p (kfree_obj q (fmem s3))\<rparr>)
                        | (Some f, s3) \<Rightarrow> (Inr f, set_buffer p b s3)))))"

definition vfs_open_buffered ::
    "'o drivers \<Rightarrow> ptr \<Rightarrow> ptr option \<Rightarrow> string \<Rightarrow> u32w \<Rightarrow> bool \<Rightarrow> 'o vfs_sys \<Rightarrow> (errno + ptr) \<times> 'o vfs_sys" where
  "vfs_open_buffered D d ctx rel flags ro s =
     (case choose_streaming (D d) flags ro of
        Inl e \<Rightarrow> (Inl e, s)
      | Inr streaming \<Rightarrow>
          (case prepare_file (D d) ctx rel flags s of
             (Some e, s1) \<Rightarrow> (Inl e, s1)
           | (None, s1) \<Rightarrow>
               if streaming then open_streaming D d ctx rel flags ro s1 else open_copy D d ctx rel flags ro s1))"

definition vfs_open :: "'o drivers \<Rightarrow> string option \<Rightarrow> u32w \<Rightarrow> 'o vfs_sys \<Rightarrow> (errno + ptr) \<times> 'o vfs_sys" where
  "vfs_open D path flags s =
     (if path = None then (Inl EINVAL, s)
      else case vfs_resolve path s of
        None \<Rightarrow> (Inl ENOENT, s)
      | Some (e, rel) \<Rightarrow>
          (let (rc, s1) = (case drv_open (D (me_driver e)) of None \<Rightarrow> (Inl ENOSYS, s) | Some opn \<Rightarrow> opn (me_ctx e) rel flags s)
           in if rc \<noteq> Inl ENOSYS then (rc, s1)
              else if flags AND O_DIRECTORY \<noteq> 0 then (Inl ENOSYS, s1)
              else vfs_open_buffered D (me_driver e) (me_ctx e) rel flags (me_read_only e) s1))"

text \<open>The close operation of a file that \<^verbatim>\<open>file_unref\<close> drops, for the files of the VFS and of the memory file system.\<close>

definition on_tmp :: "(tmpfs_sys \<Rightarrow> tmpfs_sys) \<Rightarrow> 'o vfs_sys \<Rightarrow> 'o vfs_sys" where
  "on_tmp f s = tmpfs_sys.extend (f (tmpfs_sys.truncate s)) (tmpfs_sys.more s)"

definition on_tmp_pair :: "(tmpfs_sys \<Rightarrow> 'r \<times> tmpfs_sys) \<Rightarrow> 'o vfs_sys \<Rightarrow> 'r \<times> 'o vfs_sys" where
  "on_tmp_pair f s = (case f (tmpfs_sys.truncate s) of (r, t) \<Rightarrow> (r, tmpfs_sys.extend t (tmpfs_sys.more s)))"

definition close_vfs :: "'o drivers \<Rightarrow> ptr \<Rightarrow> 'o vfs_sys \<Rightarrow> 'o vfs_sys" where
  "close_vfs D f s =
     (case fobjs s f of
        None \<Rightarrow> s
      | Some ob \<Rightarrow>
          if f_ops ob = Some vfs_file_ops then (case vfs_file_close_impl D f s of Some (rc, s1) \<Rightarrow> s1 | None \<Rightarrow> s)
          else on_tmp (close_tmp f) s)"

definition vfs_mkdir :: "'o drivers \<Rightarrow> string option \<Rightarrow> 'o vfs_sys \<Rightarrow> (errno + nat) \<times> 'o vfs_sys" where
  "vfs_mkdir D path s =
     on_writable_mount D path drv_mkdir
       (\<lambda>f ctx rel s.
          (case vfs_path_is_directory D path s of
             (True, s1) \<Rightarrow> (Inl EEXIST, s1)
           | (False, s1) \<Rightarrow>
               (case vfs_open D path 0 s1 of
                  (Inr file, s2) \<Rightarrow> (Inl EEXIST, file_unref (close_vfs D) (Some file) s2)
                | (Inl e, s2) \<Rightarrow> f ctx rel True s2))) s"

section \<open>The drivers of /tmp and /dev\<close>

definition tmpfs_driver :: "nat \<Rightarrow> 'o vfs_sys vfs_fs_driver" where
  "tmpfs_driver now = \<lparr>
     drv_list = Some (\<lambda>_ path s. (tmpfs_list (Some path) (\<lambda>e es. (True, es @ [e])) [] (tmpfs_sys.truncate s), s)),
     drv_read = Some (\<lambda>_ path off len. on_tmp_pair (tmpfs_read now path off len)),
     drv_read_all = Some (\<lambda>_ path. on_tmp_pair (tmpfs_read_all now path)),
     drv_write = Some (\<lambda>_ path off bs s. map_option (\<lambda>(r, t). (r, tmpfs_sys.extend t (tmpfs_sys.more s)))
                         (tmpfs_driver_write now path off bs (tmpfs_sys.truncate s))),
     drv_write_all = Some (\<lambda>_ path bs s. map_option (\<lambda>(r, t). (r, tmpfs_sys.extend t (tmpfs_sys.more s)))
                         (tmpfs_driver_write_all now path bs (tmpfs_sys.truncate s))),
     drv_create_file = None, drv_truncate_file = None,
     drv_stat = Some (\<lambda>_ path s. (tmpfs_stat_path (Some path) (tmpfs_sys.truncate s), s)),
     drv_open = Some (\<lambda>_ path flags. on_tmp_pair (tmpfs_open now (Some path) flags)),
     drv_unlink = Some (\<lambda>_ path. on_tmp_pair (tmpfs_unlink (Some path))),
     drv_mkdir = None, drv_rmdir = None, drv_rename = None,
     drv_mknod = Some (\<lambda>_ path mode dev. on_tmp_pair (tmpfs_mknod now (Some path) mode dev)),
     drv_chmod = Some (\<lambda>_ path mode. on_tmp_pair (tmpfs_chmod now (Some path) mode)),
     drv_utimens = Some (\<lambda>_ path tms. on_tmp_pair (tmpfs_utimens now now (Some path) tms)),
     drv_destroy = Some (\<lambda>_. on_tmp tmpfs_destroy)\<rparr>"

definition devfs_driver :: "nat \<Rightarrow> 'o vfs_sys vfs_fs_driver" where
  "devfs_driver now = \<lparr>
     drv_list = Some (\<lambda>_ path s. (devfs_list (Some path) (\<lambda>e es. (True, es @ [e])) [] s, s)),
     drv_read = Some (\<lambda>_ _ _ _ s. (None, s)), drv_read_all = Some (\<lambda>_ _ s. (None, s)), drv_write = None, drv_write_all = None,
     drv_create_file = None, drv_truncate_file = None, drv_stat = Some (\<lambda>_ path s. (devfs_stat now (Some path) s, s)),
     drv_open = Some (\<lambda>_ path flags. devfs_open (Some path) flags), drv_unlink = Some (\<lambda>_ path s. (devfs_unlink, s)),
     drv_mkdir = None, drv_rmdir = None, drv_rename = None, drv_mknod = None, drv_chmod = None, drv_utimens = None,
     drv_destroy = Some (\<lambda>_ s. s)\<rparr>"

section \<open>Components of a path\<close>

fun split_slash :: "string \<Rightarrow> string list" where
  "split_slash [] = [[]]"
| "split_slash (c # cs) = (if c = CHR ''/'' then [] # split_slash cs else (c # hd (split_slash cs)) # tl (split_slash cs))"

definition components :: "string \<Rightarrow> string list" where
  "components path = filter (\<lambda>g. g \<noteq> []) (split_slash path)"

text \<open>What a sequence of components stands for: \<open>.\<close> stays, \<open>..\<close> goes up, not above the root.\<close>

fun walk_components :: "string list \<Rightarrow> string list \<Rightarrow> string list" where
  "walk_components up [] = rev up"
| "walk_components up (g # gs) =
     (if g = ''.'' then walk_components up gs
      else if g = ''..'' then walk_components (tl up) gs
      else walk_components (g # up) gs)"

definition canonical :: "string list \<Rightarrow> string" where
  "canonical gs = (if gs = [] then ''/'' else concat (map (\<lambda>g. CHR ''/'' # g) gs))"

definition plain_components :: "string \<Rightarrow> string list" where
  "plain_components p = filter (\<lambda>g. g \<noteq> ''.'') (components p)"

definition canonical_mounts :: "'o vfs_sys \<Rightarrow> bool" where
  "canonical_mounts s \<longleftrightarrow> (\<forall>e \<in> set (v_mounts s). me_path e = canonical (components (me_path e)))"

text \<open>A system at boot: an unmodelled file system at address 20 mounted on the root, the memory file system at 21 on \<^verbatim>\<open>/tmp\<close>.\<close>

definition demo_mounts :: "vfs_mount_entry list" where
  "demo_mounts = [\<lparr>me_addr = 31, me_path = ''/tmp'', me_driver = 21, me_ctx = Some 9, me_read_only = False\<rparr>,
                  \<lparr>me_addr = 30, me_path = ''/'', me_driver = 20, me_ctx = Some 8, me_read_only = False\<rparr>]"

definition demo_vfs :: "unit vfs_sys" where
  "demo_vfs = tmpfs_sys.extend empty_tmp
     \<lparr>v_initialized = True, v_mounts = demo_mounts, v_buffers = (\<lambda>_. None), v_other = ()\<rparr>"

text \<open>A driver that can create, read and write one file, kept in \<open>v_other\<close>.\<close>

definition one_file_driver :: "byte list vfs_sys vfs_fs_driver" where
  "one_file_driver = \<lparr>drv_list = None, drv_read = Some (\<lambda>_ _ off len s. (Some (take len (drop off (v_other s))), s)), drv_read_all = None,
     drv_write = Some (\<lambda>_ _ off bs s. Some (Some (length bs), s\<lparr>v_other := put_bytes off bs (v_other s)\<rparr>)), drv_write_all = None,
     drv_create_file = Some (\<lambda>_ _ _ s. (True, s)), drv_truncate_file = Some (\<lambda>_ _ s. (True, s\<lparr>v_other := []\<rparr>)),
     drv_stat = Some (\<lambda>_ _ s. (Some (empty_info\<lparr>pi_size := length (v_other s)\<rparr>), s)), drv_open = None, drv_unlink = None, drv_mkdir = None,
     drv_rmdir = None, drv_rename = None, drv_mknod = None, drv_chmod = None, drv_utimens = None, drv_destroy = None\<rparr>"

definition demo_one_file :: "byte list vfs_sys" where
  "demo_one_file = tmpfs_sys.extend empty_tmp \<lparr>v_initialized = True, v_mounts = [], v_buffers = (\<lambda>_. None), v_other = [1, 2, 3]\<rparr>"

text \<open>\<open>lays st up out\<close>: the segments \<open>up\<close>, the last first, are laid out in \<open>out\<close> from the positions \<open>st\<close>.\<close>

fun lays :: "nat list \<Rightarrow> string list \<Rightarrow> string \<Rightarrow> bool" where
  "lays [] [] out \<longleftrightarrow> out = ''/''"
| "lays (p # st) (g # up) out \<longleftrightarrow> (\<exists>k. drop p out = g @ replicate k (CHR ''/'')) \<and> g \<noteq> [] \<and> CHR ''/'' \<notin> set g \<and>
     take p out \<noteq> [] \<and> last (take p out) = CHR ''/'' \<and> lays st up (take p out)"
| "lays _ _ out \<longleftrightarrow> False"

lemma split_slash_ne [simp]: "split_slash xs \<noteq> []"
  by (cases xs) auto

lemma split_slash_append: "split_slash (xs @ CHR ''/'' # ys) = split_slash xs @ split_slash ys"
  by (induction xs) (auto simp: hd_append tl_append split: list.splits)

lemma split_slash_plain: "CHR ''/'' \<notin> set g \<Longrightarrow> split_slash g = [g]"
  by (induction g) auto

lemma components_append: "components (xs @ CHR ''/'' # ys) = components xs @ components ys"
  by (simp add: components_def split_slash_append)

lemma components_Nil [simp]: "components [] = []"
  by (simp add: components_def)

lemma components_slash [simp]: "components (CHR ''/'' # ys) = components ys"
  using components_append[of "[]" ys] by simp

lemma components_plain: "CHR ''/'' \<notin> set g \<Longrightarrow> g \<noteq> [] \<Longrightarrow> components g = [g]"
  by (simp add: components_def split_slash_plain)

lemma components_slashes [simp]: "components (replicate k (CHR ''/'')) = []"
  by (induction k) simp_all

lemma components_skip [simp]: "components (skip_slashes xs) = components xs"
  unfolding skip_slashes_def by (induction xs) auto

lemma components_segment:
  "components inp = (if segment inp = [] then [] else [segment inp]) @ components (after_segment inp)"
proof -
  have sl: "CHR ''/'' \<notin> set (segment inp)" by (auto simp: segment_def dest: set_takeWhileD)
  let ?r = "dropWhile (\<lambda>c. c \<noteq> CHR ''/'') inp"
  have inp: "inp = segment inp @ ?r" by (simp add: segment_def)
  have aft: "components (after_segment inp) = components ?r" by (simp add: after_segment_def)
  have seg: "components (segment inp) = (if segment inp = [] then [] else [segment inp])" using components_plain[OF sl] by simp
  have split: "components inp = components (segment inp @ ?r)" by (rule arg_cong[OF inp])
  show ?thesis
  proof (cases ?r)
    case Nil
    show ?thesis unfolding split aft Nil using seg by simp
  next
    case (Cons c r)
    then have "c = CHR ''/''" using hd_dropWhile[of "\<lambda>c. c \<noteq> CHR ''/''" inp] by simp
    then show ?thesis unfolding split aft Cons by (simp add: components_append seg)
  qed
qed

lemma segment_no_slash: "CHR ''/'' \<notin> set (segment inp)"
  by (auto simp: segment_def dest: set_takeWhileD)

lemma components_no_slash: "g \<in> set (components p) \<Longrightarrow> CHR ''/'' \<notin> set g \<and> g \<noteq> []"
proof -
  have "\<forall>g \<in> set (split_slash xs). CHR ''/'' \<notin> set g" for xs
  proof (induction xs)
    case (Cons c xs)
    moreover have "hd (split_slash xs) \<in> set (split_slash xs)" "set (tl (split_slash xs)) \<subseteq> set (split_slash xs)"
      by (simp_all add: list.set_sel(2) subsetI)
    ultimately show ?case by auto
  qed simp
  then show "g \<in> set (components p) \<Longrightarrow> CHR ''/'' \<notin> set g \<and> g \<noteq> []" by (auto simp: components_def)
qed

section \<open>Canonical paths\<close>

lemma lays_cases:
  assumes "lays st up out"
  obtains "st = []" "up = []" "out = ''/''"
  | p st' g up' k where "st = p # st'" "up = g # up'" "drop p out = g @ replicate k (CHR ''/'')" "g \<noteq> []" "CHR ''/'' \<notin> set g"
      "take p out \<noteq> []" "last (take p out) = CHR ''/''" "lays st' up' (take p out)"
  using assms by (cases "(st, up, out)" rule: lays.cases) auto

lemma lays_components: "lays st up out \<Longrightarrow> components out = rev up"
proof (induction st up out rule: lays.induct)
  case (2 p st g up out)
  then obtain k where k: "drop p out = g @ replicate k (CHR ''/'')" by auto
  from 2 have "take p out = butlast (take p out) @ [CHR ''/'']" by (metis append_butlast_last_id lays.simps(2))
  then have "out = butlast (take p out) @ CHR ''/'' # (g @ replicate k (CHR ''/''))" using k append_take_drop_id[of p out]
    by (metis append.assoc append_Cons append_Nil)
  moreover have "components (butlast (take p out)) = rev up"
    using 2 components_append[of "butlast (take p out)" "[]"] \<open>take p out = _\<close> by simp
  moreover have "components (g @ replicate k (CHR ''/'')) = [g]"
    using 2(2) components_plain[of g] components_append[of g "replicate (k - 1) (CHR ''/'')"] by (cases k) simp_all
  ultimately show ?case using components_append by (metis rev.simps(2))
qed simp_all

lemma lays_length: "lays st up out \<Longrightarrow> out \<noteq> [] \<and> (length out > 1 \<longleftrightarrow> up \<noteq> [])"
proof (erule lays_cases, goal_cases)
  case (2 p st' g up' k)
  then have "length (take p out) \<ge> 1" "length (drop p out) \<ge> 1" by (simp_all add: Suc_leI)
  then have "length out \<ge> 2" by (simp, linarith)
  then show ?case using 2 by auto
qed simp

lemma lays_hd: "lays st up out \<Longrightarrow> hd out = CHR ''/''"
proof (induction st up out rule: lays.induct)
  case (2 p st g up out)
  from 2(2) have t: "lays st up (take p out)" "take p out \<noteq> []" by simp_all
  then show ?case using 2(1)[OF t(1)] by (cases p) (simp_all add: hd_take)
qed simp_all

lemma lays_more_slash: "lays (p # st) (g # up) out \<Longrightarrow> lays (p # st) (g # up) (out @ ''/'')"
proof -
  assume a: "lays (p # st) (g # up) out"
  then obtain k where k: "drop p out = g @ replicate k (CHR ''/'')" by auto
  have "p \<le> length out" using a k by (cases "p \<le> length out") auto
  then have "take p (out @ ''/'') = take p out" "drop p (out @ ''/'') = g @ replicate (Suc k) (CHR ''/'')"
    using k by (simp_all add: replicate_append_same)
  then show ?thesis using a by (auto simp del: replicate.simps)
qed

lemma lays_push:
  assumes "lays st up out" "g \<noteq> []" "CHR ''/'' \<notin> set g" "out1 = (if length out > 1 then out @ ''/'' else out)"
  shows "lays (length out1 # st) (g # up) (out1 @ g)"
proof -
  have "lays st up out1 \<and> out1 \<noteq> [] \<and> last out1 = CHR ''/''"
    using assms(1)
  proof (cases rule: lays_cases)
    case (2 p st' g' up' k)
    then have "length out > 1" using lays_length[OF assms(1)] by simp
    then show ?thesis using assms(4) lays_more_slash assms(1) 2(1,2) by simp
  qed (use assms(4) in simp)
  then show ?thesis using assms(2,3) by (simp add: exI[of _ 0])
qed

lemma canonicalize_loop_components:
  "canonicalize_loop n inp st out = Some out' \<Longrightarrow> lays st up out \<Longrightarrow>
   \<exists>st' up'. lays st' up' out' \<and> rev up' = walk_components up (components inp)"
proof (induction n inp st out arbitrary: up rule: canonicalize_loop.induct)
  case (1 n inp st out)
  let ?g = "segment inp" and ?r = "after_segment inp" and ?out1 = "if length out > 1 then out @ ''/'' else out"
  note eq = 1(5)[unfolded canonicalize_loop.simps[of n inp]]
  consider "inp = []" | "inp \<noteq> []" "?g = [] \<or> ?g = ''.''" | "inp \<noteq> []" "?g = ''..''" | "inp \<noteq> []" "?g \<noteq> []" "?g \<noteq> ''.''" "?g \<noteq> ''..''" by blast
  then show ?case
  proof cases
    case 1
    then show ?thesis using eq \<open>lays st up out\<close> by auto
  next
    case 2
    then have "canonicalize_loop n ?r st out = Some out'" using eq by simp
    from "1.IH"(1)[OF 2(1) refl refl 2(2) this \<open>lays st up out\<close>] show ?thesis using 2(2) components_segment[of inp] by auto
  next
    case 3
    show ?thesis
    proof (cases st)
      case Nil
      then have "up = []" using \<open>lays st up out\<close> by (cases up) simp_all
      have "canonicalize_loop n ?r st out = Some out'" using eq 3 Nil by simp
      from "1.IH"(2)[OF 3(1) refl refl _ 3(2) Nil this \<open>lays st up out\<close>] show ?thesis
        using 3(2) components_segment[of inp] \<open>up = []\<close> by auto
    next
      case (Cons p st')
      then have e: "canonicalize_loop n ?r st' (take p out) = Some out'" using eq 3 by simp
      obtain g' up' where u: "up = g' # up'" using \<open>lays st up out\<close> Cons by (cases up) simp_all
      then have "lays st' up' (take p out)" using \<open>lays st up out\<close> Cons by simp
      from "1.IH"(3)[OF 3(1) refl refl _ 3(2) Cons e this] show ?thesis using 3(2) components_segment[of inp] u by auto
    qed
  next
    case 4
    then have c: "\<not> max_segments \<le> length st" "\<not> (length out > 1 \<and> n \<le> length out + 1)" "\<not> n \<le> length ?out1 + length ?g"
      and e: "canonicalize_loop n ?r (length ?out1 # st) (?out1 @ ?g) = Some out'"
      using eq by (auto simp: Let_def split: if_splits)
    have "lays (length ?out1 # st) (?g # up) (?out1 @ ?g)"
      by (rule lays_push[OF \<open>lays st up out\<close> 4(2) segment_no_slash refl])
    from "1.IH"(4)[OF 4(1) refl refl _ 4(4) c(1,2) refl c(3) e this] show ?thesis
      using 4 components_segment[of inp] by auto
  qed
qed

lemma canonical_snoc: "canonical (gs @ [g]) = (if gs = [] then ''/'' else canonical gs @ ''/'') @ g"
  by (simp add: canonical_def)

lemma canonical_mono: "length (canonical gs) \<le> length (canonical (gs @ hs))"
  by (auto simp: canonical_def neq_Nil_conv)

lemma length_canonical: "\<forall>g \<in> set gs. g \<noteq> [] \<Longrightarrow> length (canonical gs) > 1 \<longleftrightarrow> gs \<noteq> []"
  by (cases gs) (auto simp: canonical_def)

lemma components_canonical [simp]:
  assumes "\<forall>g \<in> set gs. CHR ''/'' \<notin> set g \<and> g \<noteq> []"
  shows "components (canonical gs) = gs"
  using assms
proof (induction gs rule: rev_induct)
  case (snoc g gs)
  have "components (''/'' @ g) = [g]" using snoc.prems components_plain[of g] by simp
  moreover have "components (canonical gs @ CHR ''/'' # g) = gs @ [g]"
    using snoc components_plain[of g] by (simp add: components_append)
  ultimately show ?case by (auto simp: canonical_snoc)
qed (simp add: canonical_def)

lemma plain_components_ok: "g \<in> set (plain_components p) \<Longrightarrow> CHR ''/'' \<notin> set g \<and> g \<noteq> []"
  by (auto simp: plain_components_def dest: components_no_slash)

lemma canonicalize_loop_plain:
  assumes "''..'' \<notin> set (components inp)" "length st = length up" "out = canonical (rev up)" "\<forall>g \<in> set up. g \<noteq> []"
    and "length out < n" "length up \<le> max_segments" "cs = rev up @ plain_components inp"
  shows "canonicalize_loop n inp st out = (if length cs \<le> max_segments \<and> length (canonical cs) < n then Some (canonical cs) else None)"
  using assms
proof (induction n inp st out arbitrary: up rule: canonicalize_loop.induct)
  case (1 n inp st out)
  let ?g = "segment inp" and ?r = "after_segment inp" and ?out1 = "if length out > 1 then out @ ''/'' else out"
  note unf = canonicalize_loop.simps[of n inp]
  note seg = components_segment[of inp]
  have nodots: "''..'' \<notin> set (components ?r)" "?g \<noteq> ''..''" using 1(5) seg by (auto split: if_splits)
  consider "inp = []" | "inp \<noteq> []" "?g = [] \<or> ?g = ''.''" | "inp \<noteq> []" "?g \<noteq> []" "?g \<noteq> ''.''" by blast
  then show ?case
  proof cases
    case 1
    then show ?thesis using "1.prems" by (simp add: canonicalize_loop.simps[of n "[]"] plain_components_def)
  next
    case 2
    then have "plain_components inp = plain_components ?r" using seg by (auto simp: plain_components_def)
    then show ?thesis using "1.IH"(1)[OF 2(1) refl refl 2(2) nodots(1) "1.prems"(2-6)] "1.prems"(7) 2 by (simp add: unf)
  next
    case 3
    then have pc: "plain_components inp = ?g # plain_components ?r" using seg by (auto simp: plain_components_def)
    have "length out > 1 \<longleftrightarrow> up \<noteq> []" using "1.prems"(3,4) length_canonical[of "rev up"] by simp
    then have out1: "?out1 @ ?g = canonical (rev (?g # up))" using "1.prems"(3) by (auto simp: canonical_snoc) (simp_all add: canonical_def)
    have cs: "cs = rev (?g # up) @ plain_components ?r" using "1.prems"(7) pc by simp
    then have le: "length (?out1 @ ?g) \<le> length (canonical cs)" using canonical_mono[of "rev (?g # up)"] out1 by (simp only:)
    show ?thesis
    proof (cases "length up < max_segments \<and> length (?out1 @ ?g) < n")
      case True
      then have ok: "\<not> max_segments \<le> length st" "\<not> (1 < length out \<and> n \<le> length out + 1)" "\<not> n \<le> length ?out1 + length ?g"
        using "1.prems"(2) by (auto split: if_splits)
      have "canonicalize_loop n inp st out = canonicalize_loop n ?r (length ?out1 # st) (?out1 @ ?g)"
        using 3 nodots(2) ok by (subst unf) (auto simp: Let_def)
      also have "\<dots> = (if length cs \<le> max_segments \<and> length (canonical cs) < n then Some (canonical cs) else None)"
        by (rule "1.IH"(4)[OF 3(1) refl refl _ nodots(2) ok(1,2) refl ok(3) nodots(1) _ out1 _ _ _ cs])
           (use 3 "1.prems"(2,4) True in auto)
      finally show ?thesis .
    next
      case False
      then have "canonicalize_loop n inp st out = None" using 3 nodots(2) "1.prems"(2) by (auto simp: unf Let_def)
      moreover have "length cs > max_segments \<or> length (canonical cs) \<ge> n"
        using False le cs by (auto simp: not_less)
      ultimately show ?thesis by auto
    qed
  qed
qed

lemma vfs_canonicalize_plain:
  assumes "''..'' \<notin> set (components inp)" "n \<ge> 2" "cs = plain_components inp"
  shows "vfs_canonicalize inp n = (if length cs \<le> max_segments \<and> length (canonical cs) < n then Some (canonical cs) else None)"
proof -
  have one: "canonical [] = ''/''" by (simp add: canonical_def)
  have loop: "canonicalize_loop n (skip_slashes inp) [] ''/'' =
      (if length cs \<le> max_segments \<and> length (canonical cs) < n then Some (canonical cs) else None)"
    by (rule canonicalize_loop_plain[where up = "[]"]) (use assms in \<open>simp_all add: one plain_components_def\<close>)
  have "\<not> (length (canonical cs) > 1 \<and> last (canonical cs) = CHR ''/'')"
  proof (cases cs rule: rev_cases)
    case (snoc gs g)
    then have "CHR ''/'' \<notin> set g" "g \<noteq> []" using plain_components_ok[of g inp] assms(3) by simp_all
    then have "last g \<noteq> CHR ''/''" using last_in_set[of g] by metis
    then show ?thesis using snoc \<open>g \<noteq> []\<close> by (simp add: canonical_snoc)
  qed (simp add: one)
  then show ?thesis using assms loop by (auto simp: vfs_canonicalize_def one plain_components_def)
qed

lemma components_to_slash_root: "components (''/'' @ p) = components p"
  by simp

lemma vfs_normalize_plain:
  assumes "''..'' \<notin> set (components (to_slash p))" "length p + 2 \<le> 2 * VFS_PATH_MAX" "n \<ge> 2" "cs = plain_components (to_slash p)"
  shows "vfs_normalize_path (Some p) n = (if length cs \<le> max_segments \<and> length (canonical cs) < n then Some (canonical cs) else None)"
proof (cases "p \<noteq> [] \<and> hd p = CHR ''/''")
  case True
  then show ?thesis using assms vfs_canonicalize_plain[OF assms(1,3,4)] by (simp add: vfs_normalize_path_def vfs_build_absolute_path_def)
next
  case False
  have root: "to_slash ''/'' = ''/''" by (simp add: to_slash_def)
  have "vfs_normalize_path (Some p) n = vfs_canonicalize (''/'' @ to_slash p) n"
    using False assms(2,3) by (auto simp: vfs_normalize_path_def vfs_build_absolute_path_def root)
  also have "\<dots> = (if length cs \<le> max_segments \<and> length (canonical cs) < n then Some (canonical cs) else None)"
    by (rule vfs_canonicalize_plain) (use assms in \<open>simp_all add: plain_components_def\<close>)
  finally show ?thesis .
qed

text \<open>With \<open>..\<close> the result still has the right components, though not always the canonical form.\<close>

theorem vfs_canonicalize_components:
  assumes "vfs_canonicalize inp n = Some out"
  shows "components out = walk_components [] (components inp) \<and> out \<noteq> [] \<and> hd out = CHR ''/''"
proof (cases "inp = []")
  case False
  then have "map_option (\<lambda>out. if length out > 1 \<and> last out = CHR ''/'' then butlast out else out)
      (canonicalize_loop n (skip_slashes inp) [] ''/'') = Some out"
    using assms unfolding vfs_canonicalize_def by (cases "n = 0") (simp_all only: if_True if_False option.distinct simp_thms)
  then obtain out1 where o1: "canonicalize_loop n (skip_slashes inp) [] ''/'' = Some out1"
    and o: "out = (if length out1 > 1 \<and> last out1 = CHR ''/'' then butlast out1 else out1)" by blast
  obtain st up where l: "lays st up out1" "rev up = walk_components [] (components inp)"
    using canonicalize_loop_components[OF o1, of "[]"] by auto
  have c: "components out1 = walk_components [] (components inp)" using lays_components[OF l(1)] l(2) by simp
  have "components out = components out1 \<and> (length out1 > 1 \<longrightarrow> out \<noteq> [] \<and> hd out = hd out1)"
  proof (cases "length out1 > 1 \<and> last out1 = CHR ''/''")
    case True
    then have "out1 \<noteq> []" "out = butlast out1" using o by auto
    then have "out1 = out @ CHR ''/'' # []" using append_butlast_last_id[of out1] True by simp
    then show ?thesis using components_append[of out "[]"] True by (cases out) simp_all
  qed (use o in auto)
  moreover have "hd out1 = CHR ''/''" by (rule lays_hd[OF l(1)])
  moreover have "length out1 = 1 \<Longrightarrow> out = out1" using o by simp
  ultimately show ?thesis using c lays_length[OF l(1)] by (metis One_nat_def Suc_lessI length_greater_0_conv)
qed (use assms in \<open>auto simp: vfs_canonicalize_def split: if_splits\<close>)

section \<open>Finding the mount\<close>

lemma canonical_append: "canonical (ms @ hs) = (if ms = [] then canonical hs else canonical ms @ concat (map (\<lambda>g. CHR ''/'' # g) hs))"
  by (simp add: canonical_def)

lemma canonical_Cons: "\<exists>r. canonical gs = CHR ''/'' # r"
  by (cases gs) (simp_all add: canonical_def)

lemma canonical_inj:
  assumes "canonical gs = canonical hs" "\<forall>g \<in> set gs. CHR ''/'' \<notin> set g \<and> g \<noteq> []" "\<forall>g \<in> set hs. CHR ''/'' \<notin> set g \<and> g \<noteq> []"
  shows "gs = hs"
  using arg_cong[OF assms(1), of components] unfolding components_canonical[OF assms(2)] components_canonical[OF assms(3)] .

lemma under_mount_prefix:
  assumes "me_path e = canonical ms" "\<forall>g \<in> set ms. CHR ''/'' \<notin> set g \<and> g \<noteq> []" "\<forall>g \<in> set cs. CHR ''/'' \<notin> set g \<and> g \<noteq> []"
  shows "under_mount (canonical cs) e \<longleftrightarrow> prefix ms cs"
proof
  assume u: "under_mount (canonical cs) e"
  then obtain r where r: "canonical cs = canonical ms @ r" unfolding under_mount_def assms(1) by (metis append_take_drop_id)
  consider "r = []" | "ms = []" | r' where "r = CHR ''/'' # r'" "ms \<noteq> []"
  proof (cases r)
    case (Cons c r')
    then have "canonical ms = ''/'' \<or> c = CHR ''/''" using u r unfolding under_mount_def assms(1) by (auto simp: nth_append)
    moreover have "canonical ms = ''/'' \<Longrightarrow> ms = []" using assms(2) length_canonical[of ms] by (auto simp del: length_greater_0_conv)
    ultimately show ?thesis using that(2,3) Cons by blast
  qed (use that in simp)
  then show "prefix ms cs"
  proof cases
    case 1
    then have "cs = ms" using canonical_inj[OF _ assms(3,2)] r by simp
    then show ?thesis by simp
  next
    case 3
    then have "components (canonical cs) = components (canonical ms) @ components r'" using r components_append by simp
    then show ?thesis unfolding components_canonical[OF assms(2)] components_canonical[OF assms(3)] by simp
  qed simp
next
  assume "prefix ms cs"
  then obtain hs where cs: "cs = ms @ hs" by (auto simp: prefix_def)
  show "under_mount (canonical cs) e"
  proof (cases "ms = []")
    case True
    then have "me_path e = ''/''" using assms(1) by (simp add: canonical_def)
    then show ?thesis using canonical_Cons[of cs] by (auto simp: under_mount_def)
  next
    case False
    then have "canonical cs = canonical ms @ concat (map (\<lambda>g. CHR ''/'' # g) hs)" using cs canonical_append by simp
    then show ?thesis using assms(1) by (cases hs) (simp_all add: under_mount_def)
  qed
qed

lemma find_mount_result:
  assumes "find_mount path es best bl = (b, l)" "bl = (case best of None \<Rightarrow> 0 | Some e \<Rightarrow> length (me_path e))"
    and "\<forall>e \<in> set es. me_path e \<noteq> []"
  shows "(case b of
            None \<Rightarrow> best = None \<and> (\<forall>e \<in> set es. \<not> under_mount path e)
          | Some e \<Rightarrow> l = length (me_path e) \<and> (e \<in> set es \<and> under_mount path e \<or> best = Some e)) \<and>
         bl \<le> l \<and> (\<forall>e \<in> set es. under_mount path e \<longrightarrow> length (me_path e) \<le> l)"
  using assms
proof (induction es arbitrary: best bl)
  case (Cons e es)
  show ?case
  proof (cases "under_mount path e \<and> length (me_path e) > bl")
    case True
    then have "find_mount path es (Some e) (length (me_path e)) = (b, l)" using Cons.prems(1) by simp
    from Cons.IH[OF this] show ?thesis using Cons.prems True by (auto split: option.splits)
  next
    case False
    then have "find_mount path es best bl = (b, l)" using Cons.prems(1) by auto
    from Cons.IH[OF this Cons.prems(2)] show ?thesis using Cons.prems False by (auto split: option.splits)
  qed
qed (auto split: option.splits)

lemma length_canonical_le:
  assumes "prefix ms cs" "prefix ms' cs" "length (canonical ms') \<le> length (canonical ms)" "\<forall>g \<in> set cs. g \<noteq> []"
  shows "length ms' \<le> length ms"
proof (rule ccontr)
  assume "\<not> ?thesis"
  then have "strict_prefix ms ms'" using assms(1,2) by (metis prefix_length_le prefix_same_cases strict_prefix_def)
  then obtain g hs where "ms' = ms @ g # hs" by (metis strict_prefixE')
  moreover have "g \<noteq> []" using calculation assms(2,4) by (auto simp: prefix_def)
  ultimately show False using assms(3) by (auto simp: canonical_def split: if_splits)
qed

lemma relative_path:
  assumes "prefix ms cs" "\<forall>g \<in> set ms. g \<noteq> []"
  shows "(let r = (if canonical ms = ''/'' then canonical cs else drop (length (canonical ms)) (canonical cs))
          in if r = [] then ''/'' else r) = canonical (drop (length ms) cs)"
proof -
  obtain hs where cs: "cs = ms @ hs" using assms(1) by (auto simp: prefix_def)
  show ?thesis
  proof (cases "ms = []")
    case True
    then show ?thesis using cs canonical_Cons[of hs] by (auto simp: canonical_def)
  next
    case False
    then have "canonical ms \<noteq> ''/''" using length_canonical[OF assms(2)] by auto
    moreover have "drop (length (canonical ms)) (canonical cs) = concat (map (\<lambda>g. CHR ''/'' # g) hs)"
      using cs canonical_append[of ms hs] False by simp
    ultimately show ?thesis using cs by (simp add: canonical_def Let_def)
  qed
qed

lemma mount_components:
  assumes "canonical_mounts s" "e \<in> set (v_mounts s)"
  shows "me_path e = canonical (components (me_path e))" "me_path e \<noteq> []"
proof -
  show "me_path e = canonical (components (me_path e))" using assms by (simp add: canonical_mounts_def)
  then show "me_path e \<noteq> []" using canonical_Cons by (metis list.discI)
qed

text \<open>
  C39. The virtual file system finds the right mount: for a path without \<open>..\<close> that fits the buffers, resolving fails
  exactly if no mount point's components are a prefix of the components of the path (with \<open>.\<close>, repeated slashes and backslashes
  resolved); otherwise it yields the mount with the longest such prefix, and the relative path given to its driver is the
  canonical path of the remaining components.
\<close>

theorem vfs_resolve_longest_mount:
  assumes "v_initialized s" "canonical_mounts s" "''..'' \<notin> set (components (to_slash p))" "length p + 2 \<le> 2 * VFS_PATH_MAX"
    and "cs = plain_components (to_slash p)" "length cs \<le> max_segments" "length (canonical cs) < 128"
  shows "case vfs_resolve (Some p) s of
           None \<Rightarrow> \<forall>e \<in> set (v_mounts s). \<not> prefix (components (me_path e)) cs
         | Some (e, rel) \<Rightarrow> e \<in> set (v_mounts s) \<and> prefix (components (me_path e)) cs \<and> rel = canonical (drop (length (components (me_path e))) cs) \<and>
             (\<forall>e' \<in> set (v_mounts s). prefix (components (me_path e')) cs \<longrightarrow> length (components (me_path e')) \<le> length (components (me_path e)))"
proof -
  let ?m = "\<lambda>e. components (me_path e)"
  have norm: "vfs_normalize_path (Some p) 128 = Some (canonical cs)" using vfs_normalize_plain[OF assms(3,4) _ assms(5)] assms(6,7) by simp
  have ok: "\<forall>g \<in> set cs. CHR ''/'' \<notin> set g \<and> g \<noteq> []" using plain_components_ok assms(5) by blast
  have mok: "\<forall>g \<in> set (?m e). CHR ''/'' \<notin> set g \<and> g \<noteq> []" for e using components_no_slash by blast
  have under: "under_mount (canonical cs) e \<longleftrightarrow> prefix (?m e) cs" if "e \<in> set (v_mounts s)" for e
    using under_mount_prefix[OF mount_components(1)[OF assms(2) that] mok ok] .
  obtain b l where bl: "vfs_find_mount_locked (canonical cs) s = (b, l)" by fastforce
  then have fm: "find_mount (canonical cs) (v_mounts s) None 0 = (b, l)" by (simp add: vfs_find_mount_locked_def)
  have "\<forall>e \<in> set (v_mounts s). me_path e \<noteq> []" using mount_components(2)[OF assms(2)] by blast
  note res = find_mount_result[OF fm _ this, simplified]
  show ?thesis
  proof (cases b)
    case None
    then have "vfs_resolve (Some p) s = None" using norm bl assms(1) by (simp add: vfs_resolve_def)
    then show ?thesis using res None under by simp
  next
    case (Some e)
    then have e: "e \<in> set (v_mounts s)" "prefix (?m e) cs" "l = length (me_path e)" using res under by auto
    note me = mount_components(1)[OF assms(2) e(1)]
    have "length (canonical cs) + 1 \<le> VFS_PATH_MAX" using assms(7) by (simp add: VFS_PATH_MAX_def)
    then have "vfs_resolve (Some p) s = Some (e, let r = (if me_path e = ''/'' then canonical cs else drop (length (me_path e)) (canonical cs))
          in if r = [] then ''/'' else r)"
      using norm bl assms(1) Some e(3) by (auto simp: vfs_resolve_def Let_def)
    then have "vfs_resolve (Some p) s = Some (e, canonical (drop (length (?m e)) cs))"
      using relative_path[OF e(2), folded me] mok[of e] by simp
    moreover have "length (?m e') \<le> length (?m e)" if "e' \<in> set (v_mounts s)" "prefix (?m e') cs" for e'
      using length_canonical_le[OF e(2) that(2)] res that under[OF that(1)] e(3) me mount_components(1)[OF assms(2) that(1)] ok by metis
    ultimately show ?thesis using e by simp
  qed
qed

lemma demo_vfs_fields:
  "v_initialized demo_vfs" "v_mounts demo_vfs = demo_mounts" "canonical_mounts demo_vfs"
  by (simp_all add: demo_vfs_def canonical_mounts_def demo_mounts_def components_def canonical_def tmpfs_sys.defs)

lemma vfs_resolve_longest_mount_witness:
  "case vfs_resolve (Some ''/tmp//./f'') demo_vfs of
     None \<Rightarrow> False
   | Some (e, rel) \<Rightarrow> me_path e = ''/tmp'' \<and> rel = ''/f''"
proof -
  have c: "components (to_slash ''/tmp//./f'') = [''tmp'', ''.'', ''f'']" by (simp add: components_def to_slash_def)
  then have p: "[''tmp'', ''f''] = plain_components (to_slash ''/tmp//./f'')" by (simp add: plain_components_def)
  have m: "set (v_mounts demo_vfs) = set demo_mounts" by (simp add: demo_vfs_fields)
  have "length (canonical [''tmp'', ''f'']) < 128" "length [''tmp'', ''f''] \<le> max_segments" "''..'' \<notin> set [''tmp'', ''.'', ''f'']"
      "length ''/tmp//./f'' + 2 \<le> 2 * VFS_PATH_MAX" by (simp_all add: canonical_def max_segments_def VFS_PATH_MAX_def)
  from vfs_resolve_longest_mount[OF demo_vfs_fields(1,3) _ this(4) p this(2,1), unfolded c, OF this(3)]
  show ?thesis unfolding m by (auto simp: demo_mounts_def components_def canonical_def split: option.splits)
qed

text \<open>A mount made is found again, and no other can be made at the same place.\<close>

lemma vfs_mount_True:
  assumes "vfs_mount (Some p) d ctx ro s = (True, s')" "v_initialized s"
  obtains q a m dr where "vfs_normalize_path (Some p) 128 = Some q" "d = Some dr" "kmalloc_obj (fmem s) = (Some a, m)"
    "s' = s\<lparr>fmem := m, v_mounts := \<lparr>me_addr = a, me_path = q, me_driver = dr, me_ctx = ctx, me_read_only = ro\<rparr> # v_mounts s\<rparr>"
  using assms by (auto simp: vfs_mount_def vfs_initialize_def Let_def split: option.splits prod.splits if_splits)

lemma find_mount_stays: "\<forall>e \<in> set es. under_mount path e \<longrightarrow> length (me_path e) \<le> bl \<Longrightarrow> find_mount path es best bl = (best, bl)"
  by (induction es) auto

theorem vfs_mount_resolves:
  assumes "vfs_mount (Some p) (Some d) ctx ro s = (True, s')" "v_initialized s"
  shows "\<exists>e. vfs_resolve (Some p) s' = Some (e, ''/'') \<and> e \<in> set (v_mounts s') \<and> me_driver e = d \<and> me_ctx e = ctx \<and> me_read_only e = ro \<and>
    vfs_mount (Some p) d' ctx' ro' s' = (False, s')"
proof -
  obtain q a m where q: "vfs_normalize_path (Some p) 128 = Some q"
    and s': "s' = s\<lparr>fmem := m, v_mounts := \<lparr>me_addr = a, me_path = q, me_driver = d, me_ctx = ctx, me_read_only = ro\<rparr> # v_mounts s\<rparr>"
    using vfs_mount_True[OF assms] by (metis option.inject)
  let ?e = "\<lparr>me_addr = a, me_path = q, me_driver = d, me_ctx = ctx, me_read_only = ro\<rparr>"
  have "hd q = CHR ''/'' \<and> q \<noteq> []" using q vfs_canonicalize_components
    by (auto simp: vfs_normalize_path_def vfs_build_absolute_path_def Let_def split: if_splits)
  moreover have "vfs_find_mount_locked q s' = (Some ?e, length q)"
    unfolding vfs_find_mount_locked_def s' using calculation find_mount_stays[of "v_mounts s" q "length q" "Some ?e"]
    by (simp add: under_mount_def)
  ultimately have "vfs_resolve (Some p) s' = Some (?e, ''/'')" "vfs_mount (Some p) d' ctx' ro' s' = (False, s')"
    using q assms(2) by (auto simp: vfs_resolve_def vfs_mount_def vfs_initialize_def s' VFS_PATH_MAX_def Let_def split: option.splits)
  then show ?thesis unfolding s' by auto
qed

lemma vfs_mount_canonical:
  assumes "canonical_mounts s" "v_initialized s" "''..'' \<notin> set (components (to_slash p))" "length p + 2 \<le> 2 * VFS_PATH_MAX"
  shows "canonical_mounts (snd (vfs_mount (Some p) d ctx ro s))"
proof (cases "vfs_mount (Some p) d ctx ro s")
  case (Pair ok s')
  show ?thesis
  proof (cases ok)
    case True
    then have "vfs_mount (Some p) d ctx ro s = (True, s')" using Pair by simp
    then obtain q a m dr where q: "vfs_normalize_path (Some p) 128 = Some q" and "d = Some dr" "kmalloc_obj (fmem s) = (Some a, m)"
      and s': "s' = s\<lparr>fmem := m, v_mounts := \<lparr>me_addr = a, me_path = q, me_driver = dr, me_ctx = ctx, me_read_only = ro\<rparr> # v_mounts s\<rparr>"
      by (rule vfs_mount_True[OF _ assms(2)])
    have "q = canonical (plain_components (to_slash p))"
      using q vfs_normalize_plain[OF assms(3,4) _ refl, of 128] by (simp split: if_splits)
    then have "q = canonical (components q)" using plain_components_ok components_canonical by metis
    then show ?thesis using Pair assms(1) unfolding s' canonical_mounts_def by simp
  next
    case False
    then have "v_mounts s' = v_mounts s" using Pair assms(2)
      by (auto simp: vfs_mount_def vfs_initialize_def Let_def split: option.splits prod.splits if_splits)
    then show ?thesis using Pair assms(1) by (simp add: canonical_mounts_def)
  qed
qed

text \<open>
  After \<open>..\<close> the separator before the removed segment stays and the next segment adds another, so the result is not the
  canonical path; a mount below the root's subdirectories is then missed.
\<close>

theorem vfs_dotdot_misses_mount:
  assumes "v_initialized s" "v_mounts s = [m1, m0]" "me_path m1 = ''/a/b''" "me_path m0 = ''/''"
  shows "vfs_resolve (Some ''/a/b/c'') s = Some (m1, ''/c'') \<and> vfs_resolve (Some ''/a/x/../b/c'') s = Some (m0, ''/a//b/c'')"
  using assms
  by (simp add: vfs_resolve_def vfs_normalize_path_def vfs_build_absolute_path_def vfs_canonicalize_def canonicalize_loop.simps
      to_slash_def segment_def after_segment_def skip_slashes_def max_segments_def VFS_PATH_MAX_def vfs_find_mount_locked_def under_mount_def)


lemma demo_append_open:
  "\<exists>s1. vfs_open_buffered (\<lambda>_. one_file_driver) 20 None ''/f'' (O_CREAT OR O_APPEND OR 1) False demo_one_file = (Inr 2, s1) \<and> v_other s1 = [1, 2, 3]"
  by (simp add: vfs_open_buffered_def choose_streaming_def wants_change_def opens_writable_def one_file_driver_def prepare_file_def
      open_streaming_def probe_size_def append_offset_def demo_one_file_def empty_tmp_def tmpfs_sys.defs kmalloc_obj_def file_create_def set_buffer_def
      O_CREAT_def O_APPEND_def O_TRUNC_def O_EXCL_def Let_def)


end
