(* ===== verification/Spec2Isabelle.thy ===== *)
theory Spec2Isabelle
  imports Menios_Prelude Proc_Queue Proc_Life Signal Sync Scheduler File_Table Pipe Pmm Paging Vm Kheap Block_Cache Block_Device Devfs Tmpfs Vfs
begin

text \<open>
  A verification development for meniOS, a small kernel for x86-64 (sources under \<^verbatim>\<open>src/\<close>; the kernel is in
  \<^verbatim>\<open>src/src/kernel\<close>).

  \<^bold>\<open>Parts of the program and their theories.\<close>

  \<^item> \<open>Menios_Prelude\<close>: error numbers, machine widths (\<open>u64\<close>, \<open>u32\<close>, \<open>s64\<close>, \<open>s32\<close> reduce as the C stores do),
    linked segments in a store of \<^verbatim>\<open>next\<close> pointers (\<open>lseg\<close>), ring buffers (\<open>ring\<close>), the interface of the
    kernel heap for components that only allocate and free objects (\<open>kmem\<close>), and the locale \<open>fifo_queue\<close>, the
    contract of a queue, interpreted for the waiters of a lock (\<open>wq\<close>), the keyboard buffer (\<open>kbd\<close>) and pipes
    (\<open>bytes\<close>).
  \<^item> \<open>Proc_Queue\<close>, \<open>Proc_Life\<close>, \<open>Scheduler\<close> (\<^verbatim>\<open>proc/proc.c\<close>, parts of \<^verbatim>\<open>syscall/syscall.c\<close>): processes are
    addresses in a store of \<open>proc_info\<close> records; ready queues by priority and the sleep queue are the linked
    lists of the code; the abstraction \<open>sched_wf\<close> relates them to lists. Exit, kill, waitpid, the dispatcher
    \<open>proc_switch\<close> and interval timers work on this state. Loops that follow pointers are partial
    functions; the theorems show that they return.
  \<^item> \<open>Signal\<close> (\<^verbatim>\<open>proc/signal.c\<close>): masks as 32-bit words, sending, delivery to a handler with the frame on the
    user stack, \<^verbatim>\<open>sigreturn\<close>.
  \<^item> \<open>Sync\<close> (\<^verbatim>\<open>proc/kmutex.c\<close>, \<^verbatim>\<open>kcondvar.c\<close>, \<^verbatim>\<open>ksemaphore.c\<close>, \<^verbatim>\<open>krwlock.c\<close>): a blocking call is a sequence of
    turns, one per pass of its loop; systems of processes that take turns are step relations.
  \<^item> \<open>File_Table\<close>, \<open>Pipe\<close> (\<^verbatim>\<open>fs/core/file.c\<close>, \<^verbatim>\<open>fs/core/pipe.c\<close>): file objects with reference counts, descriptor
    tables, dispatch to the operations of a file, pipes and the keyboard as its instances. The locale
    \<open>close_method\<close> states what \<^verbatim>\<open>file_unref\<close> needs of a file's close operation.
  \<^item> \<open>Pmm\<close>, \<open>Paging\<close> (\<^verbatim>\<open>mem/pmm.c\<close>): the bitmap of physical pages and its search; four-level page tables as a
    store of entries, mapping, unmapping with pruning.
  \<^item> \<open>Vm\<close> (\<^verbatim>\<open>user/vm_region.c\<close>, \<^verbatim>\<open>user/vm.c\<close>, \<^verbatim>\<open>mem/kmmap.c\<close>): the regions of a user process, page faults, mapping of fresh,
    given and shared pages, \<^verbatim>\<open>mmap\<close> and \<^verbatim>\<open>munmap\<close>, copying for \<^verbatim>\<open>fork\<close>, over \<open>Paging\<close> and the content of the pages.
  \<^item> \<open>Kheap\<close> (\<^verbatim>\<open>mem/kmalloc.c\<close>): nodes, regions and virtual ranges as lists, on top of \<open>Paging\<close>.
  \<^item> \<open>Block_Cache\<close>, \<open>Block_Device\<close> (\<^verbatim>\<open>block/\<close>): buffers, their hash table and list of use; devices above it.
  \<^item> \<open>Devfs\<close>, \<open>Tmpfs\<close> (\<^verbatim>\<open>fs/devfs/devfs.c\<close>, \<^verbatim>\<open>fs/tmpfs/tmpfs.c\<close>): the registry of character devices with its
    major and minor numbers, and the memory file system; both extend the state of open files, and the
    close operation of \<open>Tmpfs\<close> is another instance of \<open>close_method\<close>.
  \<^item> \<open>Vfs\<close> (\<^verbatim>\<open>fs/vfs/vfs.c\<close>): canonical paths, mounts, operations by path and open files over the drivers, which
    are records of functions on the state; the tables of \<open>Tmpfs\<close> and \<open>Devfs\<close> are two of them.

  \<^bold>\<open>How the code is rendered.\<close> A struct is a record, an enumeration a datatype, a function a HOL function on
  the state it reads and writes. \<^verbatim>\<open>-E...\<close> results are \<open>Inl\<close>. A pointer that may be \<^verbatim>\<open>NULL\<close> is an option.
  Spinlocks are not represented: the code between lock and unlock is one step. Blocking splits a
  function into turns. Pointers of doubly linked lists are represented where the code depends on them
  (queues of processes, children); elsewhere the list is a HOL list.

  \<^bold>\<open>What is shown.\<close> Scheduler: the dispatcher picks the longest-waiting process of the highest priority,
  sleepers are woken exactly when due, exit and waitpid hand over status and resources once. Signals:
  \<^verbatim>\<open>SIGKILL\<close> and \<^verbatim>\<open>SIGSTOP\<close> cannot be blocked, delivery and return are a round trip. Locks: mutual exclusion in
  every reachable state. Files: reference counts are exact, pipes deliver their byte stream. Memory: page
  allocation is an exact first fit, mapping a page updates the translation of that page alone, heap blocks
  never overlap and keep their contents, \<^verbatim>\<open>mmap\<close> hands out cleared pages in free address space. Block devices: with working write-backs the cache is invisible.
  Character devices: the registry is a partial map from device numbers. Memory file system: nodes stay well
  typed, every object is owned once, no open file refers to a freed node, and what is written is read back.
  Virtual file system: a path is resolved to the mount with the longest matching prefix.
  Where the code does not do what it means to, a theorem shows the failure: a process is lost or
  resurrected, a count is wrong, a page in use is freed.

  \<^bold>\<open>Bounds.\<close> No function of the development takes fuel. Loops over arrays recurse over the list of indices;
  loops over pointers are partial functions whose termination the theorems prove under the invariant of
  the structure they walk. The size of the arrays is that of the code (64-bit words of the page bitmap,
  512 buffers, 8192 heap regions).

  \<^bold>\<open>Not modelled.\<close> Device drivers (AHCI, PS/2 keyboard, PCI, serial, framebuffer, timers, APIC), ACPI and boot
  code, whose behaviour is that of hardware registers; assembly (stack switch, interrupt entry); user
  programs under \<^verbatim>\<open>app/\<close> and third-party code under \<^verbatim>\<open>vendor/\<close> and \<^verbatim>\<open>include/uacpi\<close>. The FAT
  file system, the system-call table beyond the calls named above, the program loader, the manager of shared-memory
  regions and the C library are not modelled yet.
\<close>

end
